(* ===== verification/Zoad_Prelude.thy ===== *)
theory Zoad_Prelude
  imports Main "HOL-Library.Word"
begin

text \<open>
  Shared vocabulary of the ZoAD development: the faults a run of the C++ code can
  end in, the sequencing and looping combinators the components are written with
  (and the proof rules of those loops), 32-bit arithmetic as the code performs it
  on \<^verbatim>\<open>unsigned int\<close> and \<^verbatim>\<open>int\<close>, bounds-checked access to buffers and
  vectors, and the lemmas on cutting a buffer into equal chunks that the striping
  proofs rest on.
\<close>

named_theorems fault_simps \<open>rewriting of sequenced, possibly faulting computations\<close>
named_theorems u32_simps \<open>32-bit arithmetic that does not wrap\<close>

section \<open>Faults and sequencing\<close>

text \<open>
  A call either returns or ends the run: \<^verbatim>\<open>exit(0)\<close> with its message, an access
  outside a buffer or vector, a loop that never ends, an unlock of a mutex that is
  not held, a lock of a mutex that is already held by the caller, a use of a freed
  object, a division by zero, any other operation C++ leaves undefined.
\<close>

datatype fault =
    Exit string
  | OutOfBounds string
  | Diverges string
  | BadUnlock string
  | Deadlock string
  | UseAfterFree string
  | DivByZero string
  | Undefined string

type_synonym 'a res = "fault + 'a"

fun ebind :: "'a res \<Rightarrow> ('a \<Rightarrow> 'b res) \<Rightarrow> 'b res" where
  "ebind (Inl e) f = Inl e"
| "ebind (Inr x) f = f x"

lemma ebind_Inr_iff [fault_simps]:
  "ebind m f = Inr y \<longleftrightarrow> (\<exists>x. m = Inr x \<and> f x = Inr y)"
  by (cases m) auto

lemma ebind_Inl_iff [fault_simps]:
  "ebind m f = Inl e \<longleftrightarrow> m = Inl e \<or> (\<exists>x. m = Inr x \<and> f x = Inl e)"
  by (cases m) auto

lemma ebind_assoc: "ebind (ebind m f) g = ebind m (\<lambda>x. ebind (f x) g)"
  by (cases m) auto

lemma ebind_InrI: "m = Inr x \<Longrightarrow> f x = r \<Longrightarrow> ebind m f = r"
  by simp

section \<open>Loops\<close>

text \<open>
  \<^verbatim>\<open>for (i = lo; i < lo + k; i++)\<close> over a state. The number of rounds is fixed
  on entry, as it is in every counted loop the model writes with it.
\<close>

fun efor :: "nat \<Rightarrow> nat \<Rightarrow> (nat \<Rightarrow> 's \<Rightarrow> 's res) \<Rightarrow> 's \<Rightarrow> 's res" where
  "efor i 0 f s = Inr s"
| "efor i (Suc k) f s = ebind (f i s) (efor (Suc i) k f)"

lemma efor_rule:
  assumes "P i s"
    and "\<And>j t. i \<le> j \<Longrightarrow> j < i + k \<Longrightarrow> P j t \<Longrightarrow> \<exists>t'. f j t = Inr t' \<and> P (Suc j) t'"
  shows "\<exists>s'. efor i k f s = Inr s' \<and> P (i + k) s'"
  using assms
proof (induction k arbitrary: i s)
  case 0
  then show ?case by simp
next
  case (Suc k)
  from Suc.prems obtain s1 where s1: "f i s = Inr s1" "P (Suc i) s1"
    by (meson le_refl less_add_same_cancel1 zero_less_Suc)
  have "\<exists>s'. efor (Suc i) k f s1 = Inr s' \<and> P (Suc i + k) s'"
    by (rule Suc.IH [OF s1(2)]) (use Suc.prems(2) in auto)
  with s1 show ?case by simp
qed

lemma efor_ruleE:
  assumes "P i s"
    and "\<And>j t. i \<le> j \<Longrightarrow> j < i + k \<Longrightarrow> P j t \<Longrightarrow> \<exists>t'. f j t = Inr t' \<and> P (Suc j) t'"
  obtains s' where "efor i k f s = Inr s'" "P (i + k) s'"
proof -
  have "\<exists>s'. efor i k f s = Inr s' \<and> P (i + k) s'"
    by (rule efor_rule [of P, OF assms(1)]) (use assms(2) in blast)
  then show thesis using that by blast
qed

text \<open>A counted loop whose rounds leave the state alone.\<close>

lemma efor_idle: "(\<And>j. i \<le> j \<Longrightarrow> j < i + k \<Longrightarrow> f j s = Inr s) \<Longrightarrow> efor i k f s = Inr s"
  by (induction k arbitrary: i) simp_all

text \<open>A counted loop whose round \<open>m\<close> faults, after rounds that do not.\<close>

lemma efor_failI:
  assumes "P i s" "k = Suc m + r"
    and "\<And>j t. i \<le> j \<Longrightarrow> j < i + m \<Longrightarrow> P j t \<Longrightarrow> \<exists>t'. f j t = Inr t' \<and> P (Suc j) t'"
    and "\<And>t. P (i + m) t \<Longrightarrow> f (i + m) t = Inl e"
  shows "efor i k f s = Inl e"
  using assms
proof (induction m arbitrary: i s k)
  case 0
  then show ?case by simp
next
  case (Suc m)
  obtain t where t: "f i s = Inr t" "P (Suc i) t" using Suc.prems(3) [OF _ _ Suc.prems(1)] by auto
  have "efor (Suc i) (Suc m + r) f t = Inl e"
    using Suc.prems(3,4) by (intro Suc.IH [OF t(2)]) auto
  then show ?case using Suc.prems(2) t by simp
qed

text \<open>
  A \<^verbatim>\<open>while\<close> loop with a bound on its number of rounds; a run that needs more
  rounds than the bound is the fault \<open>Diverges\<close>. Every use comes with a lemma
  that the bound is enough.
\<close>

fun ewhile :: "nat \<Rightarrow> string \<Rightarrow> ('s \<Rightarrow> bool) \<Rightarrow> ('s \<Rightarrow> 's res) \<Rightarrow> 's \<Rightarrow> 's res" where
  "ewhile 0 w b f s = (if b s then Inl (Diverges w) else Inr s)"
| "ewhile (Suc n) w b f s = (if b s then ebind (f s) (ewhile n w b f) else Inr s)"

lemma ewhile_rule:
  assumes "P s" and "m s \<le> n"
    and "\<And>t. P t \<Longrightarrow> b t \<Longrightarrow> \<exists>t'. f t = Inr t' \<and> P t' \<and> m t' < m t"
  shows "\<exists>s'. ewhile n w b f s = Inr s' \<and> P s' \<and> \<not> b s'"
  using assms(1,2)
proof (induction n arbitrary: s)
  case 0
  then show ?case using assms(3) by (metis ewhile.simps(1) less_nat_zero_code le_zero_eq)
next
  case (Suc n)
  show ?case
  proof (cases "b s")
    case True
    then obtain t where t: "f s = Inr t" "P t" "m t < m s"
      using assms(3) Suc.prems(1) by blast
    then have "\<exists>s'. ewhile n w b f t = Inr s' \<and> P s' \<and> \<not> b s'"
      using Suc.prems(2) by (intro Suc.IH) auto
    with True t show ?thesis by simp
  next
    case False
    with Suc.prems show ?thesis by auto
  qed
qed

text \<open>More fuel never changes a run that ended.\<close>

lemma ewhile_mono:
  "ewhile n w b f s = Inr t \<Longrightarrow> ewhile (n + k) w b f s = Inr t"
proof (induction n arbitrary: s)
  case 0
  then show ?case by (cases k) (auto split: if_splits)
next
  case (Suc n)
  then show ?case by (auto simp: fault_simps split: if_splits)
qed

text \<open>What every round keeps, a loop that returns keeps.\<close>

lemma efor_keeps:
  assumes step: "\<And>j t t'. P t \<Longrightarrow> f j t = Inr t' \<Longrightarrow> P t'"
  shows "efor i k f s = Inr s' \<Longrightarrow> P s \<Longrightarrow> P s'"
proof (induction k arbitrary: i s)
  case 0
  then show ?case by simp
next
  case (Suc k)
  from Suc.prems(1) obtain t where "f i s = Inr t" "efor (Suc i) k f t = Inr s'" by (auto simp: fault_simps)
  then show ?case using Suc.IH step Suc.prems(2) by blast
qed

lemma ewhile_keeps:
  assumes step: "\<And>t t'. P t \<Longrightarrow> f t = Inr t' \<Longrightarrow> P t'"
  shows "ewhile n w b f s = Inr s' \<Longrightarrow> P s \<Longrightarrow> P s'"
proof (induction n arbitrary: s)
  case 0
  then show ?case by (simp split: if_splits)
next
  case (Suc n)
  show ?case
  proof (cases "b s")
    case True
    with Suc.prems(1) obtain t where "f s = Inr t" "ewhile n w b f t = Inr s'" by (auto simp: fault_simps)
    then show ?thesis using Suc.IH step Suc.prems(2) by blast
  next
    case False
    then show ?thesis using Suc.prems by simp
  qed
qed

section \<open>32-bit integers\<close>

text \<open>
  \<^verbatim>\<open>unsigned int\<close> values are natural numbers below \<open>2^32\<close>; every operation that
  can leave that range is written with the operators below, which wrap as the
  machine does. \<^verbatim>\<open>int\<close> is two's complement.
\<close>

definition u32 :: "nat \<Rightarrow> nat" where
  "u32 n = n mod 2 ^ 32"

definition u32_sub :: "nat \<Rightarrow> nat \<Rightarrow> nat" where
  "u32_sub a b = nat ((int a - int b) mod 2 ^ 32)"

definition s32 :: "int \<Rightarrow> int" where
  "s32 i = (i + 2 ^ 31) mod 2 ^ 32 - 2 ^ 31"

lemma u32_id [u32_simps]: "n < 4294967296 \<Longrightarrow> u32 n = n"
  by (simp add: u32_def)

lemma u32_less: "u32 n < 4294967296"
  by (simp add: u32_def)

lemma u32_sub_id [u32_simps]: "b \<le> a \<Longrightarrow> a < 4294967296 \<Longrightarrow> u32_sub a b = a - b"
proof -
  assume "b \<le> a" "a < 4294967296"
  then have "(int a - int b) mod 2 ^ 32 = int a - int b"
    by (intro mod_pos_pos_trivial) auto
  with \<open>b \<le> a\<close> show ?thesis by (simp add: u32_sub_def nat_diff_distrib)
qed

lemma u32_sub_wraps: "a < b \<Longrightarrow> b < 4294967296 \<Longrightarrow> u32_sub a b = 4294967296 + a - b"
proof -
  assume ab: "a < b" "b < 4294967296"
  have "(int a - int b) mod 2 ^ 32 = (int a - int b + 4294967296) mod 2 ^ 32"
    by simp
  also have "\<dots> = int a - int b + 4294967296"
    using ab by (intro mod_pos_pos_trivial) auto
  finally show ?thesis using ab by (simp add: u32_sub_def)
qed

lemma s32_id [u32_simps]: "- 2147483648 \<le> i \<Longrightarrow> i < 2147483648 \<Longrightarrow> s32 i = i"
  by (simp add: s32_def)

section \<open>Buffers and vectors\<close>

type_synonym byte = "8 word"

text \<open>\<^verbatim>\<open>v[i]\<close> or \<^verbatim>\<open>*it\<close> on a vector; past the end is a fault.\<close>

definition vec_at :: "'a list \<Rightarrow> nat \<Rightarrow> 'a res" where
  "vec_at xs i = (if i < length xs then Inr (xs ! i) else Inl (OutOfBounds ''vector''))"

lemma vec_at_ok [simp]: "i < length xs \<Longrightarrow> vec_at xs i = Inr (xs ! i)"
  by (simp add: vec_at_def)

definition vec_set :: "'a list \<Rightarrow> nat \<Rightarrow> 'a \<Rightarrow> 'a list res" where
  "vec_set xs i x = (if i < length xs then Inr (xs[i := x]) else Inl (OutOfBounds ''vector''))"

lemma vec_set_ok [simp]: "i < length xs \<Longrightarrow> vec_set xs i x = Inr (xs[i := x])"
  by (simp add: vec_set_def)

text \<open>Reading and writing \<open>n\<close> bytes of a buffer at a position.\<close>

definition mem_read :: "'a list \<Rightarrow> nat \<Rightarrow> nat \<Rightarrow> 'a list res" where
  "mem_read buf pos n =
     (if pos + n \<le> length buf then Inr (take n (drop pos buf))
      else Inl (OutOfBounds ''buffer read''))"

definition mem_write :: "'a list \<Rightarrow> nat \<Rightarrow> 'a list \<Rightarrow> 'a list res" where
  "mem_write buf pos xs =
     (if pos + length xs \<le> length buf
      then Inr (take pos buf @ xs @ drop (pos + length xs) buf)
      else Inl (OutOfBounds ''buffer write''))"

lemma mem_read_ok [simp]:
  "pos + n \<le> length buf \<Longrightarrow> mem_read buf pos n = Inr (take n (drop pos buf))"
  by (simp add: mem_read_def)

lemma mem_write_ok:
  "pos + length xs \<le> length buf \<Longrightarrow>
   mem_write buf pos xs = Inr (take pos buf @ xs @ drop (pos + length xs) buf)"
  by (simp add: mem_write_def)

lemma mem_write_InrD:
  "mem_write buf pos xs = Inr buf' \<Longrightarrow>
   length buf' = length buf \<and> pos + length xs \<le> length buf"
  by (auto simp: mem_write_def split: if_splits)

lemma mem_read_write:
  "mem_write buf pos xs = Inr buf' \<Longrightarrow> mem_read buf' pos (length xs) = Inr xs"
  by (auto simp: mem_write_def mem_read_def split: if_splits)

lemma nth_mem_write:
  "mem_write buf pos xs = Inr buf' \<Longrightarrow> i < length buf \<Longrightarrow>
   buf' ! i = (if pos \<le> i \<and> i < pos + length xs then xs ! (i - pos) else buf ! i)"
  by (auto simp: mem_write_def nth_append split: if_splits)

section \<open>Cutting a buffer into chunks\<close>

text \<open>The \<open>i\<close>-th chunk of \<open>n\<close> elements.\<close>

definition chunk :: "nat \<Rightarrow> 'a list \<Rightarrow> nat \<Rightarrow> 'a list" where
  "chunk n xs i = take n (drop (i * n) xs)"

lemma length_chunk: "(Suc i) * n \<le> length xs \<Longrightarrow> length (chunk n xs i) = n"
  by (simp add: chunk_def)

lemma nth_chunk:
  "(Suc i) * n \<le> length xs \<Longrightarrow> j < n \<Longrightarrow> chunk n xs i ! j = xs ! (i * n + j)"
  by (simp add: chunk_def)

text \<open>Two buffers of \<open>k\<close> chunks are equal when all their chunks are.\<close>

lemma chunks_eqI:
  assumes "length xs = k * n" "length ys = k * n"
    and "\<And>i. i < k \<Longrightarrow> chunk n xs i = chunk n ys i"
  shows "xs = ys"
proof (rule nth_equalityI)
  show "length xs = length ys" using assms by simp
  fix j assume j: "j < length xs"
  then have n: "0 < n" using assms(1) by (cases n) auto
  have i: "j div n < k" using j assms(1) n by (simp add: less_mult_imp_div_less)
  have b: "Suc (j div n) * n \<le> k * n" using i by (simp add: mult_le_mono1 Suc_leI del: mult_Suc)
  have jm: "j div n * n + j mod n = j" by simp
  have "chunk n xs (j div n) ! (j mod n) = chunk n ys (j div n) ! (j mod n)"
    using assms(3) [OF i] by simp
  then show "xs ! j = ys ! j"
    using b n assms(1,2) nth_chunk [of "j div n" n xs "j mod n"] nth_chunk [of "j div n" n ys "j mod n"]
    by simp
qed

lemma concat_chunks:
  assumes "length xs = k * n"
  shows "concat (map (chunk n xs) [0..<k]) = xs"
  using assms
proof (induction k arbitrary: xs)
  case 0
  then show ?case by simp
next
  case (Suc k)
  have "map (chunk n xs) [0..<k] = map (chunk n (take (k * n) xs)) [0..<k]"
  proof (rule map_cong [OF refl])
    fix i assume "i \<in> set [0..<k]"
    then have "Suc i * n \<le> k * n" by (simp add: mult_le_mono1 del: mult_Suc)
    then show "chunk n xs i = chunk n (take (k * n) xs) i"
      by (simp add: chunk_def drop_take min_def)
  qed
  then have "concat (map (chunk n xs) [0..<k]) = concat (map (chunk n (take (k * n) xs)) [0..<k])"
    by (rule arg_cong)
  moreover have "concat (map (chunk n (take (k * n) xs)) [0..<k]) = take (k * n) xs"
    using Suc.prems by (intro Suc.IH) simp
  moreover have "chunk n xs k = drop (k * n) xs"
    using Suc.prems by (simp add: chunk_def)
  ultimately have "concat (map (chunk n xs) [0..<Suc k]) = take (k * n) xs @ drop (k * n) xs"
    by (simp del: append_take_drop_id)
  then show ?case by simp
qed

section \<open>Byte ranges of an addressable store\<close>

definition range_of :: "(nat \<Rightarrow> 'a) \<Rightarrow> nat \<Rightarrow> nat \<Rightarrow> 'a list" where
  "range_of m a n = map m [a..<a + n]"

definition store_range :: "(nat \<Rightarrow> 'a) \<Rightarrow> nat \<Rightarrow> 'a list \<Rightarrow> nat \<Rightarrow> 'a" where
  "store_range m a xs = (\<lambda>i. if a \<le> i \<and> i < a + length xs then xs ! (i - a) else m i)"

lemma length_range_of [simp]: "length (range_of m a n) = n"
  by (simp add: range_of_def)

lemma nth_range_of: "i < n \<Longrightarrow> range_of m a n ! i = m (a + i)"
  by (simp add: range_of_def)

lemma range_of_store_same: "range_of (store_range m a xs) a (length xs) = xs"
  by (rule nth_equalityI) (simp_all add: nth_range_of store_range_def)

lemma range_of_store_disjoint:
  "b + n \<le> a \<or> a + length xs \<le> b \<Longrightarrow> range_of (store_range m a xs) b n = range_of m b n"
  by (rule nth_equalityI) (auto simp: nth_range_of store_range_def)

lemma range_of_append: "range_of m a (n + k) = range_of m a n @ range_of m (a + n) k"
  by (rule nth_equalityI) (simp_all add: nth_range_of nth_append)

lemma chunk_range_of:
  "(Suc i) * n \<le> k \<Longrightarrow> chunk n (range_of m a k) i = range_of m (a + i * n) n"
  by (rule nth_equalityI) (simp_all add: length_chunk nth_chunk nth_range_of add.assoc)

lemma range_of_cong: "(\<And>i. a \<le> i \<Longrightarrow> i < a + n \<Longrightarrow> m i = m' i) \<Longrightarrow> range_of m a n = range_of m' a n"
  by (auto simp: range_of_def)

end
