(* ===== verification/Controller.thy ===== *)
theory Controller
  imports Zoad_Prelude
begin

unbundle bit_operations_syntax

text \<open>
  The NVMe/ZNS controller layer, \<^verbatim>\<open>src/util/zoad/controller.c\<close> and
  \<^verbatim>\<open>controller.h\<close>: the command structures, the host's copy of the zone descriptors
  with their write pointers, and the operations that identify, format, report,
  open, close, reset, write and read zones. The device behind the \<^verbatim>\<open>ioctl\<close> calls
  is a parameter (\<open>nvme_ops\<close>); what the code relies on of it is the predicate
  \<open>nvme_ok\<close>.
\<close>

section \<open>Constants and structures of controller.h\<close>

definition BLOCK_SIZE :: nat where "BLOCK_SIZE = 512"
definition IO_BLOCKS :: nat where "IO_BLOCKS = 384"
definition IO_SIZE :: nat where "IO_SIZE = 196608"
definition REPORT_NUM :: nat where "REPORT_NUM = 1024"
definition REPORT_ALL :: nat where "REPORT_ALL = 1"
definition REPORT_ALL_STATE :: nat where "REPORT_ALL_STATE = 0"

definition MAN_CLOSE :: "8 word" where "MAN_CLOSE = 1"
definition MAN_FINISH :: "8 word" where "MAN_FINISH = 2"
definition MAN_OPEN :: "8 word" where "MAN_OPEN = 3"
definition MAN_RESET :: "8 word" where "MAN_RESET = 4"
definition MAN_OFFLINE :: "8 word" where "MAN_OFFLINE = 5"

lemmas man_defs = MAN_CLOSE_def MAN_FINISH_def MAN_OPEN_def MAN_RESET_def MAN_OFFLINE_def

lemma IO_SIZE_blocks: "IO_SIZE = IO_BLOCKS * BLOCK_SIZE"
  by (simp add: IO_SIZE_def IO_BLOCKS_def BLOCK_SIZE_def)

lemma io_pos [simp]: "0 < IO_SIZE" "0 < IO_BLOCKS" "0 < BLOCK_SIZE"
  by (simp_all add: IO_SIZE_def IO_BLOCKS_def BLOCK_SIZE_def)

lemma io_nz [simp]: "IO_SIZE \<noteq> 0" "IO_BLOCKS \<noteq> 0" "BLOCK_SIZE \<noteq> 0"
  by (simp_all add: IO_SIZE_def IO_BLOCKS_def BLOCK_SIZE_def)

record nvme_passthru_cmd =
  pc_opcode :: "8 word"
  pc_flags :: "8 word"
  pc_rsvd1 :: "16 word"
  pc_nsid :: "32 word"
  pc_cdw2 :: "32 word"
  pc_cdw3 :: "32 word"
  pc_metadata :: "64 word"
  pc_metadata_len :: "32 word"
  pc_data_len :: "32 word"
  pc_cdw10 :: "32 word"
  pc_cdw11 :: "32 word"
  pc_cdw12 :: "32 word"
  pc_cdw13 :: "32 word"
  pc_cdw14 :: "32 word"
  pc_cdw15 :: "32 word"
  pc_timeout_ms :: "32 word"
  pc_result :: "32 word"

text \<open>
  The field \<^verbatim>\<open>addr\<close> of the two command structures is the host buffer; here the
  bytes of that buffer travel beside the command.
\<close>

record nvme_user_io =
  io_opcode :: "8 word"
  io_flags :: "8 word"
  io_control :: "16 word"
  io_nblocks :: "16 word"
  io_rsvd :: "16 word"
  io_metadata :: "64 word"
  io_slba :: "64 word"
  io_dsmgmt :: "32 word"
  io_reftag :: "32 word"
  io_apptag :: "16 word"
  io_appmask :: "16 word"

record zone_format =
  zf_zsze :: "64 word"
  zf_lbafs :: "16 word"
  zf_zdes :: "8 word"

text \<open>The fields of \<^verbatim>\<open>struct nvme_id_ns\<close> the code reads.\<close>

record nvme_id_ns =
  nsze :: "64 word"
  ncap :: "64 word"
  nuse :: "64 word"
  noiob :: "16 word"
  npwg :: "16 word"
  npwa :: "16 word"
  npdg :: "16 word"
  npda :: "16 word"
  nows :: "16 word"
  zfi :: "8 word"
  mar :: "32 word"
  mor :: "32 word"
  zonef :: "zone_format list"

record zns_info =
  zi_fd :: int
  zi_ns_size :: "64 word"
  zi_ns_cap :: "64 word"
  zi_ns_use :: "64 word"
  zi_zfi :: "8 word"
  zi_ns_op_io_bound :: "16 word"
  zi_ns_pref_wr_gran :: "16 word"
  zi_ns_pref_wr_align :: "16 word"
  zi_ns_pref_dealloc_gran :: "16 word"
  zi_ns_pref_dealloc_align :: "16 word"
  zi_ns_opot_wr_size :: "16 word"
  zi_max_active_res :: nat
  zi_max_open_res :: nat
  zi_opened_zone_num :: nat
  zi_max_append_size :: "8 word"
  zi_zonef :: zone_format
  zi_max_zone_cnt :: nat

record zone_descriptor =
  zd_type :: nat
  zd_state :: nat
  zd_zfc :: bool
  zd_fzr :: bool
  zd_rzr :: bool
  zd_zdev :: bool
  zd_capacity :: "64 word"
  zd_start_lba :: "64 word"
  zd_wp :: "64 word"

section \<open>The device behind ioctl\<close>

text \<open>
  One field per kind of \<^verbatim>\<open>ioctl\<close> the file issues, typed by the buffer the call
  passes: the results are the return value and what the device wrote back, \<open>'d\<close> is
  the state of the device. A zone report is its header (the number of zones in the
  first eight bytes) and the descriptors that follow it in the buffer.
\<close>

record 'd nvme_ops =
  dev_open :: "string \<Rightarrow> 'd \<Rightarrow> int"
  ioctl_identify_ns :: "nvme_passthru_cmd \<Rightarrow> 'd \<Rightarrow> int \<times> nvme_id_ns"
  ioctl_identify_ctrl :: "nvme_passthru_cmd \<Rightarrow> 'd \<Rightarrow> int \<times> 8 word"
  ioctl_admin :: "nvme_passthru_cmd \<Rightarrow> 'd \<Rightarrow> int \<times> 'd"
  ioctl_io_send :: "nvme_passthru_cmd \<Rightarrow> 'd \<Rightarrow> int \<times> 'd"
  ioctl_io_recv :: "nvme_passthru_cmd \<Rightarrow> 'd \<Rightarrow> int \<times> 64 word \<times> zone_descriptor list"
  submit_write :: "nvme_user_io \<Rightarrow> byte list \<Rightarrow> 'd \<Rightarrow> int \<times> 'd"
  submit_read :: "nvme_user_io \<Rightarrow> 'd \<Rightarrow> int \<times> byte list"

text \<open>The globals of controller.c: \<^verbatim>\<open>zns_info\<close>, \<^verbatim>\<open>zone_desc_list\<close>, and the device.\<close>

record 'd ctrl =
  c_dev :: 'd
  c_info :: zns_info
  c_desc :: "zone_descriptor list"

abbreviation zsze_of :: "'d ctrl \<Rightarrow> 64 word" where
  "zsze_of c \<equiv> zf_zsze (zi_zonef (c_info c))"

section \<open>Identification and format\<close>

text \<open>A passthru command with every field zero that the initialisers set to zero.\<close>

definition mk_passthru ::
  "8 word \<Rightarrow> 32 word \<Rightarrow> 32 word \<Rightarrow> 32 word \<Rightarrow> 32 word \<Rightarrow> 32 word \<Rightarrow> 32 word \<Rightarrow> nvme_passthru_cmd" where
  "mk_passthru op ns dlen w10 w11 w12 w13 =
     \<lparr>pc_opcode = op, pc_flags = 0, pc_rsvd1 = 0, pc_nsid = ns, pc_cdw2 = 0, pc_cdw3 = 0,
      pc_metadata = 0, pc_metadata_len = 0, pc_data_len = dlen, pc_cdw10 = w10, pc_cdw11 = w11,
      pc_cdw12 = w12, pc_cdw13 = w13, pc_cdw14 = 0, pc_cdw15 = 0, pc_timeout_ms = 0, pc_result = 0\<rparr>"

definition identify_ns :: "'d nvme_ops \<Rightarrow> 'd \<Rightarrow> nvme_id_ns res" where
  "identify_ns ops d =
     (case ioctl_identify_ns ops (mk_passthru 0x06 1 4096 0 0 0 0) d of (result, data) \<Rightarrow>
        if result = -1 then Inl (Exit ''ZNS SSD NS Info Request Fail'') else Inr data)"

definition identify_ctrl :: "'d nvme_ops \<Rightarrow> 'd \<Rightarrow> 8 word res" where
  "identify_ctrl ops d =
     (case ioctl_identify_ctrl ops (mk_passthru 0x06 0 4096 1 0 0 0) d of (result, zamds) \<Rightarrow>
        if result = -1 then Inl (Exit ''ZNS SSD Ctrl Info Request Fail'') else Inr zamds)"

text \<open>
  \<^verbatim>\<open>malloc\<close> of the descriptor array: its entries are overwritten by
  \<open>zns_get_zone_desc\<close> before they are read; until then they stand as zeros here.
\<close>

definition zd_zero :: zone_descriptor where
  "zd_zero = \<lparr>zd_type = 0, zd_state = 0, zd_zfc = False, zd_fzr = False, zd_rzr = False,
     zd_zdev = False, zd_capacity = 0, zd_start_lba = 0, zd_wp = 0\<rparr>"

definition zns_get_info :: "'d nvme_ops \<Rightarrow> string \<Rightarrow> 'd \<Rightarrow> (int \<times> 'd ctrl) res" where
  "zns_get_info ops dev d =
     ebind (identify_ns ops d) (\<lambda>id_ns.
     ebind (identify_ctrl ops d) (\<lambda>zamds.
     ebind (vec_at (zonef id_ns) (unat (zfi id_ns))) (\<lambda>zf.
       if zf_zsze zf = 0 then Inl (DivByZero ''ns_size / zsze'')
       else
         let cnt = u32 (unat (nsze id_ns div zf_zsze zf));
             info = \<lparr>zi_fd = dev_open ops dev d,
               zi_ns_size = nsze id_ns, zi_ns_cap = ncap id_ns, zi_ns_use = nuse id_ns,
               zi_zfi = zfi id_ns, zi_ns_op_io_bound = noiob id_ns,
               zi_ns_pref_wr_gran = npwg id_ns, zi_ns_pref_wr_align = npwa id_ns,
               zi_ns_pref_dealloc_gran = npdg id_ns, zi_ns_pref_dealloc_align = npda id_ns,
               zi_ns_opot_wr_size = nows id_ns, zi_max_active_res = unat (mar id_ns),
               zi_max_open_res = unat (mor id_ns), zi_opened_zone_num = 0,
               zi_max_append_size = zamds, zi_zonef = zf, zi_max_zone_cnt = cnt\<rparr>
         in Inr (0, \<lparr>c_dev = d, c_info = info, c_desc = replicate cnt zd_zero\<rparr>))))"

definition zns_format :: "'d nvme_ops \<Rightarrow> 'd ctrl \<Rightarrow> int \<times> 'd ctrl" where
  "zns_format ops c =
     (case ioctl_admin ops (mk_passthru 0x80 1 0 0 0 0 0) (c_dev c) of (result, d) \<Rightarrow>
        (if result = -1 then -1 else 0, c\<lparr>c_dev := d\<rparr>))"

definition zns_set_zone_change_notification :: "'d nvme_ops \<Rightarrow> 'd ctrl \<Rightarrow> int \<times> 'd ctrl" where
  "zns_set_zone_change_notification ops c =
     (case ioctl_admin ops (mk_passthru 0x09 1 4096 0x0B (0 OR push_bit 27 1) 0 0) (c_dev c) of
        (result, d) \<Rightarrow> (if result = -1 then -1 else 0, c\<lparr>c_dev := d\<rparr>))"

section \<open>Getters\<close>

definition zns_get_total_zone :: "'d ctrl \<Rightarrow> nat" where
  "zns_get_total_zone c = zi_max_zone_cnt (c_info c)"

text \<open>The getters return \<^verbatim>\<open>unsigned int\<close>: the 64-bit fields are cut to 32 bits.\<close>

definition zns_get_zone_size :: "'d ctrl \<Rightarrow> nat" where
  "zns_get_zone_size c = u32 (unat (zsze_of c))"

definition zns_get_start_lba :: "'d ctrl \<Rightarrow> nat \<Rightarrow> nat res" where
  "zns_get_start_lba c zone_number =
     ebind (vec_at (c_desc c) zone_number) (\<lambda>zd. Inr (u32 (unat (zd_start_lba zd))))"

definition zns_get_wp :: "'d ctrl \<Rightarrow> nat \<Rightarrow> nat res" where
  "zns_get_wp c zone_number =
     ebind (vec_at (c_desc c) zone_number) (\<lambda>zd. Inr (u32 (unat (zd_wp zd))))"

definition zns_full_zone :: "'d ctrl \<Rightarrow> nat \<Rightarrow> bool res" where
  "zns_full_zone c zone_number =
     ebind (vec_at (c_desc c) zone_number) (\<lambda>zd. Inr (zd_start_lba zd + zsze_of c \<le> zd_wp zd))"

section \<open>Zone management\<close>

definition zns_management_send ::
  "'d nvme_ops \<Rightarrow> nat \<Rightarrow> 8 word \<Rightarrow> 'd ctrl \<Rightarrow> (int \<times> 'd ctrl) res" where
  "zns_management_send ops zone_number value c =
     (let cdw13 = 0 OR ucast value :: 32 word;
          slba = of_nat zone_number * zsze_of c
      in if value = MAN_OPEN
            \<and> zi_max_open_res (c_info c) \<le> u32 (zi_opened_zone_num (c_info c) + 1)
         then Inr (-1, c)
         else
           let slba1 = ucast (slba AND 0xffffffff) :: 32 word;
               slba2 = ucast (drop_bit 32 slba) :: 32 word
           in case ioctl_io_send ops (mk_passthru 0x79 1 0 slba1 slba2 0 cdw13) (c_dev c) of
                (result, d) \<Rightarrow>
                  let c1 = c\<lparr>c_dev := d\<rparr>; info = c_info c1
                  in if result = -1 then Inr (-1, c1)
                     else if value = MAN_OPEN then
                       Inr (0, c1\<lparr>c_info := info\<lparr>zi_opened_zone_num :=
                                   u32 (zi_opened_zone_num info + 1)\<rparr>\<rparr>)
                     else if value = MAN_CLOSE then
                       Inr (0, c1\<lparr>c_info := info\<lparr>zi_opened_zone_num :=
                                   u32_sub (zi_opened_zone_num info) 1\<rparr>\<rparr>)
                     else if value = MAN_RESET then
                       ebind (vec_at (c_desc c1) zone_number) (\<lambda>zd.
                         Inr (0, c1\<lparr>c_desc :=
                           (c_desc c1)[zone_number := zd\<lparr>zd_wp := zd_start_lba zd\<rparr>]\<rparr>))
                     else Inr (0, c1))"

definition zns_set_zone :: "'d nvme_ops \<Rightarrow> nat \<Rightarrow> 8 word \<Rightarrow> 'd ctrl \<Rightarrow> 'd ctrl res" where
  "zns_set_zone ops zone_number value c =
     ebind (zns_management_send ops zone_number value c) (\<lambda>(_, c'). Inr c')"

section \<open>Zone reports\<close>

text \<open>
  The parameter \<^verbatim>\<open>slba\<close> is a 32-bit value shifted right by 32, which C leaves
  undefined; the shift of zero is taken to give zero.
\<close>

definition zns_management_recv ::
  "'d nvme_ops \<Rightarrow> nat \<Rightarrow> nat \<Rightarrow> nat \<Rightarrow> nat \<Rightarrow> 'd ctrl \<Rightarrow> (64 word \<times> zone_descriptor list) res" where
  "zns_management_recv ops report_zone_cnt partial option slba c =
     (if slba \<noteq> 0 then Inl (Undefined ''slba >> 32'')
      else
        let len = of_nat ((report_zone_cnt + 1) * 64) :: 32 word;
            cdw13 = 0 OR push_bit 16 (of_nat partial) OR push_bit 8 (of_nat option) :: 32 word
        in case ioctl_io_recv ops (mk_passthru 0x7A 1 len (of_nat slba) 0 len cdw13) (c_dev c) of
             (result, buffer) \<Rightarrow>
               if result = -1 then Inl (Exit ''ZNS SSD Zone Management Recv Fail'')
               else Inr buffer)"

text \<open>The inner loop: \<^verbatim>\<open>memcpy(&zone_desc_list[index + i], &desc_buf[i + 1], ...)\<close>.\<close>

definition copy_descriptors ::
  "nat \<Rightarrow> nat \<Rightarrow> zone_descriptor list \<Rightarrow> zone_descriptor list \<Rightarrow> zone_descriptor list res" where
  "copy_descriptors index report_zone_num desc_buf desc_list =
     efor 0 report_zone_num (\<lambda>i dl.
       ebind (vec_at desc_buf i) (\<lambda>zd. vec_set dl (index + i) zd)) desc_list"

text \<open>One round of the report loop: a report is fetched and its zones are copied.\<close>

definition report_round ::
  "'d nvme_ops \<Rightarrow> nat \<Rightarrow> nat \<Rightarrow> nat \<Rightarrow> nat \<Rightarrow> nat \<Rightarrow> 'd ctrl \<Rightarrow> (nat \<times> 'd ctrl) res" where
  "report_round ops cnt partial option slba index c =
     ebind (zns_management_recv ops cnt partial option slba c) (\<lambda>(num, desc_buf).
     ebind (copy_descriptors index (unat num) desc_buf (c_desc c)) (\<lambda>dl.
       Inr (unat num, c\<lparr>c_desc := dl\<rparr>)))"

definition zns_get_zone_desc ::
  "'d nvme_ops \<Rightarrow> nat \<Rightarrow> nat \<Rightarrow> nat \<Rightarrow> nat \<Rightarrow> bool \<Rightarrow> 'd ctrl \<Rightarrow> 'd ctrl res" where
  "zns_get_zone_desc ops partial option from_zone report_zone_cnt init c =
     (if init then
        let max_cnt = zi_max_zone_cnt (c_info c) in
        ebind (ewhile max_cnt ''zns_get_zone_desc''
                 (\<lambda>(index, real, c). index < max_cnt)
                 (\<lambda>(index, real, c).
                    ebind (report_round ops REPORT_NUM REPORT_ALL REPORT_ALL_STATE 0 index c)
                      (\<lambda>(num, c'). Inr (u32 (index + num), u32 (real + num), c')))
                 (0, 0, c))
          (\<lambda>(index, real, c').
             Inr (c'\<lparr>c_info := (c_info c')\<lparr>zi_max_zone_cnt := real\<rparr>\<rparr>))
      else if partial = REPORT_ALL then
        let slba = u32 (unat (of_nat from_zone * zsze_of c)) in
        ebind (ewhile report_zone_cnt ''zns_get_zone_desc''
                 (\<lambda>(index, left, c). index < u32 (from_zone + report_zone_cnt))
                 (\<lambda>(index, left, c).
                    ebind (report_round ops (if REPORT_NUM < left then REPORT_NUM else left)
                             partial option slba index c)
                      (\<lambda>(num, c'). Inr (u32 (index + num), u32_sub left num, c')))
                 (from_zone, report_zone_cnt, c))
          (\<lambda>(index, left, c'). Inr c')
      else Inr c)"

section \<open>Writes and reads\<close>

definition zns_write_request ::
  "'d nvme_ops \<Rightarrow> byte list \<Rightarrow> 16 word \<Rightarrow> 64 word \<Rightarrow> 'd ctrl \<Rightarrow> (int \<times> 'd ctrl) res" where
  "zns_write_request ops write_data nblocks slba c =
     (let io = \<lparr>io_opcode = 0x01, io_flags = 0, io_control = 0x0400, io_nblocks = nblocks,
                io_rsvd = 0, io_metadata = 0, io_slba = slba, io_dsmgmt = 0, io_reftag = 0,
                io_apptag = 0, io_appmask = 0\<rparr>
      in case submit_write ops io write_data (c_dev c) of (result, d) \<Rightarrow>
           if result \<noteq> 0 then Inl (Exit ''ZNS SSD Write Fail'')
           else Inr (0, c\<lparr>c_dev := d\<rparr>))"

text \<open>The block count of a request, zero-based and cut to 16 bits.\<close>

definition nblocks_of :: "nat \<Rightarrow> 16 word" where
  "nblocks_of data_size =
     (if data_size mod BLOCK_SIZE = 0 then of_nat (data_size div BLOCK_SIZE) - 1
      else of_nat (data_size div BLOCK_SIZE))"

definition zns_write ::
  "'d nvme_ops \<Rightarrow> byte list \<Rightarrow> nat \<Rightarrow> nat \<Rightarrow> 'd ctrl \<Rightarrow> (int \<times> 'd ctrl) res" where
  "zns_write ops write_data data_size zone_number c =
     (let nblocks = nblocks_of data_size in
      ebind (vec_at (c_desc c) zone_number) (\<lambda>zd.
      ebind (zns_write_request ops write_data nblocks (zd_wp zd) c) (\<lambda>(result, c1).
        Inr (result, c1\<lparr>c_desc := (c_desc c1)[zone_number :=
               zd\<lparr>zd_wp := zd_wp zd + (ucast nblocks + 1)\<rparr>]\<rparr>))))"

definition zns_read_request ::
  "'d nvme_ops \<Rightarrow> nat \<Rightarrow> 64 word \<Rightarrow> 'd ctrl \<Rightarrow> int \<times> byte list" where
  "zns_read_request ops nblocks slba c =
     (let io = \<lparr>io_opcode = 0x02, io_flags = 0, io_control = 0, io_nblocks = of_nat nblocks,
                io_rsvd = 0, io_metadata = 0, io_slba = slba, io_dsmgmt = 0, io_reftag = 0,
                io_apptag = 0, io_appmask = 0\<rparr>
      in case submit_read ops io (c_dev c) of (result, data) \<Rightarrow>
           if result = -1 then (-1, []) else (0, data))"

text \<open>
  \<^verbatim>\<open>zns_read\<close> fills the caller's buffer with the blocks the device returns; the
  buffer is untouched when the request fails.
\<close>

definition zns_read ::
  "'d nvme_ops \<Rightarrow> byte list \<Rightarrow> nat \<Rightarrow> nat \<Rightarrow> nat \<Rightarrow> nat \<Rightarrow> 'd ctrl \<Rightarrow> (int \<times> byte list) res" where
  "zns_read ops buf pos data_size zone_number read_lba c =
     (let nblocks = (if data_size mod BLOCK_SIZE = 0 then u32_sub (data_size div BLOCK_SIZE) 1
                     else data_size div BLOCK_SIZE)
      in case zns_read_request ops nblocks (of_nat read_lba) c of (result, data) \<Rightarrow>
           if result = -1 then Inr (-1, buf)
           else ebind (mem_write buf pos data) (\<lambda>buf'. Inr (result, buf')))"

section \<open>What the code relies on of the device\<close>

text \<open>
  The documented behaviour of a zoned namespace, over an abstraction of the device
  state: \<open>media d a\<close> is the byte at byte address \<open>a\<close>, \<open>hwp d z\<close> the write pointer
  of zone \<open>z\<close> (a logical block). A write command at the write pointer of a zone that
  stays inside the zone succeeds, stores its data and advances that write pointer; a
  read inside the namespace returns the stored bytes; opening and closing a zone
  changes neither data nor write pointers; a reset that succeeds sets the write pointer
  of its zone to the start and leaves the data of the other zones.
\<close>

definition nvme_ok ::
  "'d nvme_ops \<Rightarrow> ('d \<Rightarrow> nat \<Rightarrow> byte) \<Rightarrow> ('d \<Rightarrow> nat \<Rightarrow> nat) \<Rightarrow> nat \<Rightarrow> nat \<Rightarrow> bool" where
  "nvme_ok ops media hwp zsz nz \<longleftrightarrow>
     (\<forall>d io data z. z < nz \<and> io_opcode io = 0x01 \<and> unat (io_slba io) = hwp d z
        \<and> z * zsz \<le> hwp d z \<and> hwp d z + unat (io_nblocks io) + 1 \<le> (z + 1) * zsz
        \<and> length data = (unat (io_nblocks io) + 1) * BLOCK_SIZE \<longrightarrow>
        (\<exists>d'. submit_write ops io data d = (0, d')
           \<and> media d' = store_range (media d) (hwp d z * BLOCK_SIZE) data
           \<and> hwp d' = (hwp d)(z := hwp d z + unat (io_nblocks io) + 1)))
   \<and> (\<forall>d io. io_opcode io = 0x02
        \<and> unat (io_slba io) + unat (io_nblocks io) + 1 \<le> nz * zsz \<longrightarrow>
        submit_read ops io d =
          (0, range_of (media d) (unat (io_slba io) * BLOCK_SIZE)
                ((unat (io_nblocks io) + 1) * BLOCK_SIZE)))
   \<and> (\<forall>d d' r cmd. pc_opcode cmd = 0x79 \<and> (pc_cdw13 cmd = 0x01 \<or> pc_cdw13 cmd = 0x03)
        \<and> ioctl_io_send ops cmd d = (r, d') \<longrightarrow> media d' = media d \<and> hwp d' = hwp d)
   \<and> (\<forall>d d' r cmd z. z < nz \<and> pc_opcode cmd = 0x79 \<and> pc_cdw13 cmd = 0x04
        \<and> unat (pc_cdw10 cmd) + 2 ^ 32 * unat (pc_cdw11 cmd) = z * zsz
        \<and> ioctl_io_send ops cmd d = (r, d') \<and> r \<noteq> -1 \<longrightarrow>
        hwp d' = (hwp d)(z := z * zsz)
        \<and> (\<forall>a. a < z * zsz * BLOCK_SIZE \<or> (z + 1) * zsz * BLOCK_SIZE \<le> a \<longrightarrow>
             media d' a = media d a))"

text \<open>
  The host's descriptors agree with the device: zone \<open>z\<close> starts at \<open>z * zsz\<close>, its write
  pointer is the device's and lies in the zone, and every block address fits in the
  32 bits the getters return.
\<close>

definition dev_sync :: "('d \<Rightarrow> nat \<Rightarrow> nat) \<Rightarrow> nat \<Rightarrow> nat \<Rightarrow> 'd ctrl \<Rightarrow> bool" where
  "dev_sync hwp zsz nz c \<longleftrightarrow>
     0 < zsz \<and> length (c_desc c) = nz \<and> unat (zsze_of c) = zsz \<and> (nz + 1) * zsz < 2 ^ 32 \<and>
     (\<forall>z < nz. unat (zd_start_lba (c_desc c ! z)) = z * zsz
        \<and> unat (zd_wp (c_desc c ! z)) = hwp (c_dev c) z
        \<and> z * zsz \<le> hwp (c_dev c) z \<and> hwp (c_dev c) z \<le> (z + 1) * zsz)"

text \<open>The write pointers as the host sees them.\<close>

definition wps :: "'d ctrl \<Rightarrow> nat \<Rightarrow> nat" where
  "wps c z = unat (zd_wp (c_desc c ! z))"

lemma dev_syncD:
  assumes "dev_sync hwp zsz nz c" "z < nz"
  shows "z < length (c_desc c)" "wps c z = hwp (c_dev c) z"
    "unat (zd_start_lba (c_desc c ! z)) = z * zsz" "z * zsz \<le> wps c z" "wps c z \<le> (z + 1) * zsz"
    "wps c z < 2 ^ 32" "(z + 1) * zsz < 2 ^ 32" "unat (zsze_of c) = zsz" "zsz < 2 ^ 32"
proof -
  have a: "(z + 1) * zsz \<le> (nz + 1) * zsz"
    using assms(2) by (intro mult_le_mono1) simp
  have b: "zsz \<le> (nz + 1) * zsz" by simp
  have c: "(nz + 1) * zsz < 2 ^ 32" using assms(1) unfolding dev_sync_def by blast
  show "z < length (c_desc c)" "wps c z = hwp (c_dev c) z"
    "unat (zd_start_lba (c_desc c ! z)) = z * zsz" "z * zsz \<le> wps c z" "wps c z \<le> (z + 1) * zsz"
    "unat (zsze_of c) = zsz"
    using assms by (auto simp: dev_sync_def wps_def)
  then show "wps c z < 2 ^ 32" using a c by linarith
  show "(z + 1) * zsz < 2 ^ 32" using a c by linarith
  show "zsz < 2 ^ 32" using b c by linarith
qed

lemma zns_get_wp_ok:
  "dev_sync hwp zsz nz c \<Longrightarrow> z < nz \<Longrightarrow> zns_get_wp c z = Inr (wps c z)"
  using dev_syncD [of hwp zsz nz c z] by (simp add: zns_get_wp_def wps_def u32_def)

lemma zns_get_start_lba_ok:
  "dev_sync hwp zsz nz c \<Longrightarrow> z < nz \<Longrightarrow> zns_get_start_lba c z = Inr (z * zsz)"
  using dev_syncD [of hwp zsz nz c z] by (simp add: zns_get_start_lba_def u32_def)

lemma zns_get_zone_size_ok:
  "dev_sync hwp zsz nz c \<Longrightarrow> zns_get_zone_size c = zsz"
proof -
  assume a: "dev_sync hwp zsz nz c"
  have b: "zsz \<le> (nz + 1) * zsz" by simp
  then have "zsz < 2 ^ 32" using a unfolding dev_sync_def by linarith
  then show ?thesis using a by (simp add: zns_get_zone_size_def u32_def dev_sync_def)
qed

lemma zns_full_zone_ok:
  assumes "dev_sync hwp zsz nz c" "z < nz"
  shows "zns_full_zone c z = Inr (wps c z = (z + 1) * zsz)"
proof -
  note d = dev_syncD [OF assms]
  have s: "unat (zd_start_lba (c_desc c ! z) + zsze_of c) = (z + 1) * zsz"
  proof -
    have "unat (zd_start_lba (c_desc c ! z)) + unat (zsze_of c) < 2 ^ 64"
      using d(3,7,8) by simp
    then show ?thesis using d(3,8) by (simp add: unat_add_lem [THEN iffD1])
  qed
  have "(zd_start_lba (c_desc c ! z) + zsze_of c \<le> zd_wp (c_desc c ! z)) \<longleftrightarrow>
        (z + 1) * zsz \<le> wps c z"
    unfolding word_le_nat_alt s wps_def ..
  also have "\<dots> \<longleftrightarrow> wps c z = (z + 1) * zsz" using d(5) by linarith
  finally show ?thesis using d(1) by (simp add: zns_full_zone_def)
qed

lemma nblocks_IO: "unat (nblocks_of IO_SIZE) = IO_BLOCKS - 1"
  by (simp add: nblocks_of_def IO_SIZE_def IO_BLOCKS_def BLOCK_SIZE_def)

text \<open>
  A write of one I/O unit to a zone with room for it: the data lands at the write
  pointer, the write pointer moves by \<open>IO_BLOCKS\<close>, host and device stay in step.
\<close>

lemma zns_write_append:
  assumes ok: "nvme_ok ops media hwp zsz nz" and sync: "dev_sync hwp zsz nz c"
    and z: "z < nz" and room: "wps c z + IO_BLOCKS \<le> (z + 1) * zsz"
    and len: "length data = IO_SIZE"
  shows "\<exists>c'. zns_write ops data IO_SIZE z c = Inr (0, c')
     \<and> dev_sync hwp zsz nz c'
     \<and> media (c_dev c') = store_range (media (c_dev c)) (wps c z * BLOCK_SIZE) data
     \<and> wps c' = (wps c)(z := wps c z + IO_BLOCKS) \<and> c_info c' = c_info c"
proof -
  note d = dev_syncD [OF sync z]
  define nb where "nb = nblocks_of IO_SIZE"
  have nb: "unat nb + 1 = IO_BLOCKS" "(unat nb + 1) * BLOCK_SIZE = IO_SIZE"
    using nblocks_IO by (simp_all add: nb_def IO_SIZE_blocks)
  define io where "io = \<lparr>io_opcode = 0x01, io_flags = 0, io_control = 0x0400, io_nblocks = nb,
                io_rsvd = 0, io_metadata = 0, io_slba = zd_wp (c_desc c ! z), io_dsmgmt = 0,
                io_reftag = 0, io_apptag = 0, io_appmask = 0\<rparr>"
  obtain d' where d': "submit_write ops io data (c_dev c) = (0, d')"
      "media d' = store_range (media (c_dev c)) (wps c z * BLOCK_SIZE) data"
      "hwp d' = (hwp (c_dev c))(z := wps c z + IO_BLOCKS)"
  proof -
    have pre: "z < nz \<and> io_opcode io = 0x01 \<and> unat (io_slba io) = hwp (c_dev c) z
        \<and> z * zsz \<le> hwp (c_dev c) z
        \<and> hwp (c_dev c) z + unat (io_nblocks io) + 1 \<le> (z + 1) * zsz
        \<and> length data = (unat (io_nblocks io) + 1) * BLOCK_SIZE"
      using d z room len nb by (simp add: io_def wps_def)
    then obtain d' where h: "submit_write ops io data (c_dev c) = (0, d')"
        "media d' = store_range (media (c_dev c)) (hwp (c_dev c) z * BLOCK_SIZE) data"
        "hwp d' = (hwp (c_dev c))(z := hwp (c_dev c) z + unat (io_nblocks io) + 1)"
      using ok unfolding nvme_ok_def by blast
    have eq: "hwp (c_dev c) z + unat (io_nblocks io) + 1 = wps c z + IO_BLOCKS"
      using d(2) nb(1) by (simp add: io_def)
    show thesis by (rule that [of d']) (use h(1) h(2) h(3) [unfolded eq] d(2) in simp_all)
  qed
  define c' where "c' = c\<lparr>c_dev := d', c_desc := (c_desc c)[z :=
               (c_desc c ! z)\<lparr>zd_wp := zd_wp (c_desc c ! z) + (ucast nb + 1)\<rparr>]\<rparr>"
  have run: "zns_write ops data IO_SIZE z c = Inr (0, c')"
    using d(1) d'(1) by (simp add: zns_write_def zns_write_request_def io_def c'_def nb_def Let_def)
  have wp: "unat (zd_wp (c_desc c ! z) + (ucast nb + 1)) = wps c z + IO_BLOCKS"
  proof -
    have u: "unat (ucast nb + 1 :: 64 word) = IO_BLOCKS"
      by (simp add: nb_def nblocks_of_def IO_SIZE_def BLOCK_SIZE_def IO_BLOCKS_def)
    have "wps c z + IO_BLOCKS < 2 ^ 64" using room d(7) by simp
    then show ?thesis using u by (simp add: unat_add_lem [THEN iffD1] wps_def)
  qed
  have wps': "wps c' = (wps c)(z := wps c z + IO_BLOCKS)"
    using wp d(1) by (auto simp: wps_def c'_def fun_eq_iff nth_list_update)
  have "dev_sync hwp zsz nz c'"
    unfolding dev_sync_def
  proof (intro conjI allI impI)
    fix y assume y: "y < nz"
    note e = dev_syncD [OF sync y]
    have "hwp d' y = (if y = z then wps c z + IO_BLOCKS else wps c y)"
      using d'(3) e(2) by simp
    then show "unat (zd_start_lba (c_desc c' ! y)) = y * zsz"
      "unat (zd_wp (c_desc c' ! y)) = hwp (c_dev c') y"
      "y * zsz \<le> hwp (c_dev c') y" "hwp (c_dev c') y \<le> (y + 1) * zsz"
      using e d(1) wp room by (auto simp: c'_def nth_list_update wps_def)
  qed (use sync in \<open>simp_all add: c'_def dev_sync_def\<close>)
  with run wps' d'(2) show ?thesis by (auto simp: c'_def)
qed

lemma zns_set_zone_frame:
  assumes ok: "nvme_ok ops media hwp zsz nz" and sync: "dev_sync hwp zsz nz c"
    and v: "value = MAN_OPEN \<or> value = MAN_CLOSE"
  shows "\<exists>c'. zns_set_zone ops z value c = Inr c' \<and> dev_sync hwp zsz nz c'
     \<and> media (c_dev c') = media (c_dev c) \<and> wps c' = wps c \<and> c_desc c' = c_desc c"
proof -
  define slba where "slba = of_nat z * zsze_of c"
  define cmd where "cmd = mk_passthru 0x79 1 0 (ucast (slba AND 0xffffffff))
     (ucast (drop_bit 32 slba)) 0 (0 OR ucast value)"
  obtain r d where rd: "ioctl_io_send ops cmd (c_dev c) = (r, d)" by force
  have cmd: "pc_opcode cmd = 0x79 \<and> (pc_cdw13 cmd = 0x01 \<or> pc_cdw13 cmd = 0x03)"
    using v by (auto simp: cmd_def mk_passthru_def man_defs)
  then have d: "media d = media (c_dev c)" "hwp d = hwp (c_dev c)"
    using ok rd unfolding nvme_ok_def by blast+
  have sync': "dev_sync hwp zsz nz c'"
    if "c_dev c' = c_dev c \<or> c_dev c' = d" "c_desc c' = c_desc c" "zi_zonef (c_info c') = zi_zonef (c_info c)"
    for c' :: "'a ctrl"
    using sync that d(2) by (auto simp: dev_sync_def)
  show ?thesis
  proof (cases "value = MAN_OPEN \<and> zi_max_open_res (c_info c) \<le> u32 (zi_opened_zone_num (c_info c) + 1)")
    case True
    then show ?thesis using sync by (simp add: zns_set_zone_def zns_management_send_def Let_def)
  next
    case False
    have ne: "MAN_CLOSE \<noteq> MAN_OPEN" by (simp add: man_defs)
    have "\<exists>c'. zns_set_zone ops z value c = Inr c' \<and> c_dev c' = d \<and> c_desc c' = c_desc c
      \<and> zi_zonef (c_info c') = zi_zonef (c_info c)"
    proof (cases "r = -1")
      case True
      then show ?thesis
        using False rd by (auto simp: zns_set_zone_def zns_management_send_def cmd_def slba_def Let_def)
    next
      case r: False
      show ?thesis
      proof (cases "value = MAN_OPEN")
        case True
        then show ?thesis
          using False r rd by (simp add: zns_set_zone_def zns_management_send_def cmd_def slba_def Let_def)
      next
        case f: False
        then have "value = MAN_CLOSE" using v by simp
        then show ?thesis
          using r rd ne by (simp add: zns_set_zone_def zns_management_send_def cmd_def slba_def Let_def)
      qed
    qed
    with sync' d show ?thesis by (auto simp: wps_def fun_eq_iff)
  qed
qed

text \<open>
  The 64-bit start address of a zone travels in two 32-bit command words; together
  they are that address.
\<close>

lemma split_lba:
  fixes slba :: "64 word"
  shows "unat (ucast (slba AND 0xffffffff) :: 32 word)
          + 2 ^ 32 * unat (ucast (drop_bit 32 slba) :: 32 word) = unat slba"
proof -
  have m: "(0xffffffff :: 64 word) = mask 32" by (simp add: mask_eq_exp_minus_1)
  have a: "unat (ucast (slba AND 0xffffffff) :: 32 word) = unat slba mod 2 ^ 32"
    unfolding m take_bit_eq_mask [symmetric] take_bit_eq_mod [of 32 "unat slba", symmetric]
    by (simp add: unsigned_ucast_eq unsigned_take_bit_eq)
  have "unat slba div 2 ^ 32 < 2 ^ 32"
    using unsigned_less [of slba, where ?'a = nat] by (simp add: less_mult_imp_div_less)
  then have b: "unat (ucast (drop_bit 32 slba) :: 32 word) = unat slba div 2 ^ 32"
    by (simp add: unsigned_ucast_eq unat_drop_bit_eq drop_bit_eq_div [of 32 "unat slba"]
      take_bit_nat_eq_self)
  show ?thesis unfolding a b by (metis mod_mult_div_eq)
qed

text \<open>A read of one I/O unit copies the bytes of the media into the buffer.\<close>

lemma zns_read_media:
  assumes ok: "nvme_ok ops media hwp zsz nz" and sync: "dev_sync hwp zsz nz c"
    and lba: "lba + IO_BLOCKS \<le> nz * zsz" and pos: "pos + IO_SIZE \<le> length buf"
  shows "\<exists>buf'. zns_read ops buf pos IO_SIZE z lba c = Inr (0, buf')
     \<and> mem_write buf pos (range_of (media (c_dev c)) (lba * BLOCK_SIZE) IO_SIZE) = Inr buf'"
proof -
  define io where "io = \<lparr>io_opcode = 0x02, io_flags = 0, io_control = 0, io_nblocks = of_nat 383,
                io_rsvd = 0, io_metadata = 0, io_slba = of_nat lba, io_dsmgmt = 0, io_reftag = 0,
                io_apptag = 0, io_appmask = 0\<rparr>"
  have lt: "lba < 2 ^ 64" using lba sync by (simp add: dev_sync_def)
  have nb: "unat (io_nblocks io) = 383" "unat (io_slba io) = lba"
    using lt by (simp_all add: io_def unat_of_nat take_bit_eq_mod)
  have "submit_read ops io (c_dev c) = (0, range_of (media (c_dev c)) (lba * BLOCK_SIZE) IO_SIZE)"
  proof -
    have "io_opcode io = 0x02 \<and> unat (io_slba io) + unat (io_nblocks io) + 1 \<le> nz * zsz"
      using nb lba by (simp add: io_def IO_BLOCKS_def)
    then have "submit_read ops io (c_dev c) =
          (0, range_of (media (c_dev c)) (unat (io_slba io) * BLOCK_SIZE)
                ((unat (io_nblocks io) + 1) * BLOCK_SIZE))"
      using ok unfolding nvme_ok_def by blast
    then show ?thesis unfolding nb by (simp add: IO_SIZE_def BLOCK_SIZE_def)
  qed
  moreover have "u32_sub (IO_SIZE div BLOCK_SIZE) 1 = 383" "IO_SIZE mod BLOCK_SIZE = 0"
    by (simp_all add: IO_SIZE_def BLOCK_SIZE_def u32_sub_def)
  ultimately have "zns_read_request ops 383 (of_nat lba) c =
      (0, range_of (media (c_dev c)) (lba * BLOCK_SIZE) IO_SIZE)"
    by (simp add: zns_read_request_def io_def)
  then show ?thesis
    using pos \<open>u32_sub (IO_SIZE div BLOCK_SIZE) 1 = 383\<close> \<open>IO_SIZE mod BLOCK_SIZE = 0\<close>
    by (simp add: zns_read_def Let_def mem_write_ok)
qed

text \<open>Copying a report into the descriptor array.\<close>

lemma copy_descriptors_ok:
  assumes "index + n \<le> length dl" "n \<le> length ds"
  shows "copy_descriptors index n ds dl = Inr (take index dl @ take n ds @ drop (index + n) dl)"
proof -
  let ?P = "\<lambda>i l. l = take index dl @ take i ds @ drop (index + i) dl"
  let ?f = "\<lambda>i dl. ebind (vec_at ds i) (\<lambda>zd. vec_set dl (index + i) zd)"
  have "\<exists>s'. efor 0 n ?f dl = Inr s' \<and> ?P (0 + n) s'"
  proof (rule efor_rule [of ?P])
    fix j l assume j: "j < 0 + n" and l: "?P j l"
    have 1: "index + j < length l" using assms j by (simp add: l)
    have "l[index + j := ds ! j] = take index dl @ take (Suc j) ds @ drop (index + Suc j) dl"
    proof -
      have "drop (index + j) dl = dl ! (index + j) # drop (index + Suc j) dl"
        using assms j by (simp add: Cons_nth_drop_Suc)
      then show ?thesis using assms j
        by (simp add: l list_update_append min_def take_Suc_conv_app_nth)
    qed
    then show "\<exists>t'. ?f j l = Inr t' \<and> ?P (Suc j) t'"
      using 1 assms j by simp
  qed simp
  then show ?thesis by (simp add: copy_descriptors_def)
qed

lemma copy_descriptors_overflow:
  assumes "index \<le> length dl" "length dl < index + n" "n \<le> length ds"
  shows "copy_descriptors index n ds dl = Inl (OutOfBounds ''vector'')"
  unfolding copy_descriptors_def
proof (rule efor_failI [where P = "\<lambda>i l. length l = length dl" and m = "length dl - index"
      and r = "n - Suc (length dl - index)"])
  fix j and t :: "zone_descriptor list" assume "j < 0 + (length dl - index)" "length t = length dl"
  then show "\<exists>t'. ebind (vec_at ds j) (vec_set t (index + j)) = Inr t' \<and> length t' = length dl"
    using assms by simp
next
  fix t :: "zone_descriptor list" assume "length t = length dl"
  then show "ebind (vec_at ds (0 + (length dl - index))) (vec_set t (index + (0 + (length dl - index)))) =
        Inl (OutOfBounds ''vector'')"
    using assms by (simp add: vec_set_def)
qed (use assms in auto)


text \<open>
  The initial report loop asks for zone reports until the array is full, each time
  from block 0. With a device that answers with \<open>r\<close> zones per report, the array ends
  up as repetitions of the first report, and a last repetition that does not fit is
  written past the end of the array.
\<close>

definition first_report :: "'d nvme_ops \<Rightarrow> 'd ctrl \<Rightarrow> 64 word \<Rightarrow> zone_descriptor list \<Rightarrow> bool" where
  "first_report ops c num ds \<longleftrightarrow>
     zns_management_recv ops REPORT_NUM REPORT_ALL REPORT_ALL_STATE 0 c = Inr (num, ds)
     \<and> unat num \<le> length ds"

lemma zns_management_recv_cong:
  "c_dev c' = c_dev c \<Longrightarrow> zns_management_recv ops a b e f c' = zns_management_recv ops a b e f c"
  by (simp add: zns_management_recv_def)

lemma report_loop:
  fixes c :: "'d ctrl"
  defines "m \<equiv> zi_max_zone_cnt (c_info c)"
  assumes rep: "first_report ops c num ds" and r: "r = unat num" "0 < r"
    and len: "length (c_desc c) = m" and fits: "m + r < 2 ^ 32"
    and k: "k * r \<le> m" "m - k * r \<le> fuel"
    and ck: "ck = c\<lparr>c_desc := concat (replicate k (take r ds)) @ drop (k * r) (c_desc c)\<rparr>"
  shows "ewhile fuel w (\<lambda>(index, real, c). index < m)
           (\<lambda>(index, real, c).
              ebind (report_round ops REPORT_NUM REPORT_ALL REPORT_ALL_STATE 0 index c)
                (\<lambda>(num, c'). Inr (u32 (index + num), u32 (real + num), c')))
           (k * r, k * r, ck) =
         (if r dvd m then Inr (m, m, c\<lparr>c_desc := concat (replicate (m div r) (take r ds))\<rparr>)
          else Inl (OutOfBounds ''vector''))"
  using k ck
proof (induction fuel arbitrary: k ck)
  case 0
  then have "m = k * r" by simp
  then show ?case using 0 r len by simp
next
  case (Suc fuel)
  have ltr: "length (take r ds) = r" using rep r by (simp add: first_report_def)
  have lck: "length (c_desc ck) = m"
    using Suc.prems len ltr by (simp add: length_concat sum_list_replicate)
  have rr: "report_round ops REPORT_NUM REPORT_ALL REPORT_ALL_STATE 0 (k * r) ck =
      ebind (copy_descriptors (k * r) r ds (c_desc ck)) (\<lambda>dl. Inr (r, ck\<lparr>c_desc := dl\<rparr>))"
    using rep r Suc.prems(3) zns_management_recv_cong [of ck c]
    by (simp add: report_round_def first_report_def)
  consider (full) "k * r = m" | (fit) "k * r < m" "Suc k * r \<le> m" | (over) "k * r < m" "m < Suc k * r"
    using Suc.prems(1) by linarith
  then show ?case
  proof cases
    case full
    then have "m div r = k" "r dvd m" using r(2) by auto
    then show ?thesis using full Suc.prems(3) len by simp
  next
    case fit
    define ck' where "ck' = c\<lparr>c_desc := concat (replicate (Suc k) (take r ds)) @ drop (Suc k * r) (c_desc c)\<rparr>"
    have lk: "length (concat (replicate k (take r ds))) = k * r"
      using ltr by (simp add: length_concat sum_list_replicate)
    have app: "concat (replicate (Suc k) (take r ds)) = concat (replicate k (take r ds)) @ take r ds"
      by (induction k) simp_all
    have "copy_descriptors (k * r) r ds (c_desc ck) =
        Inr (take (k * r) (c_desc ck) @ take r ds @ drop (k * r + r) (c_desc ck))"
      using fit lck rep r by (intro copy_descriptors_ok) (simp_all add: first_report_def add.commute)
    also have "take (k * r) (c_desc ck) @ take r ds @ drop (k * r + r) (c_desc ck) = c_desc ck'"
      using lk app Suc.prems(3) by (simp add: ck'_def add.commute)
    finally have "report_round ops REPORT_NUM REPORT_ALL REPORT_ALL_STATE 0 (k * r) ck = Inr (r, ck')"
      using rr Suc.prems(3) by (simp add: ck'_def)
    moreover have "u32 (k * r + r) = Suc k * r" using fit fits by (simp add: u32_def add.commute)
    moreover note Suc.IH [of "Suc k" ck', OF fit(2) _ ck'_def]
    ultimately show ?thesis using fit Suc.prems(2) r(2) by simp
  next
    case over
    have nd: "\<not> r dvd m"
    proof
      assume "r dvd m"
      then obtain q where q: "m = q * r" by (metis dvd_def mult.commute)
      then have "k < q" "q < Suc k" using over r(2) by (auto simp: mult_less_cancel2 simp del: mult_Suc)
      then show False by simp
    qed
    have "copy_descriptors (k * r) r ds (c_desc ck) = Inl (OutOfBounds ''vector'')"
      using over lck rep r by (intro copy_descriptors_overflow) (simp_all add: first_report_def)
    then show ?thesis using rr over nd by simp
  qed
qed

lemma zns_get_zone_desc_reports:
  assumes rep: "first_report ops c num ds" "0 < unat num"
    and len: "length (c_desc c) = zi_max_zone_cnt (c_info c)"
    and fits: "zi_max_zone_cnt (c_info c) + unat num < 2 ^ 32"
  shows "zns_get_zone_desc ops partial option from_zone cnt True c =
     (if unat num dvd zi_max_zone_cnt (c_info c)
      then Inr (c\<lparr>c_desc := concat (replicate (zi_max_zone_cnt (c_info c) div unat num) (take (unat num) ds))\<rparr>)
      else Inl (OutOfBounds ''vector''))"
  using report_loop [OF rep(1) refl rep(2) len fits, of 0 "zi_max_zone_cnt (c_info c)" c "''zns_get_zone_desc''"]
  by (simp add: zns_get_zone_desc_def)

text \<open>
  Opening a zone keeps the number of open zones below the device's limit; an open
  that would reach it is refused and changes nothing.
\<close>

lemma zns_management_send_open:
  assumes "zns_management_send ops z MAN_OPEN c = Inr (r, c')"
    and "zi_opened_zone_num (c_info c) < zi_max_open_res (c_info c)" "zi_max_open_res (c_info c) < 2 ^ 32"
  shows "zi_opened_zone_num (c_info c') < zi_max_open_res (c_info c')
     \<and> zi_max_open_res (c_info c') = zi_max_open_res (c_info c) \<and> c_desc c' = c_desc c
     \<and> (r = 0 \<longrightarrow> zi_opened_zone_num (c_info c') = zi_opened_zone_num (c_info c) + 1)
     \<and> (r \<noteq> 0 \<longrightarrow> zi_opened_zone_num (c_info c') = zi_opened_zone_num (c_info c))"
  using assms
  by (auto simp: zns_management_send_def Let_def u32_id split: if_splits prod.splits)

text \<open>A reset that succeeds moves the write pointer of its zone back to the zone's start.\<close>

lemma zns_reset_zone:
  assumes ok: "nvme_ok ops media hwp zsz nz" and sync: "dev_sync hwp zsz nz c" and z: "z < nz"
    and run: "zns_management_send ops z MAN_RESET c = Inr (0, c')"
  shows "dev_sync hwp zsz nz c' \<and> wps c' = (wps c)(z := z * zsz)
     \<and> (\<forall>a. a < z * zsz * BLOCK_SIZE \<or> (z + 1) * zsz * BLOCK_SIZE \<le> a \<longrightarrow>
            media (c_dev c') a = media (c_dev c) a)"
proof -
  note d = dev_syncD [OF sync z]
  define slba where "slba = of_nat z * zsze_of c"
  define cmd where "cmd = mk_passthru 0x79 1 0 (ucast (slba AND 0xffffffff))
     (ucast (drop_bit 32 slba)) 0 (0 OR ucast MAN_RESET)"
  obtain r d where rd: "ioctl_io_send ops cmd (c_dev c) = (r, d)" by force
  have us: "unat slba = z * zsz"
  proof -
    have "z * zsz < 2 ^ 64" using d(7) by simp
    moreover have "z < 2 ^ 64"
    proof -
      have "z * 1 \<le> z * zsz" using sync by (intro mult_le_mono2) (simp add: dev_sync_def)
      then show ?thesis using \<open>z * zsz < 2 ^ 64\<close> by linarith
    qed
    ultimately show ?thesis
      using d(8) by (simp add: slba_def unat_word_ariths unat_of_nat take_bit_eq_mod)
  qed
  have c': "r \<noteq> -1 \<and> c' = c\<lparr>c_dev := d, c_desc := (c_desc c)[z :=
     (c_desc c ! z)\<lparr>zd_wp := zd_start_lba (c_desc c ! z)\<rparr>]\<rparr>"
  proof -
    have "MAN_RESET \<noteq> MAN_OPEN" "MAN_RESET \<noteq> MAN_CLOSE" by (simp_all add: man_defs)
    then show ?thesis using run rd d(1)
      by (auto simp: zns_management_send_def cmd_def slba_def Let_def split: if_splits)
  qed
  have pre: "z < nz \<and> pc_opcode cmd = 0x79 \<and> pc_cdw13 cmd = 0x04
        \<and> unat (pc_cdw10 cmd) + 2 ^ 32 * unat (pc_cdw11 cmd) = z * zsz
        \<and> ioctl_io_send ops cmd (c_dev c) = (r, d) \<and> r \<noteq> -1"
    using z rd c' us split_lba [of slba] by (simp add: cmd_def mk_passthru_def man_defs)
  then have dev: "hwp d = (hwp (c_dev c))(z := z * zsz)"
     "\<forall>a. a < z * zsz * BLOCK_SIZE \<or> (z + 1) * zsz * BLOCK_SIZE \<le> a \<longrightarrow> media d a = media (c_dev c) a"
    using ok unfolding nvme_ok_def by blast+
  have w: "wps c' = (wps c)(z := z * zsz)"
    using c' d(1,3) by (auto simp: wps_def fun_eq_iff nth_list_update)
  have "dev_sync hwp zsz nz c'"
    unfolding dev_sync_def
  proof (intro conjI allI impI)
    fix y assume y: "y < nz"
    note e = dev_syncD [OF sync y]
    have hy: "hwp d y = (if y = z then z * zsz else wps c y)" using dev(1) e(2) by simp
    show "unat (zd_start_lba (c_desc c' ! y)) = y * zsz"
      "unat (zd_wp (c_desc c' ! y)) = hwp (c_dev c') y"
      "y * zsz \<le> hwp (c_dev c') y" "hwp (c_dev c') y \<le> (y + 1) * zsz"
      using e d(1,3) hy c' by (auto simp: nth_list_update wps_def)
  qed (use sync c' in \<open>simp_all add: dev_sync_def\<close>)
  with w dev(2) c' show ?thesis by simp
qed

end
