(* ===== verification/Zns_Emulator.thy ===== *)
theory Zns_Emulator
  imports Controller
begin

text \<open>
  A concrete zoned device for the parameter \<open>nvme_ops\<close>: an in-memory namespace of
  \<open>nz\<close> zones of \<open>zsz\<close> blocks whose state is the content of the media and the write
  pointer of each zone. It satisfies \<open>nvme_ok\<close>, so the hypotheses on the device that
  the properties of the development carry can hold; the examples run on it.
\<close>

type_synonym emu = "(nat \<Rightarrow> byte) \<times> (nat \<Rightarrow> nat)"

definition emu_write :: "nat \<Rightarrow> nat \<Rightarrow> nvme_user_io \<Rightarrow> byte list \<Rightarrow> emu \<Rightarrow> int \<times> emu" where
  "emu_write zsz nz io data d =
     (let a = unat (io_slba io); z = a div zsz; n = unat (io_nblocks io) + 1
      in if z < nz \<and> a = snd d z \<and> a + n \<le> (z + 1) * zsz
         then (0, (store_range (fst d) (a * BLOCK_SIZE) data, (snd d)(z := a + n)))
         else (1, d))"

definition emu_read :: "nat \<Rightarrow> nat \<Rightarrow> nvme_user_io \<Rightarrow> emu \<Rightarrow> int \<times> byte list" where
  "emu_read zsz nz io d =
     (let a = unat (io_slba io); n = unat (io_nblocks io) + 1
      in if a + n \<le> nz * zsz then (0, range_of (fst d) (a * BLOCK_SIZE) (n * BLOCK_SIZE))
         else (-1, []))"

definition emu_send :: "nat \<Rightarrow> nvme_passthru_cmd \<Rightarrow> emu \<Rightarrow> int \<times> emu" where
  "emu_send zsz cmd d =
     (if pc_cdw13 cmd = 0x04
      then let a = unat (pc_cdw10 cmd) + 2 ^ 32 * unat (pc_cdw11 cmd)
           in (0, (fst d, (snd d)(a div zsz := a)))
      else (0, d))"

definition emu_desc :: "nat \<Rightarrow> emu \<Rightarrow> nat \<Rightarrow> zone_descriptor" where
  "emu_desc zsz d z = zd_zero\<lparr>zd_type := 2, zd_capacity := of_nat zsz,
     zd_start_lba := of_nat (z * zsz), zd_wp := of_nat (snd d z)\<rparr>"

text \<open>A report lists the zones from the start address on, as many as its buffer holds.\<close>

definition emu_recv ::
  "nat \<Rightarrow> nat \<Rightarrow> nvme_passthru_cmd \<Rightarrow> emu \<Rightarrow> int \<times> 64 word \<times> zone_descriptor list" where
  "emu_recv zsz nz cmd d =
     (let z0 = unat (pc_cdw10 cmd) div zsz; n = min (unat (pc_data_len cmd) div 64 - 1) (nz - z0)
      in (0, of_nat n, map (emu_desc zsz d) [z0..<z0 + n]))"

definition emu_ops :: "nat \<Rightarrow> nat \<Rightarrow> emu nvme_ops" where
  "emu_ops zsz nz =
     \<lparr>dev_open = (\<lambda>_ _. 3),
      ioctl_identify_ns = (\<lambda>_ _. (0,
        \<lparr>nsze = of_nat (nz * zsz), ncap = of_nat (nz * zsz), nuse = 0, noiob = 0, npwg = 0,
         npwa = 0, npdg = 0, npda = 0, nows = 0, zfi = 0, mar = 64, mor = 64,
         zonef = [\<lparr>zf_zsze = of_nat zsz, zf_lbafs = 0, zf_zdes = 0\<rparr>]\<rparr>)),
      ioctl_identify_ctrl = (\<lambda>_ _. (0, 0)),
      ioctl_admin = (\<lambda>_ d. (0, (fst d, \<lambda>z. z * zsz))),
      ioctl_io_send = emu_send zsz,
      ioctl_io_recv = emu_recv zsz nz,
      submit_write = emu_write zsz nz,
      submit_read = emu_read zsz nz\<rparr>"

text \<open>An empty device and the controller state of a host that has just identified it.\<close>

definition emu_init :: "nat \<Rightarrow> emu" where
  "emu_init zsz = (\<lambda>_. 0, \<lambda>z. z * zsz)"

definition emu_info :: "nat \<Rightarrow> nat \<Rightarrow> zns_info" where
  "emu_info zsz nz =
     \<lparr>zi_fd = 3, zi_ns_size = of_nat (nz * zsz), zi_ns_cap = of_nat (nz * zsz), zi_ns_use = 0,
      zi_zfi = 0, zi_ns_op_io_bound = 0, zi_ns_pref_wr_gran = 0, zi_ns_pref_wr_align = 0,
      zi_ns_pref_dealloc_gran = 0, zi_ns_pref_dealloc_align = 0, zi_ns_opot_wr_size = 0,
      zi_max_active_res = 64, zi_max_open_res = 64, zi_opened_zone_num = 0, zi_max_append_size = 0,
      zi_zonef = \<lparr>zf_zsze = of_nat zsz, zf_lbafs = 0, zf_zdes = 0\<rparr>, zi_max_zone_cnt = nz\<rparr>"

definition emu_ctrl :: "nat \<Rightarrow> nat \<Rightarrow> emu ctrl" where
  "emu_ctrl zsz nz =
     \<lparr>c_dev = emu_init zsz, c_info = emu_info zsz nz,
      c_desc = map (emu_desc zsz (emu_init zsz)) [0..<nz]\<rparr>"

lemma emu_ok:
  assumes "0 < zsz"
  shows "nvme_ok (emu_ops zsz nz) fst snd zsz nz"
  unfolding nvme_ok_def
proof (intro conjI allI impI)
  fix d :: emu and io :: nvme_user_io and data :: "byte list" and z
  assume a: "z < nz \<and> io_opcode io = 0x01 \<and> unat (io_slba io) = snd d z
        \<and> z * zsz \<le> snd d z \<and> snd d z + unat (io_nblocks io) + 1 \<le> (z + 1) * zsz
        \<and> length data = (unat (io_nblocks io) + 1) * BLOCK_SIZE"
  have "snd d z div zsz = z"
  proof (rule div_nat_eqI)
    show "zsz * z \<le> snd d z" using a by (simp add: mult.commute)
    show "snd d z < zsz * Suc z" using a by (simp add: mult.commute)
  qed
  then show "\<exists>d'. submit_write (emu_ops zsz nz) io data d = (0, d')
           \<and> fst d' = store_range (fst d) (snd d z * BLOCK_SIZE) data
           \<and> snd d' = (snd d)(z := snd d z + unat (io_nblocks io) + 1)"
    using a by (simp add: emu_ops_def emu_write_def Let_def)
next
  fix d :: emu and io :: nvme_user_io
  assume "io_opcode io = 0x02 \<and> unat (io_slba io) + unat (io_nblocks io) + 1 \<le> nz * zsz"
  then show "submit_read (emu_ops zsz nz) io d =
          (0, range_of (fst d) (unat (io_slba io) * BLOCK_SIZE)
                ((unat (io_nblocks io) + 1) * BLOCK_SIZE))"
    by (simp add: emu_ops_def emu_read_def Let_def)
next
  fix d d' :: emu and r and cmd :: nvme_passthru_cmd
  assume "pc_opcode cmd = 0x79 \<and> (pc_cdw13 cmd = 0x01 \<or> pc_cdw13 cmd = 0x03)
        \<and> ioctl_io_send (emu_ops zsz nz) cmd d = (r, d')"
  then show "fst d' = fst d" "snd d' = snd d"
    by (auto simp: emu_ops_def emu_send_def)
next
  fix d d' :: emu and r and cmd :: nvme_passthru_cmd and z
  assume a: "z < nz \<and> pc_opcode cmd = 0x79 \<and> pc_cdw13 cmd = 0x04
        \<and> unat (pc_cdw10 cmd) + 2 ^ 32 * unat (pc_cdw11 cmd) = z * zsz
        \<and> ioctl_io_send (emu_ops zsz nz) cmd d = (r, d') \<and> r \<noteq> -1"
  then show "snd d' = (snd d)(z := z * zsz)"
    using assms by (auto simp: emu_ops_def emu_send_def Let_def)
  fix b
  from a show "fst d' b = fst d b" by (auto simp: emu_ops_def emu_send_def Let_def)
qed

lemma emu_sync:
  assumes "0 < zsz" "(nz + 1) * zsz < 2 ^ 32"
  shows "dev_sync snd zsz nz (emu_ctrl zsz nz)"
proof -
  have "zsz \<le> (nz + 1) * zsz" by simp
  then have z: "zsz < 2 ^ 64" using assms(2) by simp
  have "z * zsz < 2 ^ 64" if "z < nz" for z
  proof -
    have "z * zsz \<le> (nz + 1) * zsz" using that by (intro mult_le_mono1) simp
    then show ?thesis using assms(2) by simp
  qed
  then show ?thesis
    using assms z
    by (auto simp: dev_sync_def emu_ctrl_def emu_desc_def emu_init_def emu_info_def
        unat_of_nat take_bit_nat_eq_self simp del: of_nat_mult)
qed

end
