(* ===== verification/Zone_Write.thy ===== *)
theory Zone_Write
  imports Zns_Emulator "HOL-Library.Multiset"
begin

text \<open>
  The zone objects of \<^verbatim>\<open>src/util/zoad/Zone.h\<close> and the write path of
  \<^verbatim>\<open>src/util/zoad/Zone.cpp\<close>: intervals, zones, the request a thread is given, the
  thread that writes its share of a buffer round-robin over its zones, and the split
  of a write over the zones and threads of a partition. Intervals are reached through
  pointers (indices into a heap of intervals), since a zone and a segment share them.

  The threads of one round write disjoint zones and are joined before the next round;
  they run here one after the other, in the order they are started.
\<close>

section \<open>Intervals and zones\<close>

record Interval =
  iv_zone_number :: nat
  iv_segment_id :: nat
  iv_start :: nat
  iv_end :: nat
  iv_valid :: bool

definition new_Interval :: "nat \<Rightarrow> nat \<Rightarrow> nat \<Rightarrow> nat \<Rightarrow> Interval" where
  "new_Interval zone_number segment_id start stop =
     \<lparr>iv_zone_number = zone_number, iv_segment_id = segment_id, iv_start = start,
      iv_end = stop, iv_valid = True\<rparr>"

definition Interval_get_size :: "Interval \<Rightarrow> nat" where
  "Interval_get_size iv = (if iv_start iv = iv_end iv then 0 else u32_sub (iv_end iv) (iv_start iv))"

definition Interval_invalid :: "Interval \<Rightarrow> Interval" where
  "Interval_invalid iv = iv\<lparr>iv_valid := False\<rparr>"

record Zone =
  zn_number :: nat
  zn_interval_tree :: "nat list"

definition new_Zone :: "nat \<Rightarrow> Zone" where
  "new_Zone zone_number = \<lparr>zn_number = zone_number, zn_interval_tree = []\<rparr>"

definition Zone_full :: "'d ctrl \<Rightarrow> Zone \<Rightarrow> bool res" where
  "Zone_full c zn = zns_full_zone c (zn_number zn)"

definition Zone_get_wp :: "'d ctrl \<Rightarrow> Zone \<Rightarrow> nat res" where
  "Zone_get_wp c zn = zns_get_wp c (zn_number zn)"

definition Zone_get_free_size :: "'d ctrl \<Rightarrow> Zone \<Rightarrow> nat res" where
  "Zone_get_free_size c zn =
     ebind (zns_get_start_lba c (zn_number zn)) (\<lambda>start_lba.
     ebind (zns_get_wp c (zn_number zn)) (\<lambda>wp.
       Inr (u32_sub (zns_get_zone_size c) (u32_sub wp start_lba))))"

definition Zone_insert_interval :: "Zone \<Rightarrow> nat \<Rightarrow> Zone" where
  "Zone_insert_interval zn p = zn\<lparr>zn_interval_tree := zn_interval_tree zn @ [p]\<rparr>"

definition THREAD_PER_IZG :: nat where "THREAD_PER_IZG = 8"

section \<open>The request of a thread\<close>

text \<open>
  Iterators and buffer pointers are positions; \<open>rq_sorted\<close> is what can be read from
  \<^verbatim>\<open>sorted_write_size_it\<close> onwards, the memory behind the vector included.
\<close>

record zone_request =
  rq_buf :: nat
  rq_interval_it :: nat
  rq_read_offset :: nat
  rq_write_size_it :: nat
  rq_sorted :: "nat list"
  rq_write_zone_cnt :: nat
  rq_total_write_size :: nat
  rq_izg_cnt :: nat
  rq_actual_io_size :: nat

definition set_request_write ::
  "nat \<Rightarrow> nat \<Rightarrow> nat \<Rightarrow> nat \<Rightarrow> nat \<Rightarrow> nat list \<Rightarrow> nat \<Rightarrow> zone_request" where
  "set_request_write buf interval_it write_size_it write_zone_cnt total_write_size sorted_it izg_cnt =
     \<lparr>rq_buf = buf, rq_interval_it = interval_it, rq_read_offset = 0,
      rq_write_size_it = write_size_it, rq_sorted = sorted_it, rq_write_zone_cnt = write_zone_cnt,
      rq_total_write_size = total_write_size, rq_izg_cnt = izg_cnt, rq_actual_io_size = 0\<rparr>"

section \<open>The write thread\<close>

text \<open>
  The controller, the heap of intervals and the vector of write sizes are shared; the
  buffer position, the written bytes, the round counter, the number of zones still
  being written and the rest of the sorted sizes are the thread's own.
\<close>

record 'd wstate =
  w_c :: "'d ctrl"
  w_iv :: "Interval list"
  w_ws :: "nat list"
  w_pos :: nat
  w_written :: nat
  w_cnt :: nat
  w_izg :: nat
  w_min :: "nat list"

text \<open>The zone behind the \<open>k\<close>-th interval of an interval list.\<close>

definition zone_at :: "Interval list \<Rightarrow> nat list \<Rightarrow> nat \<Rightarrow> nat res" where
  "zone_at iv il k = ebind (vec_at il k) (\<lambda>p. ebind (vec_at iv p) (\<lambda>i. Inr (iv_zone_number i)))"

text \<open>The loops that open and close the zones of a request.\<close>

definition set_zones ::
  "'d nvme_ops \<Rightarrow> 8 word \<Rightarrow> nat list \<Rightarrow> nat \<Rightarrow> nat \<Rightarrow> 'd wstate \<Rightarrow> 'd wstate res" where
  "set_zones ops value il it n s =
     efor 0 n (\<lambda>i s.
       ebind (zone_at (w_iv s) il (it + i)) (\<lambda>z.
       ebind (zns_set_zone ops z value (w_c s)) (\<lambda>c. Inr (s\<lparr>w_c := c\<rparr>)))) s"

text \<open>The body of the inner \<^verbatim>\<open>for\<close>: one I/O unit to the \<open>i\<close>-th zone of the request.\<close>

definition write_one ::
  "'d nvme_ops \<Rightarrow> byte list \<Rightarrow> nat list \<Rightarrow> nat \<Rightarrow> nat \<Rightarrow> nat \<Rightarrow> 'd wstate \<Rightarrow> 'd wstate res" where
  "write_one ops buf il it wsi i s =
     ebind (vec_at (w_ws s) (wsi + i)) (\<lambda>n.
       if 0 < n then
         ebind (vec_at il (it + i)) (\<lambda>p.
         ebind (vec_at (w_iv s) p) (\<lambda>iv.
         ebind (mem_read buf (w_pos s) IO_SIZE) (\<lambda>data.
         ebind (zns_write ops data IO_SIZE (iv_zone_number iv) (w_c s)) (\<lambda>(_, c).
           let s1 = s\<lparr>w_c := c, w_ws := (w_ws s)[wsi + i := n - 1], w_pos := w_pos s + IO_SIZE,
                      w_written := u32 (w_written s + IO_SIZE)\<rparr>
           in if n - 1 = 0 then
                ebind (zns_get_wp c (iv_zone_number iv)) (\<lambda>wp.
                  Inr (s1\<lparr>w_iv := (w_iv s1)[p := iv\<lparr>iv_end := wp\<rparr>]\<rparr>))
              else Inr s1))))
       else Inr s)"

text \<open>\<^verbatim>\<open>while(cnt == *write_min_size_it)\<close>: zones that have finished leave the stride.\<close>

fun skip_min :: "nat \<Rightarrow> nat list \<Rightarrow> nat \<Rightarrow> (nat \<times> nat list) res" where
  "skip_min cnt [] izg_cnt = Inl (OutOfBounds ''sorted_write_size_vec'')"
| "skip_min cnt (x # xs) izg_cnt =
     (if cnt = x then skip_min cnt xs (u32_sub izg_cnt 1) else Inr (izg_cnt, x # xs))"

text \<open>The rest of a round: count it and move to the first unit of the next one.\<close>

definition round_end :: "zone_request \<Rightarrow> 'd wstate \<Rightarrow> 'd wstate res" where
  "round_end req s =
     (let cnt = u32 (w_cnt s + 1) in
      ebind (skip_min cnt (w_min s) (w_izg s)) (\<lambda>(izg, rest).
        Inr (s\<lparr>w_cnt := cnt, w_izg := izg, w_min := rest,
               w_pos := w_pos s + u32 (IO_SIZE * u32_sub izg (rq_write_zone_cnt req))\<rparr>)))"

definition write_round ::
  "'d nvme_ops \<Rightarrow> byte list \<Rightarrow> nat list \<Rightarrow> zone_request \<Rightarrow> 'd wstate \<Rightarrow> 'd wstate res" where
  "write_round ops buf il req s =
     ebind (efor 0 (rq_write_zone_cnt req)
              (write_one ops buf il (rq_interval_it req) (rq_write_size_it req)) s)
       (round_end req)"

text \<open>
  A round writes to every zone that still has something to write, so a run that ends
  does so within \<open>rq_total_write_size\<close> rounds.
\<close>

definition thread_write ::
  "'d nvme_ops \<Rightarrow> byte list \<Rightarrow> nat list \<Rightarrow> zone_request
   \<Rightarrow> 'd ctrl \<times> Interval list \<times> nat list \<Rightarrow> ('d ctrl \<times> Interval list \<times> nat list) res" where
  "thread_write ops buf il req = (\<lambda>(c, iv, ws).
     let total = u32 (rq_total_write_size req * IO_SIZE) in
     if total = 0 then Inr (c, iv, ws)
     else
       ebind (set_zones ops MAN_OPEN il (rq_interval_it req) (rq_write_zone_cnt req)
                \<lparr>w_c = c, w_iv = iv, w_ws = ws, w_pos = rq_buf req, w_written = 0, w_cnt = 0,
                 w_izg = rq_izg_cnt req, w_min = rq_sorted req\<rparr>) (\<lambda>s1.
       ebind (ewhile (rq_total_write_size req) ''thread_write'' (\<lambda>s. w_written s < total)
                (write_round ops buf il req) s1) (\<lambda>s2.
       ebind (set_zones ops MAN_CLOSE il (rq_interval_it req) (rq_write_zone_cnt req) s2) (\<lambda>s3.
         Inr (w_c s3, w_iv s3, w_ws s3)))))"

section \<open>Splitting a write over zones and threads\<close>

text \<open>The number of groups of \<open>izg_cnt\<close> zones and of threads per group.\<close>

definition ceil_div :: "nat \<Rightarrow> nat \<Rightarrow> nat" where
  "ceil_div a b = (if a mod b = 0 then a div b else a div b + 1)"

text \<open>
  The first loop of \<^verbatim>\<open>izg_write\<close>: block counts become I/O counts. All groups but the
  last take what their zones have free; what remains is dealt evenly over the last
  group, the first zones taking one more.
\<close>

definition split_group ::
  "nat \<Rightarrow> nat \<Rightarrow> nat \<Rightarrow> nat list \<times> nat \<times> nat \<Rightarrow> (nat list \<times> nat \<times> nat) res" where
  "split_group izg_cnt groups i = (\<lambda>(ws, it, blocks).
     if i < groups - 1 then
       efor 0 izg_cnt (\<lambda>j (ws, it, blocks).
         ebind (vec_at ws it) (\<lambda>x.
           Inr (ws[it := x div IO_BLOCKS], it + 1, u32_sub blocks x))) (ws, it, blocks)
     else
       let stripe = u32 (izg_cnt * IO_BLOCKS) in
       if stripe = 0 then Inl (DivByZero ''izg_cnt * IO_BLOCKS'')
       else
         ebind (efor 0 izg_cnt (\<lambda>j (ws, it).
                  ebind (vec_set ws it (blocks div stripe)) (\<lambda>ws'. Inr (ws', it + 1))) (ws, it))
           (\<lambda>(ws1, it1).
         ebind (efor 0 (blocks mod stripe div IO_BLOCKS) (\<lambda>j (ws, it).
                  ebind (vec_at ws it) (\<lambda>x. Inr (ws[it := u32 (x + 1)], it + 1)))
                  (ws1, it1 - izg_cnt))
           (\<lambda>(ws2, it2). Inr (ws2, it2, blocks))))"

definition split_sizes :: "nat \<Rightarrow> nat \<Rightarrow> nat list \<Rightarrow> nat \<Rightarrow> nat list res" where
  "split_sizes izg_cnt groups ws blocks =
     ebind (efor 0 groups (split_group izg_cnt groups) (ws, 0, blocks)) (\<lambda>(ws', _). Inr ws')"

text \<open>\<^verbatim>\<open>std::partial_sort_copy\<close>: the smallest elements, sorted, over the front of the target.\<close>

definition partial_sort_copy :: "nat list \<Rightarrow> nat list \<Rightarrow> nat list" where
  "partial_sort_copy xs dst = take (length dst) (sort xs) @ drop (length xs) dst"

text \<open>The number of zones thread \<open>j\<close> of a group is given.\<close>

definition thread_zone_cnt :: "nat \<Rightarrow> nat \<Rightarrow> nat \<Rightarrow> nat" where
  "thread_zone_cnt izg_cnt interval_list_size j =
     (let cnt = (if izg_cnt < interval_list_size then izg_cnt else interval_list_size)
      in if THREAD_PER_IZG < cnt then
           if izg_cnt < THREAD_PER_IZG * (j + 1) then u32_sub izg_cnt THREAD_PER_IZG
           else THREAD_PER_IZG
         else cnt)"

record 'd gstate =
  g_c :: "'d ctrl"
  g_iv :: "Interval list"
  g_ws :: "nat list"
  g_it :: nat
  g_wsi :: nat
  g_left :: nat
  g_buf :: nat
  g_tmp :: nat
  g_total :: nat
  g_sorted :: "nat list"
  g_past :: "nat list"

text \<open>The body of the loop over the threads of a group: fill in the request, run the thread.\<close>

definition start_thread ::
  "'d nvme_ops \<Rightarrow> byte list \<Rightarrow> nat list \<Rightarrow> nat \<Rightarrow> nat \<Rightarrow> 'd gstate \<Rightarrow> 'd gstate res" where
  "start_thread ops buf il izg_cnt j g =
     (let w = thread_zone_cnt izg_cnt (g_left g) j in
      ebind (mem_read (g_ws g) (g_wsi g) w) (\<lambda>sizes.
      let total = u32 (sum_list sizes);
          req = set_request_write (g_tmp g) (g_it g) (g_wsi g) w total
                  (g_sorted g @ g_past g) (length (g_sorted g)) in
      ebind (thread_write ops buf il req (g_c g, g_iv g, g_ws g)) (\<lambda>(c, iv, ws).
        Inr (g\<lparr>g_c := c, g_iv := iv, g_ws := ws, g_total := u32 (g_total g + total),
               g_tmp := g_tmp g + u32 (w * IO_SIZE), g_it := g_it g + w, g_wsi := g_wsi g + w,
               g_left := u32_sub (g_left g) w\<rparr>))))"

text \<open>
  One group: the sizes are sorted into \<^verbatim>\<open>sorted_write_size_vec\<close>, the threads run, the
  vector is cleared. Its elements stay in memory behind the now empty vector.
\<close>

definition write_group ::
  "'d nvme_ops \<Rightarrow> byte list \<Rightarrow> nat list \<Rightarrow> nat \<Rightarrow> nat \<Rightarrow> nat \<Rightarrow> 'd gstate \<Rightarrow> 'd gstate res" where
  "write_group ops buf il izg_cnt threads i g =
     ebind (mem_read (g_ws g) (g_wsi g) (if izg_cnt < g_left g then g_left g else izg_cnt)) (\<lambda>sizes.
     ebind (efor 0 threads (start_thread ops buf il izg_cnt)
              (g\<lparr>g_tmp := g_buf g, g_total := 0, g_sorted := partial_sort_copy sizes (g_sorted g)\<rparr>))
       (\<lambda>g1. Inr (g1\<lparr>g_past := g_sorted g1 @ g_past g1, g_sorted := [],
                      g_buf := g_buf g1 + u32 (g_total g1 * IO_SIZE)\<rparr>)))"

text \<open>
  \<open>past\<close> is what lies in memory behind \<^verbatim>\<open>sorted_write_size_vec\<close>, as far as it can be
  read.
\<close>

definition izg_write ::
  "'d nvme_ops \<Rightarrow> nat list \<Rightarrow> byte list \<Rightarrow> nat \<Rightarrow> nat \<Rightarrow> nat list \<Rightarrow> nat list \<Rightarrow> nat
   \<Rightarrow> 'd ctrl \<times> Interval list \<Rightarrow> (int \<times> 'd ctrl \<times> Interval list) res" where
  "izg_write ops past buf izg_cnt total_target_zone interval_list write_size_vector write_blocks =
     (\<lambda>(c, iv).
        if izg_cnt = 0 then Inl (DivByZero ''total_target_zone / izg_cnt'')
        else
          let threads = ceil_div izg_cnt THREAD_PER_IZG;
              groups = ceil_div total_target_zone izg_cnt in
          ebind (split_sizes izg_cnt groups write_size_vector write_blocks) (\<lambda>ws.
          ebind (efor 0 groups (write_group ops buf interval_list izg_cnt threads)
                   \<lparr>g_c = c, g_iv = iv, g_ws = ws, g_it = 0, g_wsi = 0,
                    g_left = length interval_list, g_buf = 0, g_tmp = 0, g_total = 0,
                    g_sorted = replicate (length write_size_vector) 0, g_past = past\<rparr>) (\<lambda>g.
            Inr (0, g_c g, g_iv g))))"

section \<open>A striped write: setting and invariant\<close>

text \<open>
  The setting of a write that deals a buffer evenly over the zones of one group: the
  device and its abstraction, the buffer, the number of zones, the number of I/O units
  per zone, the list of interval pointers, and the state before the write.
\<close>

record 'd stripe =
  sp_ops :: "'d nvme_ops"
  sp_media :: "'d \<Rightarrow> nat \<Rightarrow> byte"
  sp_hwp :: "'d \<Rightarrow> nat \<Rightarrow> nat"
  sp_zsz :: nat
  sp_nz :: nat
  sp_buf :: "byte list"
  sp_izg :: nat
  sp_n :: nat
  sp_il :: "nat list"
  sp_c0 :: "'d ctrl"
  sp_iv0 :: "Interval list"

definition sp_zone :: "'d stripe \<Rightarrow> nat \<Rightarrow> nat" where
  "sp_zone S k = iv_zone_number (sp_iv0 S ! (sp_il S ! k))"

text \<open>The block where zone \<open>k\<close> of the stripe starts to be written.\<close>

definition sp_base :: "'d stripe \<Rightarrow> nat \<Rightarrow> nat" where
  "sp_base S k = wps (sp_c0 S) (sp_zone S k)"

definition in_region :: "'d stripe \<Rightarrow> nat \<Rightarrow> nat \<Rightarrow> bool" where
  "in_region S k a \<longleftrightarrow>
     sp_base S k * BLOCK_SIZE \<le> a \<and> a < (sp_base S k + sp_n S * IO_BLOCKS) * BLOCK_SIZE"

text \<open>
  The zones are distinct and inside the namespace, each has room for its share, the
  buffer holds the data, and the number of bytes fits in 32 bits.
\<close>

definition stripe_ok :: "'d stripe \<Rightarrow> bool" where
  "stripe_ok S \<longleftrightarrow>
     nvme_ok (sp_ops S) (sp_media S) (sp_hwp S) (sp_zsz S) (sp_nz S)
     \<and> dev_sync (sp_hwp S) (sp_zsz S) (sp_nz S) (sp_c0 S)
     \<and> 0 < sp_izg S \<and> 0 < sp_n S \<and> length (sp_il S) = sp_izg S
     \<and> (\<forall>k < sp_izg S. sp_il S ! k < length (sp_iv0 S))
     \<and> (\<forall>k < sp_izg S. \<forall>l < sp_izg S. k \<noteq> l \<longrightarrow> sp_zone S k \<noteq> sp_zone S l)
     \<and> (\<forall>k < sp_izg S. sp_zone S k < sp_nz S
          \<and> sp_base S k + sp_n S * IO_BLOCKS \<le> (sp_zone S k + 1) * sp_zsz S)
     \<and> length (sp_buf S) = sp_n S * sp_izg S * IO_SIZE
     \<and> sp_n S * sp_izg S * IO_SIZE < 2 ^ 32"

text \<open>
  \<open>q k\<close> units of zone \<open>k\<close> have been written: unit \<open>r\<close> of zone \<open>k\<close> is chunk \<open>r * izg + k\<close> of
  the buffer; nothing outside the regions of the stripe has changed.
\<close>

definition zone_done :: "'d stripe \<Rightarrow> nat \<Rightarrow> nat \<Rightarrow> 'd ctrl \<Rightarrow> Interval list \<Rightarrow> nat list \<Rightarrow> bool" where
  "zone_done S k m c iv ws \<longleftrightarrow>
     m \<le> sp_n S \<and> ws ! k = sp_n S - m
     \<and> wps c (sp_zone S k) = sp_base S k + m * IO_BLOCKS
     \<and> (\<forall>r < m. range_of (sp_media S (c_dev c)) ((sp_base S k + r * IO_BLOCKS) * BLOCK_SIZE) IO_SIZE
          = chunk IO_SIZE (sp_buf S) (r * sp_izg S + k))
     \<and> iv ! (sp_il S ! k) =
         (if m = sp_n S
          then (sp_iv0 S ! (sp_il S ! k))\<lparr>iv_end := sp_base S k + sp_n S * IO_BLOCKS\<rparr>
          else sp_iv0 S ! (sp_il S ! k))"

definition stripe_inv ::
  "'d stripe \<Rightarrow> (nat \<Rightarrow> nat) \<Rightarrow> 'd ctrl \<Rightarrow> Interval list \<Rightarrow> nat list \<Rightarrow> bool" where
  "stripe_inv S q c iv ws \<longleftrightarrow>
     dev_sync (sp_hwp S) (sp_zsz S) (sp_nz S) c
     \<and> length ws = sp_izg S \<and> length iv = length (sp_iv0 S)
     \<and> (\<forall>k < sp_izg S. zone_done S k (q k) c iv ws)
     \<and> (\<forall>z. (\<forall>k < sp_izg S. z \<noteq> sp_zone S k) \<longrightarrow> wps c z = wps (sp_c0 S) z)
     \<and> (\<forall>p. p < length iv \<longrightarrow> p \<notin> set (sp_il S) \<longrightarrow> iv ! p = sp_iv0 S ! p)
     \<and> (\<forall>a. (\<forall>k < sp_izg S. \<not> in_region S k a) \<longrightarrow>
          sp_media S (c_dev c) a = sp_media S (c_dev (sp_c0 S)) a)"

lemma stripe_okD:
  assumes "stripe_ok S"
  shows "nvme_ok (sp_ops S) (sp_media S) (sp_hwp S) (sp_zsz S) (sp_nz S)"
    "dev_sync (sp_hwp S) (sp_zsz S) (sp_nz S) (sp_c0 S)"
    "0 < sp_izg S" "0 < sp_n S" "length (sp_il S) = sp_izg S"
    "length (sp_buf S) = sp_n S * sp_izg S * IO_SIZE" "sp_n S * sp_izg S * IO_SIZE < 2 ^ 32"
    "\<And>k. k < sp_izg S \<Longrightarrow> sp_il S ! k < length (sp_iv0 S)"
    "\<And>k. k < sp_izg S \<Longrightarrow> sp_zone S k < sp_nz S"
    "\<And>k. k < sp_izg S \<Longrightarrow> sp_base S k + sp_n S * IO_BLOCKS \<le> (sp_zone S k + 1) * sp_zsz S"
    "\<And>k l. k < sp_izg S \<Longrightarrow> l < sp_izg S \<Longrightarrow> sp_zone S k = sp_zone S l \<Longrightarrow> k = l"
  using assms unfolding stripe_ok_def by blast+

lemma stripe_il_inj:
  "stripe_ok S \<Longrightarrow> k < sp_izg S \<Longrightarrow> l < sp_izg S \<Longrightarrow> sp_il S ! k = sp_il S ! l \<Longrightarrow> k = l"
  by (rule stripe_okD(11) [of S k l]) (simp_all only: sp_zone_def)

lemma sp_base_ge: "stripe_ok S \<Longrightarrow> k < sp_izg S \<Longrightarrow> sp_zone S k * sp_zsz S \<le> sp_base S k"
  unfolding sp_base_def by (rule dev_syncD(4) [OF stripe_okD(2) stripe_okD(9)])

text \<open>Regions of different zones of a stripe do not overlap.\<close>

lemma regions_disjoint:
  assumes S: "stripe_ok S" and kl: "k < sp_izg S" "l < sp_izg S" "k \<noteq> l"
  shows "sp_base S k + sp_n S * IO_BLOCKS \<le> sp_base S l \<or> sp_base S l + sp_n S * IO_BLOCKS \<le> sp_base S k"
proof -
  have "sp_zone S k \<noteq> sp_zone S l" using stripe_okD(11) [OF S] kl by blast
  then consider "sp_zone S k + 1 \<le> sp_zone S l" | "sp_zone S l + 1 \<le> sp_zone S k" by linarith
  then show ?thesis
  proof cases
    case 1
    then have "(sp_zone S k + 1) * sp_zsz S \<le> sp_zone S l * sp_zsz S" by (rule mult_le_mono1)
    then show ?thesis using stripe_okD(10) [OF S kl(1)] sp_base_ge [OF S kl(2)] by linarith
  next
    case 2
    then have "(sp_zone S l + 1) * sp_zsz S \<le> sp_zone S k * sp_zsz S" by (rule mult_le_mono1)
    then show ?thesis using stripe_okD(10) [OF S kl(2)] sp_base_ge [OF S kl(1)] by linarith
  qed
qed

lemma stripe_inv_init:
  assumes "stripe_ok S"
  shows "stripe_inv S (\<lambda>_. 0) (sp_c0 S) (sp_iv0 S) (replicate (sp_izg S) (sp_n S))"
  using stripe_okD [OF assms]
  by (simp add: stripe_inv_def zone_done_def sp_base_def)

text \<open>Writing the next unit of one zone keeps the invariant.\<close>

text \<open>Unit \<open>r\<close> of the stripe in zone \<open>k\<close>: its address on the media and its bytes.\<close>

abbreviation unit_at :: "'d stripe \<Rightarrow> nat \<Rightarrow> nat \<Rightarrow> nat" where
  "unit_at S k r \<equiv> (sp_base S k + r * IO_BLOCKS) * BLOCK_SIZE"

abbreviation unit_of :: "'d stripe \<Rightarrow> nat \<Rightarrow> nat \<Rightarrow> byte list" where
  "unit_of S k r \<equiv> chunk IO_SIZE (sp_buf S) (r * sp_izg S + k)"

lemma unit_end: "unit_at S k r + IO_SIZE = unit_at S k (Suc r)"
  by (simp add: IO_SIZE_blocks algebra_simps)

lemma unit_length:
  assumes S: "stripe_ok S" and k: "k < sp_izg S" and r: "r < sp_n S"
  shows "length (unit_of S k r) = IO_SIZE"
proof (rule length_chunk)
  have "Suc r * sp_izg S \<le> sp_n S * sp_izg S" using r by (intro mult_le_mono1) simp
  then have "r * sp_izg S + k < sp_n S * sp_izg S" using k by simp
  then have "Suc (r * sp_izg S + k) * IO_SIZE \<le> sp_n S * sp_izg S * IO_SIZE" by (intro mult_le_mono1) simp
  then show "Suc (r * sp_izg S + k) * IO_SIZE \<le> length (sp_buf S)" using stripe_okD(6) [OF S] by simp
qed

text \<open>Writing a unit leaves the units before it and those of the other zones alone.\<close>

lemma unit_keep:
  assumes S: "stripe_ok S" and k: "k < sp_izg S" "i < sp_n S" and l: "l < sp_izg S" "r < sp_n S" and before: "l = k \<Longrightarrow> r < i"
  shows "range_of (store_range m (unit_at S k i) (unit_of S k i)) (unit_at S l r) IO_SIZE = range_of m (unit_at S l r) IO_SIZE"
proof (rule range_of_store_disjoint)
  note le = mult_le_mono1 [of "Suc _" "sp_n S" IO_BLOCKS, OF Suc_leI]
  have "unit_at S l (Suc r) \<le> unit_at S k i \<or> unit_at S k (Suc i) \<le> unit_at S l r"
  proof (cases "l = k")
    case True
    then have "Suc r * IO_BLOCKS \<le> i * IO_BLOCKS" using before by (intro mult_le_mono1) simp
    then show ?thesis using True by simp
  next
    case False
    then have "sp_base S l + Suc r * IO_BLOCKS \<le> sp_base S k + i * IO_BLOCKS
       \<or> sp_base S k + Suc i * IO_BLOCKS \<le> sp_base S l + r * IO_BLOCKS"
      using regions_disjoint [OF S l(1) k(1)] le [OF l(2)] le [OF k(2)] by linarith
    then show ?thesis using mult_le_mono1 by blast
  qed
  then show "unit_at S l r + IO_SIZE \<le> unit_at S k i \<or> unit_at S k i + length (unit_of S k i) \<le> unit_at S l r"
    unfolding unit_length [OF S k] unit_end .
qed

lemma unit_outside:
  assumes S: "stripe_ok S" and k: "k < sp_izg S" "i < sp_n S" and a: "\<not> in_region S k a"
  shows "store_range m (unit_at S k i) (unit_of S k i) a = m a"
proof -
  have "Suc i * IO_BLOCKS \<le> sp_n S * IO_BLOCKS" using k(2) by (intro mult_le_mono1) simp
  then have "unit_at S k (Suc i) \<le> unit_at S k (sp_n S)" by (intro mult_le_mono1) simp
  moreover have "sp_base S k * BLOCK_SIZE \<le> unit_at S k i" by (intro mult_le_mono1) simp
  ultimately have "\<not> (unit_at S k i \<le> a \<and> a < unit_at S k i + length (unit_of S k i))"
    using a unfolding unit_length [OF S k] unit_end in_region_def by (meson le_trans less_le_trans)
  then show ?thesis unfolding store_range_def by (simp only: if_False)
qed

text \<open>The effect of one write on the zone written and on the others.\<close>

lemma zone_done_write:
  assumes S: "stripe_ok S" and inv: "stripe_inv S q c iv ws" and k: "k < sp_izg S" "q k < sp_n S"
    and run: "sp_media S (c_dev c') = store_range (sp_media S (c_dev c)) (unit_at S k (q k)) (unit_of S k (q k))"
      "wps c' = (wps c)(sp_zone S k := wps c (sp_zone S k) + IO_BLOCKS)"
    and iv': "iv' = (if Suc (q k) = sp_n S
        then iv[sp_il S ! k := (sp_iv0 S ! (sp_il S ! k))\<lparr>iv_end := sp_base S k + sp_n S * IO_BLOCKS\<rparr>]
        else iv)"
    and l: "l < sp_izg S"
  shows "zone_done S l ((q(k := Suc (q k))) l) c' iv' (ws[k := sp_n S - Suc (q k)])"
proof -
  have D: "zone_done S j (q j) c iv ws" if "j < sp_izg S" for j using inv that by (simp add: stripe_inv_def)
  have keep: "range_of (sp_media S (c_dev c')) (unit_at S j r) IO_SIZE = range_of (sp_media S (c_dev c)) (unit_at S j r) IO_SIZE"
    if "j < sp_izg S" "r < q j" for j r
  proof -
    have "q j \<le> sp_n S" using D [OF that(1)] by (simp add: zone_done_def)
    then show ?thesis unfolding run(1) using that by (intro unit_keep [OF S k]) auto
  qed
  show ?thesis
  proof (cases "l = k")
    case True
    have "range_of (sp_media S (c_dev c')) (unit_at S k r) IO_SIZE = unit_of S k r" if "r < Suc (q k)" for r
      using that keep [OF k(1), of r] D [OF k(1)] unit_length [OF S k]
        range_of_store_same [of "sp_media S (c_dev c)" "unit_at S k (q k)" "unit_of S k (q k)"] run(1)
      by (cases "r = q k") (auto simp: zone_done_def)
    moreover have "iv' ! (sp_il S ! k) = (if Suc (q k) = sp_n S
        then (sp_iv0 S ! (sp_il S ! k))\<lparr>iv_end := sp_base S k + sp_n S * IO_BLOCKS\<rparr>
        else sp_iv0 S ! (sp_il S ! k))"
      using iv' inv stripe_okD(8) [OF S k(1)] D [OF k(1)] k(2) by (auto simp: stripe_inv_def zone_done_def)
    ultimately show ?thesis using True k D [OF k(1)] inv run(2) by (simp add: zone_done_def stripe_inv_def)
  next
    case False
    have "sp_zone S l \<noteq> sp_zone S k" using stripe_okD(11) [OF S l k(1)] False by blast
    moreover have "sp_il S ! k \<noteq> sp_il S ! l" using stripe_il_inj [OF S l k(1)] False by metis
    then have "iv' ! (sp_il S ! l) = iv ! (sp_il S ! l)" using iv' by simp
    ultimately show ?thesis using False D [OF l] keep [OF l] run(2) by (simp add: zone_done_def)
  qed
qed

lemma stripe_inv_write:
  assumes S: "stripe_ok S" and inv: "stripe_inv S q c iv ws"
    and k: "k < sp_izg S" and q: "q k < sp_n S"
    and run: "dev_sync (sp_hwp S) (sp_zsz S) (sp_nz S) c'"
      "sp_media S (c_dev c') = store_range (sp_media S (c_dev c)) (wps c (sp_zone S k) * BLOCK_SIZE)
          (chunk IO_SIZE (sp_buf S) (q k * sp_izg S + k))"
      "wps c' = (wps c)(sp_zone S k := wps c (sp_zone S k) + IO_BLOCKS)"
    and iv': "iv' = (if Suc (q k) = sp_n S
        then iv[sp_il S ! k := (sp_iv0 S ! (sp_il S ! k))\<lparr>iv_end := sp_base S k + sp_n S * IO_BLOCKS\<rparr>]
        else iv)"
  shows "stripe_inv S (q(k := Suc (q k))) c' iv' (ws[k := sp_n S - Suc (q k)])"
proof -
  have "zone_done S k (q k) c iv ws" using inv k by (simp add: stripe_inv_def)
  then have m': "sp_media S (c_dev c') = store_range (sp_media S (c_dev c)) (unit_at S k (q k)) (unit_of S k (q k))"
    using run(2) by (simp add: zone_done_def)
  note done' = zone_done_write [OF S inv k q m' run(3) iv']
  show ?thesis
    unfolding stripe_inv_def
  proof (intro conjI allI impI)
    fix z assume "\<forall>k < sp_izg S. z \<noteq> sp_zone S k"
    then show "wps c' z = wps (sp_c0 S) z"
      using run(3) k inv by (auto simp: stripe_inv_def)
  next
    fix p assume "p < length iv'" "p \<notin> set (sp_il S)"
    moreover have "sp_il S ! k \<in> set (sp_il S)" using k stripe_okD(5) [OF S] by simp
    ultimately have "p < length iv" "p \<notin> set (sp_il S)" "sp_il S ! k \<noteq> p"
      using iv' by (auto split: if_splits)
    then show "iv' ! p = sp_iv0 S ! p" using iv' inv by (simp add: stripe_inv_def)
  next
    fix a assume "\<forall>k < sp_izg S. \<not> in_region S k a"
    then show "sp_media S (c_dev c') a = sp_media S (c_dev (sp_c0 S)) a"
      using unit_outside [OF S k q, of a] k inv m' by (simp add: stripe_inv_def)
  qed (use run(1) done' inv iv' in \<open>auto simp: stripe_inv_def\<close>)
qed

text \<open>The loop body on zone \<open>k\<close> of the stripe, with the buffer position of its next unit.\<close>

lemma write_one_stripe:
  assumes S: "stripe_ok S" and inv: "stripe_inv S q (w_c s) (w_iv s) (w_ws s)"
    and k: "a + i = k" "k < sp_izg S" and q: "q k < sp_n S"
    and pos: "w_pos s = (q k * sp_izg S + k) * IO_SIZE"
  shows "\<exists>s'. write_one (sp_ops S) (sp_buf S) (sp_il S) a a i s = Inr s'
     \<and> stripe_inv S (q(k := Suc (q k))) (w_c s') (w_iv s') (w_ws s')
     \<and> w_pos s' = w_pos s + IO_SIZE \<and> w_written s' = u32 (w_written s + IO_SIZE)
     \<and> w_cnt s' = w_cnt s \<and> w_izg s' = w_izg s \<and> w_min s' = w_min s"
proof -
  let ?ch = "chunk IO_SIZE (sp_buf S) (q k * sp_izg S + k)"
  let ?p = "sp_il S ! k"
  have D: "zone_done S k (q k) (w_c s) (w_iv s) (w_ws s)" and L: "length (w_ws s) = sp_izg S"
    "length (w_iv s) = length (sp_iv0 S)" and sync: "dev_sync (sp_hwp S) (sp_zsz S) (sp_nz S) (w_c s)"
    using inv k(2) by (simp_all add: stripe_inv_def)
  have iv: "w_iv s ! ?p = sp_iv0 S ! ?p" and ws: "w_ws s ! k = sp_n S - q k"
    and wk: "wps (w_c s) (sp_zone S k) = sp_base S k + q k * IO_BLOCKS"
    using D q by (simp_all add: zone_done_def)
  have room: "wps (w_c s) (sp_zone S k) + IO_BLOCKS \<le> (sp_zone S k + 1) * sp_zsz S"
  proof -
    have "Suc (q k) * IO_BLOCKS \<le> sp_n S * IO_BLOCKS" using q by (intro mult_le_mono1) simp
    then show ?thesis using stripe_okD(10) [OF S k(2)] wk by simp
  qed
  have fit: "w_pos s + IO_SIZE \<le> length (sp_buf S)"
  proof -
    have "Suc (q k) * sp_izg S \<le> sp_n S * sp_izg S" using q by (intro mult_le_mono1) simp
    then have "Suc (q k * sp_izg S + k) * IO_SIZE \<le> sp_n S * sp_izg S * IO_SIZE"
      using k(2) by (intro mult_le_mono1) simp
    then show ?thesis using pos stripe_okD(6) [OF S] by simp
  qed
  have data: "mem_read (sp_buf S) (w_pos s) IO_SIZE = Inr ?ch"
    using fit pos by (simp add: chunk_def)
  have len: "length ?ch = IO_SIZE" using fit pos by (simp add: chunk_def)
  obtain c' where c': "zns_write (sp_ops S) ?ch IO_SIZE (sp_zone S k) (w_c s) = Inr (0, c')"
      "dev_sync (sp_hwp S) (sp_zsz S) (sp_nz S) c'"
      "sp_media S (c_dev c') = store_range (sp_media S (c_dev (w_c s)))
          (wps (w_c s) (sp_zone S k) * BLOCK_SIZE) ?ch"
      "wps c' = (wps (w_c s))(sp_zone S k := wps (w_c s) (sp_zone S k) + IO_BLOCKS)"
    using zns_write_append [OF stripe_okD(1) [OF S] sync stripe_okD(9) [OF S k(2)] room len] by blast
  have wp: "zns_get_wp c' (sp_zone S k) = Inr (sp_base S k + Suc (q k) * IO_BLOCKS)"
    using zns_get_wp_ok [OF c'(2) stripe_okD(9) [OF S k(2)]] c'(4) wk by simp
  define iv' where "iv' = (if Suc (q k) = sp_n S
        then (w_iv s)[?p := (sp_iv0 S ! ?p)\<lparr>iv_end := sp_base S k + sp_n S * IO_BLOCKS\<rparr>]
        else w_iv s)"
  have inv': "stripe_inv S (q(k := Suc (q k))) c' iv' ((w_ws s)[k := sp_n S - Suc (q k)])"
    by (rule stripe_inv_write [OF S inv k(2) q c'(2,3,4) iv'_def])
  let ?s' = "s\<lparr>w_c := c', w_iv := iv', w_ws := (w_ws s)[k := sp_n S - Suc (q k)],
     w_pos := w_pos s + IO_SIZE, w_written := u32 (w_written s + IO_SIZE)\<rparr>"
  have last: "IO_BLOCKS + q k * IO_BLOCKS = sp_n S * IO_BLOCKS" if "Suc (q k) = sp_n S"
    using that by (metis mult_Suc)
  have "write_one (sp_ops S) (sp_buf S) (sp_il S) a a i s = Inr ?s'"
    using k q L ws stripe_okD(5,8) [OF S] iv data c'(1) wp iv'_def last
    by (auto simp: write_one_def Let_def sp_zone_def diff_Suc split: nat.splits)
  with inv' show ?thesis by auto
qed

text \<open>One pass over the zones \<open>a, ..., a + w - 1\<close> writes one more unit to each of them.\<close>

lemma write_sweep:
  fixes s :: "'d wstate" and S :: "'d stripe"
  assumes S: "stripe_ok S" and inv: "stripe_inv S q (w_c s) (w_iv s) (w_ws s)"
    and q: "\<And>i. i < w \<Longrightarrow> q (a + i) = r" and r: "r < sp_n S" and aw: "a + w \<le> sp_izg S"
    and pos: "w_pos s = (r * sp_izg S + a) * IO_SIZE"
    and wr: "w_written s + w * IO_SIZE < 2 ^ 32"
  shows "\<exists>s'. efor 0 w (write_one (sp_ops S) (sp_buf S) (sp_il S) a a) s = Inr s'
     \<and> stripe_inv S (\<lambda>k. if a \<le> k \<and> k < a + w then Suc r else q k) (w_c s') (w_iv s') (w_ws s')
     \<and> w_pos s' = w_pos s + w * IO_SIZE \<and> w_written s' = w_written s + w * IO_SIZE
     \<and> w_cnt s' = w_cnt s \<and> w_izg s' = w_izg s \<and> w_min s' = w_min s"
proof -
  let ?q = "\<lambda>i k. if a \<le> k \<and> k < a + i then Suc r else q k"
  let ?P = "\<lambda>i (t::'d wstate). stripe_inv S (?q i) (w_c t) (w_iv t) (w_ws t)
     \<and> w_pos t = w_pos s + i * IO_SIZE \<and> w_written t = w_written s + i * IO_SIZE
     \<and> w_cnt t = w_cnt s \<and> w_izg t = w_izg s \<and> w_min t = w_min s"
  have "\<exists>s'. efor 0 w (write_one (sp_ops S) (sp_buf S) (sp_il S) a a) s = Inr s' \<and> ?P (0 + w) s'"
  proof (rule efor_rule [of ?P])
    have "?q 0 = q" by (auto simp: fun_eq_iff)
    then show "?P 0 s" using inv by (simp only: mult_0 add_0_right)
    fix i t assume i: "i < 0 + w" and P: "?P i t"
    have qi: "?q i (a + i) = r" using q i by simp
    have "\<exists>t'. write_one (sp_ops S) (sp_buf S) (sp_il S) a a i t = Inr t'
     \<and> stripe_inv S ((?q i)(a + i := Suc (?q i (a + i)))) (w_c t') (w_iv t') (w_ws t')
     \<and> w_pos t' = w_pos t + IO_SIZE \<and> w_written t' = u32 (w_written t + IO_SIZE)
     \<and> w_cnt t' = w_cnt t \<and> w_izg t' = w_izg t \<and> w_min t' = w_min t"
    proof (rule write_one_stripe [OF S _ refl])
      show "w_pos t = (?q i (a + i) * sp_izg S + (a + i)) * IO_SIZE"
        using P pos qi by (simp add: algebra_simps)
    qed (use P i aw qi r in simp_all)
    moreover have "(?q i)(a + i := Suc (?q i (a + i))) = ?q (Suc i)"
      using qi by (auto simp: fun_eq_iff)
    moreover have "w_written t + IO_SIZE < 4294967296"
    proof -
      have "Suc i * IO_SIZE \<le> w * IO_SIZE" using i by (intro mult_le_mono1) simp
      then show ?thesis using wr P by simp
    qed
    ultimately show "\<exists>t'. write_one (sp_ops S) (sp_buf S) (sp_il S) a a i t = Inr t' \<and> ?P (Suc i) t'"
      using P by (auto simp: u32_id)
  qed
  then show ?thesis by simp
qed

text \<open>Opening and closing the zones of a request leaves data and write pointers alone.\<close>

lemma set_zones_stripe:
  fixes s :: "'d wstate" and S :: "'d stripe"
  assumes S: "stripe_ok S" and inv: "stripe_inv S q (w_c s) (w_iv s) (w_ws s)"
    and aw: "a + w \<le> sp_izg S" and v: "value = MAN_OPEN \<or> value = MAN_CLOSE"
  shows "\<exists>c'. set_zones (sp_ops S) value (sp_il S) a w s = Inr (s\<lparr>w_c := c'\<rparr>)
     \<and> stripe_inv S q c' (w_iv s) (w_ws s)"
proof -
  let ?f = "\<lambda>i s. ebind (zone_at (w_iv s) (sp_il S) (a + i)) (\<lambda>z.
       ebind (zns_set_zone (sp_ops S) z value (w_c s)) (\<lambda>c. Inr (s\<lparr>w_c := c\<rparr>)))"
  let ?P = "\<lambda>(i::nat) t. \<exists>c'. t = s\<lparr>w_c := c'\<rparr> \<and> stripe_inv S q c' (w_iv s) (w_ws s)"
  have "\<exists>s'. efor 0 w ?f s = Inr s' \<and> ?P (0 + w) s'"
  proof (rule efor_rule [of ?P])
    show "?P 0 s" using inv by (intro exI [of _ "w_c s"]) simp
    fix i t assume i: "i < 0 + w" and P: "?P i t"
    then obtain c where t: "t = s\<lparr>w_c := c\<rparr>" and ic: "stripe_inv S q c (w_iv s) (w_ws s)" by blast
    have z: "zone_at (w_iv t) (sp_il S) (a + i) = Inr (iv_zone_number (w_iv s ! (sp_il S ! (a + i))))"
      using i aw stripe_okD(5,8) [OF S] ic by (simp add: zone_at_def t stripe_inv_def)
    have "dev_sync (sp_hwp S) (sp_zsz S) (sp_nz S) c" using ic by (simp add: stripe_inv_def)
    from zns_set_zone_frame [OF stripe_okD(1) [OF S] this v]
    obtain c' where c': "zns_set_zone (sp_ops S) (iv_zone_number (w_iv s ! (sp_il S ! (a + i)))) value c = Inr c'"
      "dev_sync (sp_hwp S) (sp_zsz S) (sp_nz S) c'" "sp_media S (c_dev c') = sp_media S (c_dev c)"
      "wps c' = wps c" by blast
    have "stripe_inv S q c' (w_iv s) (w_ws s)"
      using ic c'(2,3,4) by (simp add: stripe_inv_def zone_done_def)
    then show "\<exists>t'. ?f i t = Inr t' \<and> ?P (Suc i) t'" using z c'(1) t by auto
  qed
  then show ?thesis by (auto simp: set_zones_def)
qed

lemma skip_min_ends: "\<exists>x \<in> set xs. x \<noteq> cnt \<Longrightarrow> \<exists>izg' rest. skip_min cnt xs izg = Inr (izg', rest)"
  by (induction cnt xs izg rule: skip_min.induct) auto

lemma skip_min_stay: "cnt \<noteq> n \<Longrightarrow> 0 < m \<Longrightarrow>
   skip_min cnt (replicate m n @ past) izg = Inr (izg, replicate m n @ past)"
  by (cases m) auto

text \<open>
  The end of a round of a thread with \<open>w\<close> zones from \<open>a\<close> on. After the last round the
  position is not used again; the sizes behind the sorted vector only have to stop the scan.
\<close>

lemma stripe_bound:
  assumes "stripe_ok S" "x \<le> sp_n S" "y \<le> sp_izg S" "v \<le> IO_SIZE"
  shows "x * y * v < 4294967296"
  using mult_le_mono [OF mult_le_mono [OF assms(2,3)] assms(4)] stripe_okD(7) [OF assms(1)] by simp

lemma round_end_stripe:
  fixes past :: "nat list" and s :: "'d wstate" and S :: "'d stripe"
  assumes S: "stripe_ok S" and r: "r < sp_n S" and aw: "a + w \<le> sp_izg S"
    and past: "\<exists>x \<in> set past. x \<noteq> sp_n S" and req: "rq_write_zone_cnt req = w"
    and st: "w_pos s = (r * sp_izg S + a + w) * IO_SIZE" "w_cnt s = r"
      "w_izg s = sp_izg S" "w_min s = replicate (sp_izg S) (sp_n S) @ past"
  shows "\<exists>izg rest pos. round_end req s = Inr (s\<lparr>w_cnt := Suc r, w_izg := izg, w_min := rest, w_pos := pos\<rparr>)
     \<and> (Suc r < sp_n S \<longrightarrow> pos = (Suc r * sp_izg S + a) * IO_SIZE
          \<and> izg = sp_izg S \<and> rest = replicate (sp_izg S) (sp_n S) @ past)"
proof -
  have pos: "0 < sp_izg S" "0 < sp_n S" using stripe_okD [OF S] by blast+
  have b: "Suc r < 4294967296" "IO_SIZE * (sp_izg S - w) < 4294967296" "sp_izg S < 4294967296"
    using stripe_bound [OF S, of "Suc r" 1 1] stripe_bound [OF S, of 1 "sp_izg S - w" IO_SIZE]
      stripe_bound [OF S, of 1 "sp_izg S" 1] r pos by (simp_all add: Suc_le_eq mult.commute)
  have cnt: "u32 (w_cnt s + 1) = Suc r" using st(2) b(1) by (simp add: u32_id)
  show ?thesis
  proof (cases "Suc r < sp_n S")
    case True
    have sk: "skip_min (Suc r) (w_min s) (w_izg s) = Inr (sp_izg S, replicate (sp_izg S) (sp_n S) @ past)"
      using st(3,4) True pos(1) by (simp add: skip_min_stay)
    have "u32 (IO_SIZE * u32_sub (sp_izg S) w) = IO_SIZE * (sp_izg S - w)"
      using b aw by (simp add: u32_sub_id u32_id)
    moreover have "w_pos s + IO_SIZE * (sp_izg S - w) = (Suc r * sp_izg S + a) * IO_SIZE"
    proof -
      have "w_pos s + IO_SIZE * (sp_izg S - w) = (r * sp_izg S + a + (w + (sp_izg S - w))) * IO_SIZE"
        using st(1) by (simp only: algebra_simps)
      then show ?thesis using aw by (simp add: algebra_simps)
    qed
    ultimately have "round_end req s = Inr (s\<lparr>w_cnt := Suc r, w_izg := sp_izg S,
        w_min := replicate (sp_izg S) (sp_n S) @ past, w_pos := (Suc r * sp_izg S + a) * IO_SIZE\<rparr>)"
      using cnt sk req by (simp add: round_end_def)
    then show ?thesis by blast
  next
    case False
    then have "sp_n S = Suc r" using r by simp
    then have ex: "\<exists>x \<in> set (w_min s). x \<noteq> Suc r" using past st(4) by auto
    obtain izg rest where "skip_min (Suc r) (w_min s) (w_izg s) = Inr (izg, rest)"
      using skip_min_ends [OF ex] by blast
    then have "round_end req s = Inr (s\<lparr>w_cnt := Suc r, w_izg := izg, w_min := rest,
        w_pos := w_pos s + u32 (IO_SIZE * u32_sub izg (rq_write_zone_cnt req))\<rparr>)"
      using cnt by (simp add: round_end_def)
    with False show ?thesis by blast
  qed
qed

text \<open>One round of a thread that has written \<open>r\<close> units to each of its zones.\<close>

lemma write_round_stripe:
  fixes past :: "nat list" and s :: "'d wstate" and S :: "'d stripe"
  assumes S: "stripe_ok S" and inv: "stripe_inv S q (w_c s) (w_iv s) (w_ws s)"
    and q: "\<And>i. i < w \<Longrightarrow> q (a + i) = r" and r: "r < sp_n S" and aw: "a + w \<le> sp_izg S"
    and past: "\<exists>x \<in> set past. x \<noteq> sp_n S"
    and req: "rq_write_zone_cnt req = w" "rq_interval_it req = a" "rq_write_size_it req = a"
    and st: "w_pos s = (r * sp_izg S + a) * IO_SIZE" "w_written s = r * w * IO_SIZE" "w_cnt s = r"
      "w_izg s = sp_izg S" "w_min s = replicate (sp_izg S) (sp_n S) @ past"
  shows "\<exists>s'. write_round (sp_ops S) (sp_buf S) (sp_il S) req s = Inr s'
     \<and> stripe_inv S (\<lambda>k. if a \<le> k \<and> k < a + w then Suc r else q k) (w_c s') (w_iv s') (w_ws s')
     \<and> w_written s' = Suc r * w * IO_SIZE \<and> w_cnt s' = Suc r
     \<and> (Suc r < sp_n S \<longrightarrow> w_pos s' = (Suc r * sp_izg S + a) * IO_SIZE
          \<and> w_izg s' = sp_izg S \<and> w_min s' = replicate (sp_izg S) (sp_n S) @ past)"
proof -
  have "Suc r * w * IO_SIZE < 4294967296" using r aw by (intro stripe_bound [OF S]) simp_all
  then have wr: "w_written s + w * IO_SIZE < 2 ^ 32"
    using st(2) by (simp add: distrib_right add.commute)
  from write_sweep [OF S inv q r aw st(1) wr]
  obtain s1 where s1: "efor 0 w (write_one (sp_ops S) (sp_buf S) (sp_il S) a a) s = Inr s1"
     "stripe_inv S (\<lambda>k. if a \<le> k \<and> k < a + w then Suc r else q k) (w_c s1) (w_iv s1) (w_ws s1)"
     "w_pos s1 = w_pos s + w * IO_SIZE" "w_written s1 = w_written s + w * IO_SIZE"
     "w_cnt s1 = w_cnt s" "w_izg s1 = w_izg s" "w_min s1 = w_min s" by blast
  have "w_pos s1 = (r * sp_izg S + a + w) * IO_SIZE" using s1(3) st(1) by (simp add: distrib_right)
  from round_end_stripe [OF S r aw past req(1) this] s1 st
  obtain izg rest pos where
    "round_end req s1 = Inr (s1\<lparr>w_cnt := Suc r, w_izg := izg, w_min := rest, w_pos := pos\<rparr>)"
    "Suc r < sp_n S \<longrightarrow> pos = (Suc r * sp_izg S + a) * IO_SIZE
       \<and> izg = sp_izg S \<and> rest = replicate (sp_izg S) (sp_n S) @ past" by auto
  then show ?thesis using s1 req st by (simp add: write_round_def distrib_right add.commute)
qed

text \<open>A thread that is given the zones \<open>a, ..., a + w - 1\<close> writes them completely.\<close>

lemma write_rounds_stripe:
  fixes past :: "nat list" and S :: "'d stripe"
  defines "req \<equiv> \<lambda>a w. set_request_write (a * IO_SIZE) a a w (w * sp_n S) (replicate (sp_izg S) (sp_n S) @ past) (sp_izg S)"
  assumes S: "stripe_ok S" and q: "\<And>i. i < w \<Longrightarrow> q (a + i) = 0" and w: "0 < w" and aw: "a + w \<le> sp_izg S"
    and past: "\<exists>x \<in> set past. x \<noteq> sp_n S" and inv: "stripe_inv S q (w_c s) (w_iv s) (w_ws s)"
    and s: "w_written s = 0" "w_cnt s = 0" "w_pos s = a * IO_SIZE" "w_izg s = sp_izg S" "w_min s = replicate (sp_izg S) (sp_n S) @ past"
  shows "\<exists>s'. ewhile (w * sp_n S) ''thread_write'' (\<lambda>s. w_written s < w * sp_n S * IO_SIZE)
       (write_round (sp_ops S) (sp_buf S) (sp_il S) (req a w)) s = Inr s'
     \<and> stripe_inv S (\<lambda>k. if a \<le> k \<and> k < a + w then sp_n S else q k) (w_c s') (w_iv s') (w_ws s')"
proof -
  let ?tot = "w * sp_n S * IO_SIZE" and ?q = "\<lambda>r k. if a \<le> k \<and> k < a + w then r else q k"
  let ?P = "\<lambda>s::'d wstate. \<exists>r \<le> sp_n S. stripe_inv S (?q r) (w_c s) (w_iv s) (w_ws s)
     \<and> w_written s = r * w * IO_SIZE \<and> w_cnt s = r
     \<and> (r < sp_n S \<longrightarrow> w_pos s = (r * sp_izg S + a) * IO_SIZE
          \<and> w_izg s = sp_izg S \<and> w_min s = replicate (sp_izg S) (sp_n S) @ past)"
  have lt: "r * w * IO_SIZE < ?tot \<longleftrightarrow> r < sp_n S" for r using w io_pos by (simp add: mult.commute)
  have "\<exists>s'. ewhile (w * sp_n S) ''thread_write'' (\<lambda>s. w_written s < ?tot)
      (write_round (sp_ops S) (sp_buf S) (sp_il S) (req a w)) s = Inr s' \<and> ?P s' \<and> \<not> w_written s' < ?tot"
  proof (rule ewhile_rule [of ?P _ "\<lambda>s. sp_n S - w_cnt s"])
    have "?q 0 = q" using q by (auto simp: fun_eq_iff dest: le_Suc_ex)
    then show "?P s" using inv s by (intro exI [of _ 0]) simp
    show "sp_n S - w_cnt s \<le> w * sp_n S" using w by (cases w) simp_all
    fix t assume "?P t" and b: "w_written t < ?tot"
    then obtain r where r: "stripe_inv S (?q r) (w_c t) (w_iv t) (w_ws t)" "w_written t = r * w * IO_SIZE" "w_cnt t = r"
      and rn: "r < sp_n S" and rs: "w_pos t = (r * sp_izg S + a) * IO_SIZE" "w_izg t = sp_izg S"
        "w_min t = replicate (sp_izg S) (sp_n S) @ past" using lt by auto
    have "(\<lambda>k. if a \<le> k \<and> k < a + w then Suc r else ?q r k) = ?q (Suc r)" by (auto simp: fun_eq_iff)
    moreover have "\<exists>t'. write_round (sp_ops S) (sp_buf S) (sp_il S) (req a w) t = Inr t'
     \<and> stripe_inv S (\<lambda>k. if a \<le> k \<and> k < a + w then Suc r else ?q r k) (w_c t') (w_iv t') (w_ws t')
     \<and> w_written t' = Suc r * w * IO_SIZE \<and> w_cnt t' = Suc r
     \<and> (Suc r < sp_n S \<longrightarrow> w_pos t' = (Suc r * sp_izg S + a) * IO_SIZE
          \<and> w_izg t' = sp_izg S \<and> w_min t' = replicate (sp_izg S) (sp_n S) @ past)"
      by (rule write_round_stripe [OF S r(1) _ rn aw past]) (use r rs in \<open>simp_all add: req_def set_request_write_def\<close>)
    ultimately obtain t' where "write_round (sp_ops S) (sp_buf S) (sp_il S) (req a w) t = Inr t'"
      "stripe_inv S (?q (Suc r)) (w_c t') (w_iv t') (w_ws t')" "w_written t' = Suc r * w * IO_SIZE" "w_cnt t' = Suc r"
      "Suc r < sp_n S \<longrightarrow> w_pos t' = (Suc r * sp_izg S + a) * IO_SIZE
          \<and> w_izg t' = sp_izg S \<and> w_min t' = replicate (sp_izg S) (sp_n S) @ past" by auto
    then show "\<exists>t'. write_round (sp_ops S) (sp_buf S) (sp_il S) (req a w) t = Inr t' \<and> ?P t'
       \<and> sp_n S - w_cnt t' < sp_n S - w_cnt t" using rn r(3) by (intro exI [of _ t'] conjI exI [of _ "Suc r"]) simp_all
  qed
  then obtain s' r where "ewhile (w * sp_n S) ''thread_write'' (\<lambda>s. w_written s < ?tot)
      (write_round (sp_ops S) (sp_buf S) (sp_il S) (req a w)) s = Inr s'"
    "r \<le> sp_n S" "stripe_inv S (?q r) (w_c s') (w_iv s') (w_ws s')" "w_written s' = r * w * IO_SIZE" "\<not> w_written s' < ?tot" by blast
  moreover from this have "r = sp_n S" using w by simp
  ultimately show ?thesis by blast
qed

lemma thread_write_stripe:
  fixes past :: "nat list" and S :: "'d stripe"
  assumes S: "stripe_ok S" and inv: "stripe_inv S q c iv ws"
    and q: "\<And>i. i < w \<Longrightarrow> q (a + i) = 0" and w: "0 < w" and aw: "a + w \<le> sp_izg S"
    and past: "\<exists>x \<in> set past. x \<noteq> sp_n S"
  shows "\<exists>c' iv' ws'. thread_write (sp_ops S) (sp_buf S) (sp_il S)
       (set_request_write (a * IO_SIZE) a a w (w * sp_n S)
          (replicate (sp_izg S) (sp_n S) @ past) (sp_izg S)) (c, iv, ws) = Inr (c', iv', ws')
     \<and> stripe_inv S (\<lambda>k. if a \<le> k \<and> k < a + w then sp_n S else q k) c' iv' ws'"
proof -
  let ?s = "\<lambda>c. \<lparr>w_c = c, w_iv = iv, w_ws = ws, w_pos = a * IO_SIZE, w_written = 0, w_cnt = 0,
                 w_izg = sp_izg S, w_min = replicate (sp_izg S) (sp_n S) @ past\<rparr>"
  let ?tot = "w * sp_n S * IO_SIZE"
  have n: "sp_n S * sp_izg S * IO_SIZE < 2 ^ 32" "0 < sp_n S" using stripe_okD [OF S] by blast+
  have le: "?tot \<le> sp_n S * sp_izg S * IO_SIZE"
    using aw by (subst mult.commute [of w], intro mult_le_mono1 mult_le_mono) simp_all
  have "?tot < 4294967296" using le_less_trans [OF le n(1)] by simp
  then have tot: "u32 ?tot = ?tot" "0 < ?tot" using n(2) w io_pos by (auto intro: u32_id)
  have "stripe_inv S q (w_c (?s c)) (w_iv (?s c)) (w_ws (?s c))" using inv by simp
  from set_zones_stripe [OF S this aw, of MAN_OPEN]
  obtain c1 where c1: "set_zones (sp_ops S) MAN_OPEN (sp_il S) a w (?s c) = Inr (?s c1)" "stripe_inv S q c1 iv ws" by auto
  from write_rounds_stripe [where q = q and a = a, OF S q w aw past, of "?s c1"] c1(2)
  obtain s2 where s2: "ewhile (w * sp_n S) ''thread_write'' (\<lambda>s. w_written s < ?tot)
      (write_round (sp_ops S) (sp_buf S) (sp_il S) (set_request_write (a * IO_SIZE) a a w (w * sp_n S)
          (replicate (sp_izg S) (sp_n S) @ past) (sp_izg S))) (?s c1) = Inr s2"
    "stripe_inv S (\<lambda>k. if a \<le> k \<and> k < a + w then sp_n S else q k) (w_c s2) (w_iv s2) (w_ws s2)" by auto
  from set_zones_stripe [OF S s2(2) aw, of MAN_CLOSE]
  obtain c3 where c3: "set_zones (sp_ops S) MAN_CLOSE (sp_il S) a w s2 = Inr (s2\<lparr>w_c := c3\<rparr>)"
     "stripe_inv S (\<lambda>k. if a \<le> k \<and> k < a + w then sp_n S else q k) c3 (w_iv s2) (w_ws s2)" by auto
  show ?thesis
    using c1(1) s2(1) c3 tot by (auto simp: thread_write_def Let_def set_request_write_def)
qed

text \<open>In a single group thread \<open>j\<close> gets zones \<open>8 * j\<close> onwards, eight or what is left.\<close>

lemma thread_zone_cnt_single:
  "8 * j < izg \<Longrightarrow> izg < 4294967296 \<Longrightarrow> thread_zone_cnt izg (izg - 8 * j) j = min 8 (izg - 8 * j)"
  by (auto simp: thread_zone_cnt_def THREAD_PER_IZG_def Let_def)

lemma start_thread_stripe:
  fixes S :: "'d stripe"
  assumes S: "stripe_ok S" and past: "\<exists>x \<in> set (g_past g). x \<noteq> sp_n S" and j: "8 * j < sp_izg S"
    and inv: "stripe_inv S (\<lambda>k. if k < 8 * j then sp_n S else 0) (g_c g) (g_iv g) (g_ws g)"
    and g: "g_it g = 8 * j" "g_wsi g = 8 * j" "g_left g = sp_izg S - 8 * j" "g_tmp g = 8 * j * IO_SIZE"
      "g_sorted g = replicate (sp_izg S) (sp_n S)"
  defines "w \<equiv> min 8 (sp_izg S - 8 * j)"
  shows "\<exists>c iv ws. start_thread (sp_ops S) (sp_buf S) (sp_il S) (sp_izg S) j g =
       Inr (g\<lparr>g_c := c, g_iv := iv, g_ws := ws, g_total := u32 (g_total g + w * sp_n S),
              g_tmp := (8 * j + w) * IO_SIZE, g_it := 8 * j + w, g_wsi := 8 * j + w,
              g_left := sp_izg S - (8 * j + w)\<rparr>)
     \<and> stripe_inv S (\<lambda>k. if k < 8 * j + w then sp_n S else 0) c iv ws"
proof -
  let ?q = "\<lambda>k. if k < 8 * j then sp_n S else 0"
  have n: "sp_n S * sp_izg S * IO_SIZE < 4294967296" "0 < sp_n S" using stripe_okD [OF S] by simp_all
  have w: "0 < w" "8 * j + w \<le> sp_izg S" using j by (auto simp: w_def)
  have b: "w * sp_n S < 4294967296" "w * IO_SIZE < 4294967296" "sp_izg S < 4294967296"
    using stripe_bound [OF S, of "sp_n S" w 1] stripe_bound [OF S, of 1 w IO_SIZE]
      stripe_bound [OF S, of 1 "sp_izg S" 1] w n(2)
    by (simp_all add: Suc_le_eq mult.commute)
  have z: "thread_zone_cnt (sp_izg S) (g_left g) j = w"
    unfolding w_def g(3) by (rule thread_zone_cnt_single [OF j b(3)])
  have ws: "length (g_ws g) = sp_izg S" "\<And>k. k < sp_izg S \<Longrightarrow> g_ws g ! k = sp_n S - ?q k"
    using inv by (auto simp: stripe_inv_def zone_done_def)
  have sizes: "mem_read (g_ws g) (g_wsi g) w = Inr (replicate w (sp_n S))"
    using w ws by (auto simp: mem_read_def g(2) intro!: nth_equalityI)
  obtain c iv ws' where t: "thread_write (sp_ops S) (sp_buf S) (sp_il S)
       (set_request_write (8 * j * IO_SIZE) (8 * j) (8 * j) w (w * sp_n S)
          (replicate (sp_izg S) (sp_n S) @ g_past g) (sp_izg S)) (g_c g, g_iv g, g_ws g) = Inr (c, iv, ws')"
     "stripe_inv S (\<lambda>k. if 8 * j \<le> k \<and> k < 8 * j + w then sp_n S else ?q k) c iv ws'"
    using thread_write_stripe [OF S inv _ w past] by auto
  have "(\<lambda>k. if 8 * j \<le> k \<and> k < 8 * j + w then sp_n S else ?q k) = (\<lambda>k. if k < 8 * j + w then sp_n S else 0)"
    by (auto simp: fun_eq_iff)
  with t(2) have "stripe_inv S (\<lambda>k. if k < 8 * j + w then sp_n S else 0) c iv ws'" by simp
  then show ?thesis using t(1) b w g
    by (auto simp: start_thread_def Let_def z [unfolded g] sizes [unfolded g] sum_list_replicate u32_id
          u32_sub_id distrib_right)
qed

text \<open>The split of a write of \<open>n\<close> whole stripes over a single group.\<close>

lemma split_sizes_even:
  assumes izg: "0 < izg" "izg * IO_BLOCKS < 4294967296" and ws: "length ws = izg"
  shows "split_sizes izg 1 ws (n * izg * IO_BLOCKS) = Inr (replicate izg n)"
proof -
  have dm: "n * izg * IO_BLOCKS div (izg * IO_BLOCKS) = n" "n * izg * IO_BLOCKS mod (izg * IO_BLOCKS) = 0"
    using izg(1) by (simp_all add: mult.assoc)
  let ?f = "\<lambda>j (ws, it). ebind (vec_set ws it n) (\<lambda>ws'. Inr (ws', it + 1))"
  have "\<exists>s'. efor 0 izg ?f (ws, 0) = Inr s' \<and>
     (\<lambda>(ws', it). it = 0 + izg \<and> length ws' = izg \<and> (\<forall>k < it. ws' ! k = n)) s'"
    by (rule efor_rule [of "\<lambda>j (ws', it). it = j \<and> length ws' = izg \<and> (\<forall>k < it. ws' ! k = n)"])
      (use ws in \<open>auto simp: nth_list_update\<close>)
  then obtain ws' where "efor 0 izg ?f (ws, 0) = Inr (ws', izg)" "length ws' = izg" "\<forall>k < izg. ws' ! k = n"
    by auto
  moreover from this have "ws' = replicate izg n" by (auto intro: nth_equalityI)
  ultimately show ?thesis
    using izg by (simp add: split_sizes_def split_group_def Let_def u32_id dm)
qed

lemma partial_sort_copy_even:
  "partial_sort_copy (replicate izg n) (replicate izg 0) = replicate izg n"
proof -
  have "sort (replicate izg n) = replicate izg n" by (rule sorted_sort_id) simp
  then show ?thesis by (simp add: partial_sort_copy_def)
qed

lemma ceil_div_8: "n \<le> 8 * ceil_div n 8 \<and> (j < ceil_div n 8 \<longrightarrow> 8 * j < n)"
proof -
  obtain d m where dm: "n div 8 = d" "n mod 8 = m" by blast
  have n: "n = 8 * d + m" using mult_div_mod_eq [of 8 n] by (simp only: dm)
  show ?thesis unfolding ceil_div_def dm n using mod_less_divisor [of 8 n, unfolded dm] by auto
qed

lemma write_group_stripe:
  fixes S :: "'d stripe"
  assumes S: "stripe_ok S" and past: "\<exists>x \<in> set past. x \<noteq> sp_n S"
    and g: "g = \<lparr>g_c = sp_c0 S, g_iv = sp_iv0 S, g_ws = replicate (sp_izg S) (sp_n S), g_it = 0, g_wsi = 0,
                    g_left = sp_izg S, g_buf = 0, g_tmp = 0, g_total = 0,
                    g_sorted = replicate (sp_izg S) 0, g_past = past\<rparr>"
  shows "\<exists>g'. write_group (sp_ops S) (sp_buf S) (sp_il S) (sp_izg S) (ceil_div (sp_izg S) 8) i g = Inr g'
     \<and> stripe_inv S (\<lambda>_. sp_n S) (g_c g') (g_iv g') (g_ws g')"
proof -
  let ?a = "\<lambda>j. min (sp_izg S) (8 * j)"
  let ?I = "\<lambda>j (g'::'d gstate). stripe_inv S (\<lambda>k. if k < ?a j then sp_n S else 0) (g_c g') (g_iv g') (g_ws g')
     \<and> g_it g' = ?a j \<and> g_wsi g' = ?a j \<and> g_left g' = sp_izg S - ?a j \<and> g_tmp g' = ?a j * IO_SIZE
     \<and> g_sorted g' = replicate (sp_izg S) (sp_n S) \<and> g_past g' = past"
  let ?th = "ceil_div (sp_izg S) 8"
  have "\<exists>g'. efor 0 ?th (start_thread (sp_ops S) (sp_buf S) (sp_il S) (sp_izg S))
        (g\<lparr>g_tmp := 0, g_total := 0, g_sorted := replicate (sp_izg S) (sp_n S)\<rparr>) = Inr g' \<and> ?I (0 + ?th) g'"
  proof (rule efor_rule [of ?I])
    show "?I 0 (g\<lparr>g_tmp := 0, g_total := 0, g_sorted := replicate (sp_izg S) (sp_n S)\<rparr>)"
      using stripe_inv_init [OF S] by (simp add: g)
    fix j t assume "j < 0 + ?th" and I: "?I j t"
    then have j: "8 * j < sp_izg S" using ceil_div_8 [of "sp_izg S" j] by simp
    let ?w = "min 8 (sp_izg S - 8 * j)"
    have e: "?a j = 8 * j" "8 * j + ?w = ?a (Suc j)" using j by auto
    have "\<exists>x \<in> set (g_past t). x \<noteq> sp_n S" using I past by simp
    from start_thread_stripe [OF S this j _ _ _ _ _, unfolded e(2)] I [unfolded e(1)]
    obtain c iv ws where t: "start_thread (sp_ops S) (sp_buf S) (sp_il S) (sp_izg S) j t =
       Inr (t\<lparr>g_c := c, g_iv := iv, g_ws := ws, g_total := u32 (g_total t + ?w * sp_n S),
              g_tmp := ?a (Suc j) * IO_SIZE, g_it := ?a (Suc j), g_wsi := ?a (Suc j),
              g_left := sp_izg S - ?a (Suc j)\<rparr>)"
      "stripe_inv S (\<lambda>k. if k < ?a (Suc j) then sp_n S else 0) c iv ws" by blast
    show "\<exists>t'. start_thread (sp_ops S) (sp_buf S) (sp_il S) (sp_izg S) j t = Inr t' \<and> ?I (Suc j) t'"
      unfolding t(1) using t(2) I by (simp del: mult_Suc_right)
  qed
  then obtain g1 where g1: "efor 0 ?th (start_thread (sp_ops S) (sp_buf S) (sp_il S) (sp_izg S))
        (g\<lparr>g_tmp := 0, g_total := 0, g_sorted := replicate (sp_izg S) (sp_n S)\<rparr>) = Inr g1"
     "stripe_inv S (\<lambda>k. if k < ?a ?th then sp_n S else 0) (g_c g1) (g_iv g1) (g_ws g1)" by auto
  have "?a ?th = sp_izg S" using ceil_div_8 [of "sp_izg S"] by simp
  with g1(2) have "stripe_inv S (\<lambda>_. sp_n S) (g_c g1) (g_iv g1) (g_ws g1)"
    by (simp add: stripe_inv_def)
  moreover have "write_group (sp_ops S) (sp_buf S) (sp_il S) (sp_izg S) ?th i g =
      Inr (g1\<lparr>g_past := g_sorted g1 @ g_past g1, g_sorted := [],
              g_buf := g_buf g1 + u32 (g_total g1 * IO_SIZE)\<rparr>)"
    using g1(1) by (simp add: write_group_def g mem_read_def partial_sort_copy_even)
  ultimately show ?thesis by (intro exI conjI) (assumption, simp)
qed
text \<open>The whole write.\<close>

lemma izg_write_stripe:
  fixes S :: "'d stripe"
  assumes S: "stripe_ok S" and past: "\<exists>x \<in> set past. x \<noteq> sp_n S" and ws: "length ws = sp_izg S"
  shows "\<exists>c iv ws'. izg_write (sp_ops S) past (sp_buf S) (sp_izg S) (sp_izg S) (sp_il S) ws
       (sp_n S * sp_izg S * IO_BLOCKS) (sp_c0 S, sp_iv0 S) = Inr (0, c, iv)
     \<and> stripe_inv S (\<lambda>_. sp_n S) c iv ws'"
proof -
  have n: "0 < sp_izg S" "0 < sp_n S" "length (sp_il S) = sp_izg S" using stripe_okD [OF S] by simp_all
  have "1 * sp_izg S * IO_BLOCKS \<le> sp_n S * sp_izg S * IO_SIZE"
    using n(2) by (intro mult_le_mono) (simp_all add: Suc_le_eq IO_SIZE_def IO_BLOCKS_def)
  from le_less_trans [OF this stripe_okD(7) [OF S]] have b: "sp_izg S * IO_BLOCKS < 4294967296" by simp
  have "ceil_div (sp_izg S) (sp_izg S) = 1" using n by (simp add: ceil_div_def)
  then show ?thesis
    using write_group_stripe [OF S past refl, of 0] n split_sizes_even [OF n(1) b ws]
    by (simp add: izg_write_def Let_def ws THREAD_PER_IZG_def ebind_Inr_iff) blast
qed
end
