(* ===== verification/Zone_Read.thy ===== *)
theory Zone_Read
  imports Zone_Write
begin

text \<open>
  The read path of \<^verbatim>\<open>src/util/zoad/Zone.cpp\<close>: the thread that reads one interval into
  every \<open>n\<close>-th unit of a buffer, its variant that starts at an offset and stops after a
  number of units, and the two \<^verbatim>\<open>izg_read\<close> functions that deal a segment over threads.
  A caller's buffer is a position in a memory. The threads of a group write disjoint units
  of it and run one after the other.
\<close>

section \<open>The read threads\<close>

text \<open>
  A read request keeps the sorted sizes of the zones in \<open>rq_sorted\<close>, whichever of the two
  iterators of the request points at them.
\<close>

definition set_request_read :: "nat \<Rightarrow> nat \<Rightarrow> nat \<Rightarrow> nat \<Rightarrow> nat list \<Rightarrow> zone_request" where
  "set_request_read buf interval_it read_zone_cnt total_read_size size_it =
     \<lparr>rq_buf = buf, rq_interval_it = interval_it, rq_read_offset = 0, rq_write_size_it = 0,
      rq_sorted = size_it, rq_write_zone_cnt = read_zone_cnt,
      rq_total_write_size = total_read_size, rq_izg_cnt = 0, rq_actual_io_size = 0\<rparr>"

definition set_request_random ::
  "nat \<Rightarrow> nat \<Rightarrow> nat \<Rightarrow> nat \<Rightarrow> nat \<Rightarrow> nat list \<Rightarrow> nat \<Rightarrow> zone_request" where
  "set_request_random buf interval_it read_zone_cnt read_offset total_read_size sorted_it actual_read_size =
     \<lparr>rq_buf = buf, rq_interval_it = interval_it, rq_read_offset = read_offset, rq_write_size_it = 0,
      rq_sorted = sorted_it, rq_write_zone_cnt = read_zone_cnt,
      rq_total_write_size = total_read_size, rq_izg_cnt = 0, rq_actual_io_size = actual_read_size\<rparr>"

record rstate =
  r_mem :: "byte list"
  r_pos :: nat
  r_total2 :: nat
  r_start :: nat
  r_cnt :: nat
  r_cnt2 :: nat
  r_zone_cnt :: nat
  r_min :: "nat list"
  r_actual :: nat

definition start_rstate :: "zone_request \<Rightarrow> Interval \<Rightarrow> byte list \<Rightarrow> rstate" where
  "start_rstate req t mem =
     \<lparr>r_mem = mem, r_pos = rq_buf req, r_total2 = 0, r_start = iv_start t, r_cnt = 0, r_cnt2 = 0,
      r_zone_cnt = rq_write_zone_cnt req, r_min = rq_sorted req, r_actual = 0\<rparr>"

text \<open>\<^verbatim>\<open>while(cnt == *read_min_size_it)\<close>, left after \<open>limit\<close> zones.\<close>

fun skip_read :: "nat \<Rightarrow> nat \<Rightarrow> nat list \<Rightarrow> nat \<Rightarrow> nat \<Rightarrow> (nat \<times> nat \<times> nat list) res" where
  "skip_read limit cnt [] zone_cnt cnt2 = Inl (OutOfBounds ''read_min_size'')"
| "skip_read limit cnt (x # xs) zone_cnt cnt2 =
     (if cnt = x then
        if limit \<le> u32 (cnt2 + 1) then Inr (u32_sub zone_cnt 1, u32 (cnt2 + 1), xs)
        else skip_read limit cnt xs (u32_sub zone_cnt 1) (u32 (cnt2 + 1))
      else Inr (zone_cnt, cnt2, x # xs))"

definition read_round ::
  "'d nvme_ops \<Rightarrow> 'd ctrl \<Rightarrow> Interval \<Rightarrow> zone_request \<Rightarrow> rstate \<Rightarrow> rstate res" where
  "read_round ops c t req s =
     ebind (skip_read (rq_write_zone_cnt req) (r_cnt s) (r_min s) (r_zone_cnt s) (r_cnt2 s))
       (\<lambda>(zone_cnt, cnt2, rest).
       if r_start s < iv_end t then
         ebind (zns_read ops (r_mem s) (r_pos s) IO_SIZE (iv_zone_number t) (r_start s) c) (\<lambda>(_, mem).
           Inr (s\<lparr>r_mem := mem, r_pos := r_pos s + u32 (IO_SIZE * zone_cnt),
                  r_total2 := u32 (r_total2 s + IO_SIZE), r_start := u32 (r_start s + IO_BLOCKS),
                  r_cnt := u32 (r_cnt s + 1), r_zone_cnt := zone_cnt, r_cnt2 := cnt2, r_min := rest\<rparr>))
       else Inr (s\<lparr>r_zone_cnt := zone_cnt, r_cnt2 := cnt2, r_min := rest\<rparr>))"

text \<open>
  Every round of a loop that goes on reads one unit; once \<^verbatim>\<open>start\<close> has reached
  \<^verbatim>\<open>end\<close> with data missing, no later round makes progress. So \<open>rq_total_write_size\<close>
  rounds are enough for every run that ends.
\<close>

definition thread_read ::
  "'d nvme_ops \<Rightarrow> Interval list \<Rightarrow> nat list \<Rightarrow> 'd ctrl \<Rightarrow> zone_request \<Rightarrow> byte list \<Rightarrow> byte list res" where
  "thread_read ops iv il c req mem =
     (let total = u32 (rq_total_write_size req * IO_SIZE) in
      if total = 0 then Inr mem
      else
        ebind (vec_at il (rq_interval_it req)) (\<lambda>p.
        ebind (vec_at iv p) (\<lambda>t.
        ebind (ewhile (rq_total_write_size req) ''thread_read'' (\<lambda>s. r_total2 s < total)
                 (read_round ops c t req) (start_rstate req t mem)) (\<lambda>s.
          Inr (r_mem s)))))"

definition random_round ::
  "'d nvme_ops \<Rightarrow> 'd ctrl \<Rightarrow> Interval \<Rightarrow> zone_request \<Rightarrow> rstate \<Rightarrow> rstate res" where
  "random_round ops c t req s =
     ebind (skip_read (rq_write_zone_cnt req) (r_cnt s) (r_min s) (r_zone_cnt s) (r_cnt2 s))
       (\<lambda>(zone_cnt, cnt2, rest).
       let s1 = s\<lparr>r_zone_cnt := zone_cnt, r_cnt2 := cnt2, r_min := rest\<rparr> in
       if r_start s < iv_end t then
         ebind (if rq_read_offset req \<le> r_cnt s then
                  ebind (zns_read ops (r_mem s) (r_pos s) IO_SIZE (iv_zone_number t) (r_start s) c)
                    (\<lambda>(_, mem). Inr (s1\<lparr>r_mem := mem, r_pos := r_pos s + u32 (IO_SIZE * zone_cnt),
                                         r_actual := u32 (r_actual s + 1)\<rparr>))
                else Inr s1) (\<lambda>s2.
           Inr (s2\<lparr>r_total2 := u32 (r_total2 s + IO_SIZE), r_start := u32 (r_start s + IO_BLOCKS),
                   r_cnt := u32 (r_cnt s + 1)\<rparr>))
       else Inr s1)"

definition thread_read_random ::
  "'d nvme_ops \<Rightarrow> Interval list \<Rightarrow> nat list \<Rightarrow> 'd ctrl \<Rightarrow> zone_request \<Rightarrow> byte list \<Rightarrow> byte list res" where
  "thread_read_random ops iv il c req mem =
     (let total = u32 (rq_total_write_size req * IO_SIZE) in
      if total = 0 then Inr mem
      else
        ebind (vec_at il (rq_interval_it req)) (\<lambda>p.
        ebind (vec_at iv p) (\<lambda>t.
        ebind (ewhile (rq_total_write_size req) ''thread_read_random''
                 (\<lambda>s. r_total2 s < total \<and> r_actual s < rq_actual_io_size req)
                 (random_round ops c t req) (start_rstate req t mem)) (\<lambda>s.
          Inr (r_mem s)))))"

section \<open>Reading a segment from its start\<close>

text \<open>The block counts of the next \<open>k\<close> intervals.\<close>

fun interval_sizes :: "Interval list \<Rightarrow> nat list \<Rightarrow> nat \<Rightarrow> nat \<Rightarrow> nat list res" where
  "interval_sizes iv il it 0 = Inr []"
| "interval_sizes iv il it (Suc k) =
     ebind (vec_at il it) (\<lambda>p. ebind (vec_at iv p) (\<lambda>t.
     ebind (interval_sizes iv il (it + 1) k) (\<lambda>xs. Inr (Interval_get_size t # xs))))"

text \<open>One group of \<^verbatim>\<open>izg_read\<close>; \<open>thread_num\<close> is the size of the arrays of threads and requests.\<close>

definition read_group ::
  "'d nvme_ops \<Rightarrow> Interval list \<Rightarrow> nat list \<Rightarrow> 'd ctrl \<Rightarrow> nat \<Rightarrow> nat \<Rightarrow> nat
   \<Rightarrow> byte list \<times> nat \<times> nat \<times> nat \<Rightarrow> (byte list \<times> nat \<times> nat \<times> nat) res" where
  "read_group ops iv il c izg_cnt thread_num i = (\<lambda>(mem, it, left, tmp_buf).
     let read_zone_cnt = (if izg_cnt < left then izg_cnt else left) in
     ebind (interval_sizes iv il it read_zone_cnt) (\<lambda>sizes.
     let total = u32 (sum_list sizes);
         size_vec = map (\<lambda>x. x div IO_BLOCKS) sizes;
         min_vec = sort size_vec in
     ebind (efor 0 read_zone_cnt (\<lambda>k mem.
              if k < thread_num then
                thread_read ops iv il c
                  (set_request_read (tmp_buf + k * IO_SIZE) (it + k) read_zone_cnt (size_vec ! k) min_vec) mem
              else Inl (OutOfBounds ''tmp_req'')) mem) (\<lambda>mem.
       Inr (mem, it + read_zone_cnt, u32_sub left read_zone_cnt, tmp_buf + u32 (total * BLOCK_SIZE)))))"

text \<open>The number of groups: at least one.\<close>

definition read_groups :: "nat \<Rightarrow> nat \<Rightarrow> nat" where
  "read_groups total_target_zone izg_cnt =
     (let n = total_target_zone div izg_cnt
      in if total_target_zone mod izg_cnt \<noteq> 0 \<or> n = 0 then n + 1 else n)"

definition izg_read ::
  "'d nvme_ops \<Rightarrow> 'd ctrl \<Rightarrow> Interval list \<Rightarrow> nat \<Rightarrow> nat \<Rightarrow> nat \<Rightarrow> nat list \<Rightarrow> byte list
   \<Rightarrow> (int \<times> byte list) res" where
  "izg_read ops c iv buf izg_cnt total_target_zone interval_list mem =
     (if izg_cnt = 0 then Inl (DivByZero ''total_target_zone / izg_cnt'')
      else
        let thread_num = (if izg_cnt \<le> total_target_zone then izg_cnt else total_target_zone) in
        ebind (efor 0 (read_groups total_target_zone izg_cnt)
                 (read_group ops iv interval_list c izg_cnt thread_num)
                 (mem, 0, length interval_list, buf)) (\<lambda>(mem, _).
          Inr (0, mem)))"

section \<open>Reading a segment from an offset\<close>

text \<open>
  The arrays indexed by zone have \<open>izg_cnt\<close> entries; \<open>x_stop\<close> is the \<^verbatim>\<open>break\<close> out of
  the loop over the groups.
\<close>

record xstate =
  x_mem :: "byte list"
  x_it :: nat
  x_left :: nat
  x_tmp :: nat
  x_moved :: nat
  x_total :: nat
  x_offset :: nat
  x_size :: nat
  x_toff :: "nat list"
  x_less :: "nat list"
  x_mind :: "nat list"
  x_stop :: bool

fun min_element :: "nat list \<Rightarrow> nat res" where
  "min_element [] = Inl (Undefined ''min_element'')"
| "min_element (x # xs) = Inr (fold min xs x)"

text \<open>
  How many units each zone skips: all zones by the smallest size first (when the offset
  reaches beyond that), the rest of the offset dealt over the zones that are longer than
  the smallest. The blocks skipped are taken from the total.
\<close>

definition skip_first ::
  "nat \<Rightarrow> nat list \<Rightarrow> nat \<Rightarrow> nat \<Rightarrow> nat list \<Rightarrow> (nat list \<times> nat \<times> nat) res" where
  "skip_first read_zone_cnt size_vec min_size tmp_offset toff =
     (if u32 (min_size * read_zone_cnt) < tmp_offset then
        ebind (efor 0 read_zone_cnt (\<lambda>k (toff, full_cnt).
                 Inr (toff[k := u32 (toff ! k + min_size)],
                      if u32_sub (size_vec ! k) min_size = 0 then full_cnt + 1 else full_cnt)) (toff, 0))
          (\<lambda>(toff, full_cnt). Inr (toff, full_cnt, u32_sub tmp_offset (u32 (min_size * read_zone_cnt))))
      else Inr (toff, 0, tmp_offset))"

definition zone_offsets ::
  "nat \<Rightarrow> nat list \<Rightarrow> nat \<Rightarrow> nat list \<Rightarrow> nat \<Rightarrow> (nat list \<times> nat) res" where
  "zone_offsets read_zone_cnt size_vec offset toff actual_total =
     ebind (min_element size_vec) (\<lambda>min_size.
     ebind (skip_first read_zone_cnt size_vec min_size (offset div IO_BLOCKS) toff)
       (\<lambda>(toff, full_cnt, tmp_offset).
       let d = u32_sub read_zone_cnt full_cnt in
       if d = 0 then Inl (DivByZero ''read_zone_cnt - full_cnt'')
       else
         ebind (efor 0 read_zone_cnt (\<lambda>k (toff, remain, actual_total).
                  let longer = u32_sub (size_vec ! k) min_size \<noteq> 0;
                      one = (if longer \<and> 0 < remain then 1 else 0);
                      t = (if longer then u32 (toff ! k + tmp_offset div d + one) else toff ! k)
                  in Inr (toff[k := t], remain - one, u32_sub actual_total (u32 (t * IO_BLOCKS))))
                (toff, tmp_offset mod d, actual_total))
           (\<lambda>(toff, _, actual_total). Inr (toff, actual_total))))"

text \<open>For each zone: how many later zones skip less, and by how little at least.\<close>

definition skip_ranks :: "nat \<Rightarrow> nat list \<Rightarrow> nat list \<Rightarrow> nat list \<Rightarrow> (nat list \<times> nat list) res" where
  "skip_ranks read_zone_cnt toff lsk mind =
     efor 0 read_zone_cnt (\<lambda>i (lsk, mind).
       ebind (efor i (read_zone_cnt - i) (\<lambda>k (lsk, min_diff).
                if toff ! k < toff ! i then
                  Inr (lsk[i := lsk ! i + 1],
                       if toff ! i - toff ! k < min_diff then toff ! i - toff ! k else min_diff)
                else Inr (lsk, min_diff)) (lsk, 99999))
         (\<lambda>(lsk, min_diff). Inr (lsk, mind[i := min_diff]))) (lsk, mind)"

text \<open>
  How many units each zone reads. (The values set while the offsets are dealt are always
  overwritten here.)
\<close>

definition actual_reads :: "nat \<Rightarrow> nat list \<Rightarrow> nat \<Rightarrow> nat \<Rightarrow> (nat list \<times> nat) res" where
  "actual_reads read_zone_cnt size_vec actual_total read_size =
     (if read_size < actual_total then
        let read_io = (if read_size div IO_BLOCKS = 0 \<or> read_size mod IO_BLOCKS \<noteq> 0
                       then read_size div IO_BLOCKS + 1 else read_size div IO_BLOCKS)
        in if read_zone_cnt = 0 then Inl (DivByZero ''read_io / read_zone_cnt'')
           else
             let all_zone_read_io = read_io div read_zone_cnt in
             ebind (efor 0 read_zone_cnt (\<lambda>k (actual, remain, total).
                      let one = (if 0 < remain \<and> 0 < size_vec ! k then 1 else 0);
                          a = all_zone_read_io + one
                      in Inr (actual @ [a], remain - one, u32 (total + u32 (a * IO_BLOCKS))))
                    ([], read_io - all_zone_read_io, 0))
               (\<lambda>(actual, _, total). Inr (actual, total))
      else Inr (size_vec, actual_total))"

text \<open>The threads of one group; \<^verbatim>\<open>moved\<close> counts the zones placed behind later ones.\<close>

definition run_random ::
  "'d nvme_ops \<Rightarrow> Interval list \<Rightarrow> nat list \<Rightarrow> 'd ctrl \<Rightarrow> nat \<Rightarrow> nat \<Rightarrow> nat list \<Rightarrow> nat list
   \<Rightarrow> xstate \<Rightarrow> (byte list \<times> nat) res" where
  "run_random ops iv il c thread_num read_zone_cnt size_vec actual x =
     efor 0 read_zone_cnt (\<lambda>k (mem, moved).
       if k < thread_num then
         let off = (if 0 < x_less x ! k then u32 (u32 (x_mind x ! k * x_less x ! k + moved) * IO_SIZE)
                    else u32 (u32_sub k moved * IO_SIZE));
             moved' = (if 0 < x_less x ! k then moved + 1 else moved)
         in ebind (thread_read_random ops iv il c
                     (set_request_random (x_tmp x + off) (x_it x + k) read_zone_cnt (x_toff x ! k)
                        (size_vec ! k) (sort size_vec) (actual ! k)) mem) (\<lambda>mem.
              Inr (mem, moved'))
       else Inl (OutOfBounds ''tmp_req'')) (x_mem x, x_moved x)"

text \<open>One group of the loop, from the sizes to the threads and the bookkeeping after them.\<close>

definition group_offsets :: "nat \<Rightarrow> nat list \<Rightarrow> nat \<Rightarrow> xstate \<Rightarrow> (xstate \<times> nat) res" where
  "group_offsets read_zone_cnt size_vec actual_total x =
     (if x_offset x < x_total x \<and> 0 < x_offset x then
        ebind (zone_offsets read_zone_cnt size_vec (x_offset x) (x_toff x) actual_total)
          (\<lambda>(toff, actual_total).
        ebind (skip_ranks read_zone_cnt toff (x_less x) (x_mind x)) (\<lambda>(lsk, mind).
          Inr (x\<lparr>x_toff := toff, x_less := lsk, x_mind := mind\<rparr>, actual_total)))
      else Inr (x, actual_total))"

definition group_threads ::
  "'d nvme_ops \<Rightarrow> Interval list \<Rightarrow> nat list \<Rightarrow> 'd ctrl \<Rightarrow> nat \<Rightarrow> nat \<Rightarrow> nat \<Rightarrow> nat list \<Rightarrow> nat
   \<Rightarrow> nat list \<Rightarrow> xstate \<Rightarrow> xstate res" where
  "group_threads ops iv il c izg_cnt thread_num read_zone_cnt size_vec actual_total actual x =
     (if x_offset x < x_total x then
        ebind (run_random ops iv il c thread_num read_zone_cnt size_vec actual x) (\<lambda>(mem, moved).
        let x1 = x\<lparr>x_mem := mem, x_moved := moved, x_it := x_it x + read_zone_cnt,
                   x_tmp := x_tmp x + u32 (actual_total * BLOCK_SIZE),
                   x_size := u32_sub (x_size x) actual_total\<rparr>
        in Inr (if 0 < x_offset x
                then x1\<lparr>x_offset := 0, x_toff := replicate izg_cnt 0,
                        x_mind := replicate izg_cnt 99999, x_less := replicate izg_cnt 0, x_moved := 0\<rparr>
                else x1))
      else Inr (x\<lparr>x_it := x_it x + read_zone_cnt\<rparr>))"

definition random_group ::
  "'d nvme_ops \<Rightarrow> Interval list \<Rightarrow> nat list \<Rightarrow> 'd ctrl \<Rightarrow> nat \<Rightarrow> nat \<Rightarrow> nat \<Rightarrow> xstate \<Rightarrow> xstate res" where
  "random_group ops iv il c izg_cnt thread_num i x =
     (if x_stop x then Inr x
      else
        let read_zone_cnt = (if izg_cnt < x_left x then izg_cnt else x_left x) in
        ebind (interval_sizes iv il (x_it x) read_zone_cnt) (\<lambda>sizes.
        let total = u32 (sum_list sizes);
            size_vec = map (\<lambda>b. b div IO_BLOCKS) sizes in
        ebind (group_offsets read_zone_cnt size_vec total (x\<lparr>x_total := u32 (x_total x + total)\<rparr>))
          (\<lambda>(x1, actual_total).
        ebind (actual_reads read_zone_cnt size_vec actual_total (x_size x1)) (\<lambda>(actual, actual_total).
        ebind (group_threads ops iv il c izg_cnt thread_num read_zone_cnt size_vec actual_total actual x1)
          (\<lambda>x2. Inr (x2\<lparr>x_left := u32_sub (x_left x2) read_zone_cnt,
                         x_stop := (x_size x2 = 0)\<rparr>))))))"

definition izg_read_offset ::
  "'d nvme_ops \<Rightarrow> 'd ctrl \<Rightarrow> Interval list \<Rightarrow> nat \<Rightarrow> nat \<Rightarrow> nat \<Rightarrow> nat list \<Rightarrow> nat \<Rightarrow> nat \<Rightarrow> byte list
   \<Rightarrow> (int \<times> byte list) res" where
  "izg_read_offset ops c iv buf izg_cnt total_target_zone interval_list offset read_size mem =
     (if izg_cnt = 0 then Inl (DivByZero ''total_target_zone / izg_cnt'')
      else
        let thread_num = (if izg_cnt \<le> total_target_zone then izg_cnt else total_target_zone) in
        ebind (efor 0 (read_groups total_target_zone izg_cnt)
                 (random_group ops iv interval_list c izg_cnt thread_num)
                 \<lparr>x_mem = mem, x_it = 0, x_left = length interval_list, x_tmp = buf, x_moved = 0,
                  x_total = 0, x_offset = offset, x_size = read_size, x_toff = replicate izg_cnt 0,
                  x_less = replicate izg_cnt 0, x_mind = replicate izg_cnt 0, x_stop = False\<rparr>) (\<lambda>x.
          Inr (0, x_mem x)))"

section \<open>Filling a buffer unit by unit\<close>

text \<open>
  The memory \<open>b0\<close> with those units of \<open>data\<close> in place, from position \<open>p\<close> on, that are
  among the first \<open>q k\<close> units of their zone \<open>k\<close>.
\<close>

definition filled :: "nat \<Rightarrow> nat \<Rightarrow> byte list \<Rightarrow> (nat \<Rightarrow> nat) \<Rightarrow> byte list \<Rightarrow> byte list" where
  "filled p izg data q b0 = map (\<lambda>i.
     if p \<le> i \<and> i < p + length data \<and> (i - p) div IO_SIZE div izg < q ((i - p) div IO_SIZE mod izg)
     then data ! (i - p) else b0 ! i) [0..<length b0]"

lemma length_filled [simp]: "length (filled p izg data q b0) = length b0"
  by (simp add: filled_def)

lemma filled_none: "filled p izg data (\<lambda>_. 0) b0 = b0"
  by (simp add: filled_def map_nth)

lemma filled_write:
  assumes k: "k < izg" and fit: "Suc (q k * izg + k) * IO_SIZE \<le> length data" "p + length data \<le> length b0"
  shows "mem_write (filled p izg data q b0) (p + (q k * izg + k) * IO_SIZE) (chunk IO_SIZE data (q k * izg + k))
     = Inr (filled p izg data (q(k := Suc (q k))) b0)"
proof -
  let ?m = "q k * izg + k" and ?b = "filled p izg data q b0"
  let ?pos = "p + ?m * IO_SIZE"
  have len: "length (chunk IO_SIZE data ?m) = IO_SIZE" by (rule length_chunk [OF fit(1)])
  have "?pos + IO_SIZE \<le> length ?b" using fit by simp
  then obtain b' where b': "mem_write ?b ?pos (chunk IO_SIZE data ?m) = Inr b'"
    using len by (simp add: mem_write_def)
  have "b' = filled p izg data (q(k := Suc (q k))) b0"
  proof (rule nth_equalityI)
    show "length b' = length (filled p izg data (q(k := Suc (q k))) b0)"
      using mem_write_InrD [OF b'] by simp
    fix i assume "i < length b'"
    then have i: "i < length b0" using mem_write_InrD [OF b'] by simp
    have nth: "b' ! i = (if ?pos \<le> i \<and> i < ?pos + IO_SIZE then chunk IO_SIZE data ?m ! (i - ?pos) else ?b ! i)"
      using nth_mem_write [OF b', of i] i len by simp
    let ?j = "(i - p) div IO_SIZE"
    have dm: "?m div izg = q k" "?m mod izg = k" using k by simp_all
    show "b' ! i = filled p izg data (q(k := Suc (q k))) b0 ! i"
    proof (cases "?pos \<le> i \<and> i < ?pos + IO_SIZE")
      case True
      have "?m * IO_SIZE \<le> i - p" "i - p < ?m * IO_SIZE + IO_SIZE" using True by linarith+
      then have j: "?j = ?m" by (intro div_nat_eqI) (simp_all only: mult_Suc_right mult.commute add.commute)
      have "chunk IO_SIZE data ?m ! (i - ?pos) = data ! (?m * IO_SIZE + (i - ?pos))"
        using True by (intro nth_chunk [OF fit(1)]) linarith
      also have "?m * IO_SIZE + (i - ?pos) = i - p" using True by simp
      finally have "b' ! i = data ! (i - p)" using nth True by simp
      moreover have "i < p + length data" using True fit(1) by simp
      ultimately show ?thesis using True i k by (simp add: filled_def j dm)
    next
      case False
      have "?j = ?m \<Longrightarrow> p \<le> i \<Longrightarrow> False"
      proof -
        assume "?j = ?m" "p \<le> i"
        then have "i - p = ?m * IO_SIZE + (i - p) mod IO_SIZE" "(i - p) mod IO_SIZE < IO_SIZE"
          using div_mult_mod_eq [of "i - p" IO_SIZE] by simp_all
        then show False using False \<open>p \<le> i\<close> by linarith
      qed
      moreover have "?j mod izg = k \<Longrightarrow> ?j div izg = q k \<Longrightarrow> ?j = ?m"
        by (metis div_mult_mod_eq)
      ultimately have "p \<le> i \<Longrightarrow> ?j mod izg = k \<Longrightarrow> ?j div izg \<noteq> q k" by blast
      then show ?thesis using nth False i by (auto simp: filled_def)
    qed
  qed
  with b' show ?thesis by simp
qed

lemma filled_all:
  assumes "length data = n * izg * IO_SIZE" "p + length data \<le> length b0" "0 < izg"
    and q: "\<And>k. k < izg \<Longrightarrow> q k = n"
  shows "mem_write b0 p data = Inr (filled p izg data q b0)"
proof -
  obtain b' where b': "mem_write b0 p data = Inr b'" using assms(2) by (simp add: mem_write_def)
  have "b' = filled p izg data q b0"
  proof (rule nth_equalityI)
    show "length b' = length (filled p izg data q b0)" using mem_write_InrD [OF b'] by simp
    fix i assume "i < length b'"
    then have i: "i < length b0" using mem_write_InrD [OF b'] by simp
    have "(i - p) div IO_SIZE div izg < q ((i - p) div IO_SIZE mod izg)" if "p \<le> i" "i < p + length data"
    proof -
      have "i - p < n * izg * IO_SIZE" using that assms(1) by simp
      then have "(i - p) div IO_SIZE < n * izg" by (rule less_mult_imp_div_less)
      then have "(i - p) div IO_SIZE div izg < n" by (rule less_mult_imp_div_less)
      then show ?thesis using q assms(3) by simp
    qed
    then show "b' ! i = filled p izg data q b0 ! i"
      using nth_mem_write [OF b' i] i by (auto simp: filled_def)
  qed
  with b' show ?thesis by simp
qed

section \<open>Segments that are striped evenly\<close>

text \<open>
  The intervals \<open>il\<close> hold \<open>data\<close>, \<open>n\<close> units each, unit \<open>r\<close> of interval \<open>k\<close> being chunk
  \<open>r * izg + k\<close>; \<open>lim\<close> is the size of the namespace in blocks.
\<close>

definition striped ::
  "(nat \<Rightarrow> byte) \<Rightarrow> nat \<Rightarrow> Interval list \<Rightarrow> nat list \<Rightarrow> nat \<Rightarrow> nat \<Rightarrow> byte list \<Rightarrow> bool" where
  "striped m lim iv il izg n data \<longleftrightarrow>
     0 < izg \<and> 0 < n \<and> length il = izg \<and> length data = n * izg * IO_SIZE
     \<and> n * izg * IO_SIZE < 2 ^ 32 \<and> lim < 2 ^ 32
     \<and> (\<forall>k < izg. il ! k < length iv
          \<and> iv_end (iv ! (il ! k)) = iv_start (iv ! (il ! k)) + n * IO_BLOCKS
          \<and> iv_end (iv ! (il ! k)) \<le> lim
          \<and> (\<forall>r < n. range_of m ((iv_start (iv ! (il ! k)) + r * IO_BLOCKS) * BLOCK_SIZE) IO_SIZE
               = chunk IO_SIZE data (r * izg + k)))"

lemma stripedD:
  assumes "striped m lim iv il izg n data"
  shows "0 < izg" "0 < n" "length il = izg" "length data = n * izg * IO_SIZE"
    "n * izg * IO_SIZE < 4294967296" "lim < 4294967296"
    "\<And>k. k < izg \<Longrightarrow> il ! k < length iv"
    "\<And>k. k < izg \<Longrightarrow> iv_end (iv ! (il ! k)) = iv_start (iv ! (il ! k)) + n * IO_BLOCKS"
    "\<And>k. k < izg \<Longrightarrow> iv_end (iv ! (il ! k)) \<le> lim"
    "\<And>k r. k < izg \<Longrightarrow> r < n \<Longrightarrow>
       range_of m ((iv_start (iv ! (il ! k)) + r * IO_BLOCKS) * BLOCK_SIZE) IO_SIZE
       = chunk IO_SIZE data (r * izg + k)"
  using assms unfolding striped_def by auto

lemma striped_bounds:
  assumes "striped m lim iv il izg n data" "x \<le> n" "y \<le> izg" "v \<le> IO_SIZE"
  shows "x * y * v < 4294967296"
  using mult_le_mono [OF mult_le_mono [OF assms(2,3)] assms(4)] stripedD(5) [OF assms(1)] by linarith

text \<open>One unit read from the device.\<close>

lemma unit_read:
  assumes ok: "nvme_ok ops media hwp zsz nz" and sync: "dev_sync hwp zsz nz c"
    and st: "striped (media (c_dev c)) (nz * zsz) iv il izg n data"
    and k: "k < izg" and r: "q k = r" "r < n" and fit: "p + length data \<le> length mem"
  shows "zns_read ops (filled p izg data q mem) (p + (r * izg + k) * IO_SIZE) IO_SIZE
           (iv_zone_number (iv ! (il ! k))) (iv_start (iv ! (il ! k)) + r * IO_BLOCKS) c
     = Inr (0, filled p izg data (q(k := Suc r)) mem)"
proof -
  let ?t = "iv ! (il ! k)"
  note s = stripedD [OF st]
  have "Suc r * IO_BLOCKS \<le> n * IO_BLOCKS" using r by (intro mult_le_mono1) simp
  then have lba: "iv_start ?t + r * IO_BLOCKS + IO_BLOCKS \<le> nz * zsz"
    using s(8,9) [OF k] by simp
  have "r * izg + k < n * izg"
  proof -
    have "Suc r * izg \<le> n * izg" using r by (intro mult_le_mono1) simp
    then show ?thesis using k by simp
  qed
  then have "Suc (r * izg + k) * IO_SIZE \<le> n * izg * IO_SIZE" by (intro mult_le_mono1) simp
  then have c: "Suc (q k * izg + k) * IO_SIZE \<le> length data" using s(4) r by simp
  then have "p + (r * izg + k) * IO_SIZE + IO_SIZE \<le> length (filled p izg data q mem)"
    using fit r by simp
  from zns_read_media [OF ok sync lba this, of "iv_zone_number ?t"] filled_write [of k izg q data p mem, OF k c fit] s(10) [OF k r(2)]
  show ?thesis using r by auto
qed

text \<open>The state of a thread that has read \<open>r\<close> units of interval \<open>k\<close>.\<close>

definition reading ::
  "nat \<Rightarrow> nat \<Rightarrow> nat \<Rightarrow> byte list \<Rightarrow> (nat \<Rightarrow> nat) \<Rightarrow> byte list \<Rightarrow> Interval \<Rightarrow> nat \<Rightarrow> nat \<Rightarrow> rstate \<Rightarrow> bool" where
  "reading p izg n data q mem t k r s \<longleftrightarrow>
     r_mem s = filled p izg data (q(k := r)) mem \<and> r_pos s = p + (r * izg + k) * IO_SIZE
     \<and> r_total2 s = r * IO_SIZE \<and> r_start s = iv_start t + r * IO_BLOCKS \<and> r_cnt s = r
     \<and> r_zone_cnt s = izg \<and> r_min s = replicate izg n"

lemma skip_read_stay: "cnt \<noteq> n \<Longrightarrow> 0 < m \<Longrightarrow>
   skip_read limit cnt (replicate m n) zone_cnt cnt2 = Inr (zone_cnt, cnt2, replicate m n)"
  by (cases m) auto

lemma read_steps:
  assumes ok: "nvme_ok ops media hwp zsz nz" and sync: "dev_sync hwp zsz nz c"
    and st: "striped (media (c_dev c)) (nz * zsz) iv il izg n data"
    and k: "k < izg" and r: "r < n" and fit: "p + length data \<le> length mem"
    and R: "reading p izg n data q mem (iv ! (il ! k)) k r s"
    and req: "rq_write_zone_cnt req = izg" "rq_read_offset req = 0"
  shows "\<exists>s'. read_round ops c (iv ! (il ! k)) req s = Inr s'
      \<and> reading p izg n data q mem (iv ! (il ! k)) k (Suc r) s'"
    and "\<exists>s'. random_round ops c (iv ! (il ! k)) req s = Inr s'
      \<and> reading p izg n data q mem (iv ! (il ! k)) k (Suc r) s' \<and> r_actual s' = u32 (r_actual s + 1)"
proof -
  let ?t = "iv ! (il ! k)"
  note sd = stripedD [OF st] and R = R [unfolded reading_def]
  have read: "zns_read ops (r_mem s) (r_pos s) IO_SIZE (iv_zone_number ?t) (r_start s) c
     = Inr (0, filled p izg data (q(k := Suc r)) mem)"
    using unit_read [OF ok sync st k _ r fit, of "q(k := r)"] R by simp
  have sk: "skip_read izg r (replicate izg n) izg (r_cnt2 s) = Inr (izg, r_cnt2 s, replicate izg n)"
    using r sd(1) by (simp add: skip_read_stay)
  have m: "Suc r * IO_BLOCKS \<le> n * IO_BLOCKS" using r by (intro mult_le_mono1) simp
  have "1 * izg * IO_SIZE < 4294967296" "Suc r * 1 * IO_SIZE < 4294967296" "Suc r * 1 * 1 < 4294967296"
    using sd(1) r by (intro striped_bounds [OF st]; simp add: Suc_le_eq)+
  then have u: "u32 (IO_SIZE * izg) = IO_SIZE * izg" "u32 (r * IO_SIZE + IO_SIZE) = Suc r * IO_SIZE"
    "u32 (r + 1) = Suc r" "u32 (iv_start ?t + r * IO_BLOCKS + IO_BLOCKS) = iv_start ?t + Suc r * IO_BLOCKS"
    using m sd(6) sd(8,9) [OF k] by (auto simp: u32_id mult.commute add.commute intro!: u32_id)
  have lt: "iv_start ?t + r * IO_BLOCKS < iv_end ?t" using r sd(8) [OF k] by simp
  have pos: "p + (r * izg + k) * IO_SIZE + IO_SIZE * izg = p + (Suc r * izg + k) * IO_SIZE"
    by (simp add: algebra_simps)
  show "\<exists>s'. read_round ops c ?t req s = Inr s' \<and> reading p izg n data q mem ?t k (Suc r) s'"
    using R read sk u lt pos req unfolding read_round_def reading_def by simp
  show "\<exists>s'. random_round ops c ?t req s = Inr s' \<and> reading p izg n data q mem ?t k (Suc r) s'
     \<and> r_actual s' = u32 (r_actual s + 1)"
    using R read sk u lt pos req unfolding random_round_def reading_def by simp
qed

lemma thread_read_striped:
  assumes ok: "nvme_ok ops media hwp zsz nz" and sync: "dev_sync hwp zsz nz c"
    and st: "striped (media (c_dev c)) (nz * zsz) iv il izg n data"
    and k: "k < izg" and q: "q k = 0" and fit: "p + length data \<le> length mem"
  shows "thread_read ops iv il c (set_request_read (p + k * IO_SIZE) k izg n (replicate izg n))
           (filled p izg data q mem) = Inr (filled p izg data (q(k := n)) mem)"
proof -
  let ?t = "iv ! (il ! k)"
  let ?R = "reading p izg n data q mem ?t k"
  note sd = stripedD [OF st]
  have tot: "n * IO_SIZE < 4294967296" "n < 4294967296"
    using striped_bounds [OF st, of n 1 IO_SIZE] striped_bounds [OF st, of n 1 1] sd(1) by (simp_all add: Suc_le_eq)
  have q0: "q(k := 0) = q" using q by auto
  let ?q1 = "set_request_read (p + k * IO_SIZE) k izg n (replicate izg n)"
  have R0: "?R 0 (start_rstate ?q1 ?t (filled p izg data q mem))"
    by (simp add: reading_def start_rstate_def set_request_read_def q0)
  have "\<exists>s'. ewhile n ''thread_read'' (\<lambda>s. r_total2 s < n * IO_SIZE) (read_round ops c ?t ?q1)
       (start_rstate ?q1 ?t (filled p izg data q mem)) = Inr s' \<and> (\<exists>r \<le> n. ?R r s') \<and> \<not> r_total2 s' < n * IO_SIZE"
  proof (rule ewhile_rule [of "\<lambda>s. \<exists>r \<le> n. ?R r s" _ "\<lambda>s. n - r_cnt s"])
    show "\<exists>r \<le> n. ?R r (start_rstate ?q1 ?t (filled p izg data q mem))" using R0 by blast
    fix s assume "\<exists>r \<le> n. ?R r s" and b: "r_total2 s < n * IO_SIZE"
    then obtain r where r: "r < n" "?R r s" by (auto simp: reading_def)
    from read_steps(1) [OF ok sync st k r(1) fit r(2), of ?q1]
    show "\<exists>s'. read_round ops c ?t ?q1 s = Inr s' \<and> (\<exists>r \<le> n. ?R r s') \<and> n - r_cnt s' < n - r_cnt s"
      using r by (auto simp: set_request_read_def reading_def intro!: exI [of _ "Suc r"])
  qed simp
  then show "thread_read ops iv il c ?q1 (filled p izg data q mem) = Inr (filled p izg data (q(k := n)) mem)"
    using tot sd(2,3) sd(7) [OF k] k
    by (auto simp: thread_read_def Let_def u32_id set_request_read_def reading_def dest!: antisym)
qed

lemma thread_read_random_striped:
  assumes ok: "nvme_ok ops media hwp zsz nz" and sync: "dev_sync hwp zsz nz c"
    and st: "striped (media (c_dev c)) (nz * zsz) iv il izg n data"
    and k: "k < izg" and q: "q k = 0" and fit: "p + length data \<le> length mem"
  shows "thread_read_random ops iv il c
           (set_request_random (p + k * IO_SIZE) k izg 0 n (replicate izg n) n)
           (filled p izg data q mem) = Inr (filled p izg data (q(k := n)) mem)"
proof -
  let ?t = "iv ! (il ! k)"
  let ?R = "reading p izg n data q mem ?t k"
  note sd = stripedD [OF st]
  have tot: "n * IO_SIZE < 4294967296" "n < 4294967296"
    using striped_bounds [OF st, of n 1 IO_SIZE] striped_bounds [OF st, of n 1 1] sd(1) by (simp_all add: Suc_le_eq)
  have q0: "q(k := 0) = q" using q by auto
  let ?q2 = "set_request_random (p + k * IO_SIZE) k izg 0 n (replicate izg n) n"
  have R0: "?R 0 (start_rstate ?q2 ?t (filled p izg data q mem))"
    by (simp add: reading_def start_rstate_def set_request_random_def q0)
  have "\<exists>s'. ewhile n ''thread_read_random'' (\<lambda>s. r_total2 s < n * IO_SIZE \<and> r_actual s < n)
       (random_round ops c ?t ?q2) (start_rstate ?q2 ?t (filled p izg data q mem)) = Inr s'
       \<and> (\<exists>r \<le> n. ?R r s' \<and> r_actual s' = r) \<and> \<not> (r_total2 s' < n * IO_SIZE \<and> r_actual s' < n)"
  proof (rule ewhile_rule [of "\<lambda>s. \<exists>r \<le> n. ?R r s \<and> r_actual s = r" _ "\<lambda>s. n - r_cnt s"])
    show "\<exists>r \<le> n. ?R r (start_rstate ?q2 ?t (filled p izg data q mem))
       \<and> r_actual (start_rstate ?q2 ?t (filled p izg data q mem)) = r"
      using R0 by (intro exI [of _ 0]) (simp add: start_rstate_def)
    fix s assume "\<exists>r \<le> n. ?R r s \<and> r_actual s = r" and b: "r_total2 s < n * IO_SIZE \<and> r_actual s < n"
    then obtain r where r: "r < n" "?R r s" "r_actual s = r" by (auto simp: reading_def)
    from read_steps(2) [OF ok sync st k r(1) fit r(2), of ?q2]
    show "\<exists>s'. random_round ops c ?t ?q2 s = Inr s' \<and> (\<exists>r \<le> n. ?R r s' \<and> r_actual s' = r)
        \<and> n - r_cnt s' < n - r_cnt s"
      using r tot(2) by (auto simp: set_request_random_def reading_def u32_id intro!: exI [of _ "Suc r"])
  qed simp
  then show "thread_read_random ops iv il c ?q2 (filled p izg data q mem) = Inr (filled p izg data (q(k := n)) mem)"
    using tot sd(2,3) sd(7) [OF k] k
    by (auto simp: thread_read_random_def Let_def u32_id set_request_random_def reading_def dest!: antisym)
qed

lemma interval_sizes_striped:
  assumes st: "striped m lim iv il izg n data"
  shows "it + j \<le> izg \<Longrightarrow> interval_sizes iv il it j = Inr (replicate j (n * IO_BLOCKS))"
proof (induction j arbitrary: it)
  case 0
  then show ?case by simp
next
  case (Suc j)
  note sd = stripedD [OF st]
  have it: "it < izg" using Suc.prems by simp
  have "iv_end (iv ! (il ! it)) < 4294967296" using sd(6) sd(9) [OF it] by simp
  then have "Interval_get_size (iv ! (il ! it)) = n * IO_BLOCKS"
    using sd(2) sd(8) [OF it] by (simp add: Interval_get_size_def u32_sub_id)
  then show ?case using Suc it sd(3) sd(7) [OF it] by simp
qed

text \<open>Both reads of an evenly striped segment put its data into the buffer.\<close>

lemma izg_read_striped:
  assumes ok: "nvme_ok ops media hwp zsz nz" and sync: "dev_sync hwp zsz nz c"
    and st: "striped (media (c_dev c)) (nz * zsz) iv il izg n data"
    and fit: "p + length data \<le> length mem"
  shows "\<exists>mem'. izg_read ops c iv p izg izg il mem = Inr (0, mem') \<and> mem_write mem p data = Inr mem'"
proof -
  note sd = stripedD [OF st]
  let ?q = "\<lambda>j k. if k < j then n else 0"
  let ?f = "\<lambda>k mem. if k < izg then thread_read ops iv il c
      (set_request_read (p + k * IO_SIZE) (0 + k) izg (replicate izg n ! k) (replicate izg n)) mem
      else Inl (OutOfBounds ''tmp_req'')"
  have "\<exists>m'. efor 0 izg ?f mem = Inr m' \<and> m' = filled p izg data (?q (0 + izg)) mem"
  proof (rule efor_rule [of "\<lambda>j m'. m' = filled p izg data (?q j) mem"])
    show "mem = filled p izg data (?q 0) mem" by (simp add: filled_none)
    fix k m' assume k: "k < 0 + izg" and m': "m' = filled p izg data (?q k) mem"
    have "(?q k)(k := n) = ?q (Suc k)" by auto
    with thread_read_striped [OF ok sync st _ _ fit, of k "?q k"] k m'
    show "\<exists>t'. ?f k m' = Inr t' \<and> t' = filled p izg data (?q (Suc k)) mem" by simp
  qed
  moreover have "sort (replicate izg n) = replicate izg n" by (rule sorted_sort_id) simp
  moreover have "mem_write mem p data = Inr (filled p izg data (?q izg) mem)"
    by (rule filled_all [OF sd(4) fit sd(1)]) simp
  ultimately show ?thesis
    using sd(1,3) interval_sizes_striped [OF st, of 0 izg]
    by (simp add: izg_read_def read_groups_def Let_def read_group_def cong: if_cong)
qed

text \<open>An offset into an evenly striped segment skips nothing.\<close>

lemma zone_offsets_striped:
  assumes st: "striped m lim iv il izg n data" and off: "off < n * izg * IO_BLOCKS" and tot: "tot < 4294967296"
  shows "zone_offsets izg (replicate izg n) off (replicate izg 0) tot = Inr (replicate izg 0, tot)"
proof -
  note sd = stripedD [OF st]
  have m: "min_element (replicate izg n) = Inr n"
  proof -
    have "fold min (replicate j n) n = n" for j by (induction j) simp_all
    then show ?thesis using sd(1) by (cases izg) simp_all
  qed
  have o: "\<not> n * izg < off div IO_BLOCKS" using off less_mult_imp_div_less [of off "n * izg" IO_BLOCKS] by simp
  have b: "n * izg < 4294967296" "izg < 4294967296" "n < 4294967296"
    using striped_bounds [OF st, of n izg 1] striped_bounds [OF st, of 1 izg 1] striped_bounds [OF st, of n 1 1] sd(1,2)
    by (simp_all add: Suc_le_eq)
  have s: "skip_first izg (replicate izg n) n (off div IO_BLOCKS) (replicate izg 0)
     = Inr (replicate izg 0, 0, off div IO_BLOCKS)"
    using o b by (simp add: skip_first_def u32_id)
  show ?thesis unfolding zone_offsets_def m s ebind.simps
    using sd(1) b tot by (auto simp: Let_def u32_id u32_sub_id efor_idle)
qed

lemma skip_ranks_zero:
  "\<exists>mind'. skip_ranks izg (replicate izg 0) (replicate izg 0) mind = Inr (replicate izg 0, mind')"
proof -
  have "\<exists>s'. skip_ranks izg (replicate izg 0) (replicate izg 0) mind = Inr s' \<and> fst s' = replicate izg 0"
    unfolding skip_ranks_def
    by (rule efor_rule [of "\<lambda>j s. fst s = replicate izg 0"]) (auto simp: efor_idle)
  then show ?thesis by auto
qed

lemma run_random_striped:
  assumes ok: "nvme_ok ops media hwp zsz nz" and sync: "dev_sync hwp zsz nz c"
    and st: "striped (media (c_dev c)) (nz * zsz) iv il izg n data"
    and fit: "p + length data \<le> length mem"
    and x: "x_mem x = mem" "x_it x = 0" "x_tmp x = p" "x_moved x = 0" "x_toff x = replicate izg 0"
      "x_less x = replicate izg 0"
  shows "\<exists>mem'. run_random ops iv il c izg izg (replicate izg n) (replicate izg n) x = Inr (mem', 0)
     \<and> mem_write mem p data = Inr mem'"
proof -
  note sd = stripedD [OF st]
  let ?q = "\<lambda>j k. if k < j then n else 0"
  have srt: "sort (replicate izg n) = replicate izg n" by (rule sorted_sort_id) simp
  have "\<exists>s'. run_random ops iv il c izg izg (replicate izg n) (replicate izg n) x = Inr s'
     \<and> s' = (filled p izg data (?q (0 + izg)) mem, 0)"
    unfolding run_random_def
  proof (rule efor_rule [of "\<lambda>j s'. s' = (filled p izg data (?q j) mem, 0)"], goal_cases)
    case 1
    then show ?case by (simp add: filled_none x)
  next
    case (2 k s')
    then have k: "k < izg" by simp
    have "1 * k * IO_SIZE < 4294967296" using k sd(2) by (intro striped_bounds [OF st]) (simp_all add: Suc_le_eq)
    moreover have "1 * k * 1 < 4294967296" using k sd(2) by (intro striped_bounds [OF st]) (simp_all add: Suc_le_eq)
    moreover have "(?q k)(k := n) = ?q (Suc k)" by auto
    moreover note thread_read_random_striped [OF ok sync st _ _ fit, of k "?q k"]
    ultimately show ?case using k 2 by (simp add: x srt Let_def u32_id u32_sub_id)
  qed
  moreover have "mem_write mem p data = Inr (filled p izg data (?q izg) mem)"
    by (rule filled_all [OF sd(4) fit sd(1)]) simp
  ultimately show ?thesis by simp
qed

lemma izg_read_offset_striped:
  assumes ok: "nvme_ok ops media hwp zsz nz" and sync: "dev_sync hwp zsz nz c"
    and st: "striped (media (c_dev c)) (nz * zsz) iv il izg n data"
    and fit: "p + length data \<le> length mem"
    and off: "off < n * izg * IO_BLOCKS" and sz: "n * izg * IO_BLOCKS \<le> sz"
  shows "\<exists>mem'. izg_read_offset ops c iv p izg izg il off sz mem = Inr (0, mem')
     \<and> mem_write mem p data = Inr mem'"
proof -
  note sd = stripedD [OF st]
  let ?tot = "n * izg * IO_BLOCKS"
  define x where "x = \<lparr>x_mem = mem, x_it = 0, x_left = izg, x_tmp = p, x_moved = 0,
      x_total = ?tot, x_offset = off, x_size = sz, x_toff = replicate izg 0,
      x_less = replicate izg 0, x_mind = replicate izg 0, x_stop = False\<rparr>"
  have tot: "?tot < 4294967296" by (rule striped_bounds [OF st]) (simp_all add: IO_SIZE_def IO_BLOCKS_def)
  have sum: "sum_list (replicate izg (n * IO_BLOCKS)) = ?tot" by (simp add: sum_list_replicate)
  obtain mind where go: "group_offsets izg (replicate izg n) ?tot x = Inr (x\<lparr>x_mind := mind\<rparr>, ?tot)"
  proof (cases "0 < off")
    case True
    obtain mind where "skip_ranks izg (replicate izg 0) (replicate izg 0) (replicate izg 0) = Inr (replicate izg 0, mind)"
      using skip_ranks_zero by blast
    then show thesis using that [of mind] True off zone_offsets_striped [OF st off tot]
      by (simp add: group_offsets_def x_def)
  next
    case False
    then show thesis using that [of "replicate izg 0"] by (simp add: group_offsets_def x_def)
  qed
  have ar: "actual_reads izg (replicate izg n) ?tot sz = Inr (replicate izg n, ?tot)"
    using sz by (simp add: actual_reads_def)
  obtain mem' where rr: "run_random ops iv il c izg izg (replicate izg n) (replicate izg n) (x\<lparr>x_mind := mind\<rparr>)
      = Inr (mem', 0)" "mem_write mem p data = Inr mem'"
    using run_random_striped [OF ok sync st fit, of "x\<lparr>x_mind := mind\<rparr>"] by (auto simp: x_def)
  obtain x2 where gt: "group_threads ops iv il c izg izg izg (replicate izg n) ?tot (replicate izg n)
      (x\<lparr>x_mind := mind\<rparr>) = Inr x2" "x_mem x2 = mem'"
    using rr(1) off by (auto simp: group_threads_def Let_def x_def)
  have vec: "map (\<lambda>b. b div IO_BLOCKS) (replicate izg (n * IO_BLOCKS)) = replicate izg n" by simp
  have "random_group ops iv il c izg izg 0 (x\<lparr>x_total := 0\<rparr>)
     = Inr (x2\<lparr>x_left := u32_sub (x_left x2) izg, x_stop := (x_size x2 = 0)\<rparr>)"
    using interval_sizes_striped [OF st, of 0 izg] go ar gt tot
    by (simp add: random_group_def x_def Let_def vec sum u32_id)
  then show ?thesis using sd(1,3) rr(2) gt(2)
    by (simp add: izg_read_offset_def read_groups_def Let_def x_def)
qed

section \<open>Reading back what was written\<close>

text \<open>A completed write leaves an evenly striped segment behind.\<close>

lemma stripe_inv_striped:
  assumes S: "stripe_ok S" and inv: "stripe_inv S (\<lambda>_. sp_n S) c iv ws"
    and start: "\<And>k. k < sp_izg S \<Longrightarrow> iv_start (sp_iv0 S ! (sp_il S ! k)) = sp_base S k"
  shows "striped (sp_media S (c_dev c)) (sp_nz S * sp_zsz S) iv (sp_il S) (sp_izg S) (sp_n S) (sp_buf S)"
proof -
  have lim: "sp_nz S * sp_zsz S < 2 ^ 32"
    using stripe_okD(2) [OF S] by (simp add: dev_sync_def)
  have z: "sp_base S k + sp_n S * IO_BLOCKS \<le> sp_nz S * sp_zsz S" if "k < sp_izg S" for k
  proof -
    have "(sp_zone S k + 1) * sp_zsz S \<le> sp_nz S * sp_zsz S"
      using stripe_okD(9) [OF S that] by (intro mult_le_mono1) simp
    then show ?thesis using stripe_okD(10) [OF S that] by linarith
  qed
  have iv: "iv ! (sp_il S ! k) = (sp_iv0 S ! (sp_il S ! k))\<lparr>iv_end := sp_base S k + sp_n S * IO_BLOCKS\<rparr>"
    and m: "\<forall>r < sp_n S. range_of (sp_media S (c_dev c)) ((sp_base S k + r * IO_BLOCKS) * BLOCK_SIZE) IO_SIZE
          = chunk IO_SIZE (sp_buf S) (r * sp_izg S + k)" if "k < sp_izg S" for k
    using inv that by (simp_all add: stripe_inv_def zone_done_def)
  show ?thesis
    using stripe_okD(3,4,5,6,7) [OF S] stripe_okD(8) [OF S] lim z inv
    by (auto simp: striped_def iv m start stripe_inv_def)
qed

text \<open>The state a completed write leaves is determined by the state before it.\<close>

lemma stripe_inv_unique:
  assumes S: "stripe_ok S" and inv: "stripe_inv S (\<lambda>_. sp_n S) c iv ws" "stripe_inv S (\<lambda>_. sp_n S) c' iv' ws'"
  shows "sp_media S (c_dev c) = sp_media S (c_dev c') \<and> wps c = wps c' \<and> iv = iv'"
proof (intro conjI)
  show "sp_media S (c_dev c) = sp_media S (c_dev c')"
  proof
    fix a
    show "sp_media S (c_dev c) a = sp_media S (c_dev c') a"
    proof (cases "\<exists>k < sp_izg S. in_region S k a")
      case True
      then obtain k where k: "k < sp_izg S" "in_region S k a" by blast
      define b where "b = a - sp_base S k * BLOCK_SIZE"
      have b: "a = sp_base S k * BLOCK_SIZE + b" "b < sp_n S * IO_SIZE"
        using k(2) by (auto simp: in_region_def b_def algebra_simps IO_SIZE_blocks)
      define r where "r = b div IO_SIZE"
      have r: "r < sp_n S" using b(2) by (simp add: r_def less_mult_imp_div_less)
      have at: "a = (sp_base S k + r * IO_BLOCKS) * BLOCK_SIZE + b mod IO_SIZE"
        unfolding b(1) r_def using div_mult_mod_eq [of b IO_SIZE] by (simp add: algebra_simps IO_SIZE_blocks)
      have e: "range_of (sp_media S (c_dev c)) ((sp_base S k + r * IO_BLOCKS) * BLOCK_SIZE) IO_SIZE
         = range_of (sp_media S (c_dev c')) ((sp_base S k + r * IO_BLOCKS) * BLOCK_SIZE) IO_SIZE"
        using inv k(1) r by (simp add: stripe_inv_def zone_done_def)
      have "b mod IO_SIZE < IO_SIZE" by simp
      with arg_cong [OF e, of "\<lambda>xs. xs ! (b mod IO_SIZE)"] show ?thesis
        by (simp add: nth_range_of at)
    next
      case False
      then show ?thesis using inv by (simp add: stripe_inv_def)
    qed
  qed
  show "wps c = wps c'"
  proof
    fix z
    show "wps c z = wps c' z"
      using inv by (cases "\<exists>k < sp_izg S. z = sp_zone S k") (auto simp: stripe_inv_def zone_done_def)
  qed
  show "iv = iv'"
  proof (rule nth_equalityI)
    show "length iv = length iv'" using inv by (simp add: stripe_inv_def)
    fix p assume "p < length iv"
    then show "iv ! p = iv' ! p"
      using inv stripe_okD(5) [OF S]
      by (cases "p \<in> set (sp_il S)") (auto simp: stripe_inv_def zone_done_def in_set_conv_nth)
  qed
qed

text \<open>Two zones of one unit each on the emulated device, the second zone first.\<close>

definition emu_stripe :: "emu stripe" where
  "emu_stripe = \<lparr>sp_ops = emu_ops IO_BLOCKS 2, sp_media = fst, sp_hwp = snd, sp_zsz = IO_BLOCKS, sp_nz = 2,
     sp_buf = replicate IO_SIZE 1 @ replicate IO_SIZE 2, sp_izg = 2, sp_n = 1, sp_il = [0, 1],
     sp_c0 = emu_ctrl IO_BLOCKS 2,
     sp_iv0 = [new_Interval 1 0 IO_BLOCKS IO_BLOCKS, new_Interval 0 0 0 0]\<rparr>"

lemma emu_wps: "z < nz \<Longrightarrow> (nz + 1) * zsz < 2 ^ 32 \<Longrightarrow> 0 < zsz \<Longrightarrow> wps (emu_ctrl zsz nz) z = z * zsz"
  using dev_syncD(2) [OF emu_sync] by (simp add: emu_ctrl_def emu_init_def)

lemma emu_stripe_ok: "stripe_ok emu_stripe"
  using emu_ok [of IO_BLOCKS 2] emu_sync [of IO_BLOCKS 2] emu_wps [of 0 2 IO_BLOCKS] emu_wps [of 1 2 IO_BLOCKS]
  by (auto simp: stripe_ok_def emu_stripe_def sp_zone_def sp_base_def new_Interval_def IO_BLOCKS_def IO_SIZE_def
      less_2_cases_iff)

text \<open>
  C11: a write of \<open>n\<close> whole stripes over \<open>izg\<close> distinct zones with room succeeds. Every zone
  advances by \<open>n\<close> units, unit \<open>r\<close> of zone \<open>k\<close> is chunk \<open>r * izg + k\<close> of the buffer, the
  interval of the zone ends at its new write pointer, and no byte outside the written
  ranges changes.
\<close>

theorem izg_write_layout:
  assumes "stripe_ok S" and "\<exists>x \<in> set past. x \<noteq> sp_n S" and "length ws = sp_izg S"
  shows "\<exists>c iv. izg_write (sp_ops S) past (sp_buf S) (sp_izg S) (sp_izg S) (sp_il S) ws
       (sp_n S * sp_izg S * IO_BLOCKS) (sp_c0 S, sp_iv0 S) = Inr (0, c, iv)
     \<and> (\<forall>k < sp_izg S. wps c (sp_zone S k) = sp_base S k + sp_n S * IO_BLOCKS
          \<and> iv ! (sp_il S ! k) = (sp_iv0 S ! (sp_il S ! k))\<lparr>iv_end := sp_base S k + sp_n S * IO_BLOCKS\<rparr>
          \<and> (\<forall>r < sp_n S. range_of (sp_media S (c_dev c)) ((sp_base S k + r * IO_BLOCKS) * BLOCK_SIZE) IO_SIZE
               = chunk IO_SIZE (sp_buf S) (r * sp_izg S + k)))
     \<and> (\<forall>a. (\<forall>k < sp_izg S. \<not> in_region S k a) \<longrightarrow>
          sp_media S (c_dev c) a = sp_media S (c_dev (sp_c0 S)) a)"
proof -
  from izg_write_stripe [OF assms] obtain c iv ws' where
    w: "izg_write (sp_ops S) past (sp_buf S) (sp_izg S) (sp_izg S) (sp_il S) ws
       (sp_n S * sp_izg S * IO_BLOCKS) (sp_c0 S, sp_iv0 S) = Inr (0, c, iv)"
    "stripe_inv S (\<lambda>_. sp_n S) c iv ws'" by blast
  then show ?thesis by (intro exI [of _ c] exI [of _ iv]) (simp add: stripe_inv_def zone_done_def)
qed

theorem izg_write_layout_witness:
  "stripe_ok emu_stripe \<and> (\<exists>c iv. izg_write (emu_ops IO_BLOCKS 2) [0] (replicate IO_SIZE 1 @ replicate IO_SIZE 2)
     2 2 [0, 1] [0, 0] (2 * IO_BLOCKS)
     (emu_ctrl IO_BLOCKS 2, [new_Interval 1 0 IO_BLOCKS IO_BLOCKS, new_Interval 0 0 0 0]) = Inr (0, c, iv))"
  using izg_write_layout [OF emu_stripe_ok, of "[0]" "[0, 0]"] emu_stripe_ok by (auto simp: emu_stripe_def)

lemma written_striped:
  assumes "stripe_ok S" and "\<exists>x \<in> set past. x \<noteq> sp_n S" and "length ws = sp_izg S"
    and "\<forall>k < sp_izg S. iv_start (sp_iv0 S ! (sp_il S ! k)) = sp_base S k"
  shows "\<exists>c iv. izg_write (sp_ops S) past (sp_buf S) (sp_izg S) (sp_izg S) (sp_il S) ws
       (sp_n S * sp_izg S * IO_BLOCKS) (sp_c0 S, sp_iv0 S) = Inr (0, c, iv)
     \<and> dev_sync (sp_hwp S) (sp_zsz S) (sp_nz S) c
     \<and> striped (sp_media S (c_dev c)) (sp_nz S * sp_zsz S) iv (sp_il S) (sp_izg S) (sp_n S) (sp_buf S)"
proof -
  from izg_write_stripe [OF assms(1-3)] obtain c iv ws' where
    w: "izg_write (sp_ops S) past (sp_buf S) (sp_izg S) (sp_izg S) (sp_il S) ws
       (sp_n S * sp_izg S * IO_BLOCKS) (sp_c0 S, sp_iv0 S) = Inr (0, c, iv)"
    "stripe_inv S (\<lambda>_. sp_n S) c iv ws'" by blast
  moreover have "dev_sync (sp_hwp S) (sp_zsz S) (sp_nz S) c" using w(2) by (simp add: stripe_inv_def)
  ultimately show ?thesis using stripe_inv_striped [OF assms(1) w(2)] assms(4) by blast
qed

lemma emu_stripe_start:
  "\<forall>k < sp_izg emu_stripe. iv_start (sp_iv0 emu_stripe ! (sp_il emu_stripe ! k)) = sp_base emu_stripe k"
  using emu_wps [of 0 2 IO_BLOCKS] emu_wps [of 1 2 IO_BLOCKS]
  by (auto simp: emu_stripe_def sp_base_def sp_zone_def new_Interval_def less_2_cases_iff IO_BLOCKS_def)

text \<open>
  C2: what \<^verbatim>\<open>izg_write\<close> writes, \<^verbatim>\<open>izg_read\<close> of the same intervals reads back into the
  caller's buffer, and it touches nothing else of the caller's memory.
\<close>

theorem izg_read_after_write:
  assumes "stripe_ok S" and "\<exists>x \<in> set past. x \<noteq> sp_n S" and "length ws = sp_izg S"
    and "\<forall>k < sp_izg S. iv_start (sp_iv0 S ! (sp_il S ! k)) = sp_base S k"
    and "p + length (sp_buf S) \<le> length mem"
  shows "\<exists>c iv. izg_write (sp_ops S) past (sp_buf S) (sp_izg S) (sp_izg S) (sp_il S) ws
       (sp_n S * sp_izg S * IO_BLOCKS) (sp_c0 S, sp_iv0 S) = Inr (0, c, iv)
     \<and> izg_read (sp_ops S) c iv p (sp_izg S) (sp_izg S) (sp_il S) mem
         = Inr (0, take p mem @ sp_buf S @ drop (p + length (sp_buf S)) mem)"
proof -
  from written_striped [OF assms(1-4)] obtain c iv where
    w: "izg_write (sp_ops S) past (sp_buf S) (sp_izg S) (sp_izg S) (sp_il S) ws
       (sp_n S * sp_izg S * IO_BLOCKS) (sp_c0 S, sp_iv0 S) = Inr (0, c, iv)"
    "dev_sync (sp_hwp S) (sp_zsz S) (sp_nz S) c"
    "striped (sp_media S (c_dev c)) (sp_nz S * sp_zsz S) iv (sp_il S) (sp_izg S) (sp_n S) (sp_buf S)" by blast
  from izg_read_striped [OF stripe_okD(1) [OF assms(1)] w(2,3) assms(5)] w(1) mem_write_ok [OF assms(5)]
  show ?thesis by fastforce
qed

theorem izg_read_after_write_witness:
  "stripe_ok emu_stripe \<and> (\<exists>c iv. izg_read (emu_ops IO_BLOCKS 2) c iv 0 2 2 [0, 1] (replicate (2 * IO_SIZE) 7)
     = Inr (0, replicate IO_SIZE 1 @ replicate IO_SIZE 2))"
  using izg_read_after_write [OF emu_stripe_ok _ _ emu_stripe_start, of "[0]" "[0, 0]" 0 "replicate (2 * IO_SIZE) 7"]
    emu_stripe_ok by (auto simp: emu_stripe_def)

text \<open>A group of equal sizes leaves nothing in the sorted vector that stops the scan.\<close>

lemma skip_min_all: "skip_min n (replicate m n) izg = Inl (OutOfBounds ''sorted_write_size_vec'')"
  by (induction m arbitrary: izg) simp_all

lemma thread_write_past_end:
  fixes S :: "'d stripe"
  assumes S: "stripe_ok S" and n: "sp_n S = 1" and w: "0 < w" "w \<le> sp_izg S"
    and inv: "stripe_inv S (\<lambda>_. 0) c iv ws"
  shows "thread_write (sp_ops S) (sp_buf S) (sp_il S) (set_request_write 0 0 0 w w (replicate (sp_izg S) 1) (sp_izg S))
     (c, iv, ws) = Inl (OutOfBounds ''sorted_write_size_vec'')"
proof -
  let ?req = "set_request_write 0 0 0 w w (replicate (sp_izg S) 1) (sp_izg S)"
  let ?s = "\<lambda>c. \<lparr>w_c = c, w_iv = iv, w_ws = ws, w_pos = 0, w_written = 0, w_cnt = 0,
                 w_izg = sp_izg S, w_min = replicate (sp_izg S) 1\<rparr>"
  have tot: "w * IO_SIZE < 4294967296"
    using stripe_bound [OF S, of 1 w IO_SIZE] n w by simp
  have "stripe_inv S (\<lambda>_. 0) (w_c (?s c)) (w_iv (?s c)) (w_ws (?s c))" using inv by simp
  from set_zones_stripe [OF S this, of 0 w MAN_OPEN] w
  obtain c1 where c1: "set_zones (sp_ops S) MAN_OPEN (sp_il S) 0 w (?s c) = Inr (?s c1)"
    "stripe_inv S (\<lambda>_. 0) (w_c (?s c1)) (w_iv (?s c1)) (w_ws (?s c1))" by auto
  from write_sweep [OF S c1(2), of w 0 0] w n tot
  obtain s1 where s1: "efor 0 w (write_one (sp_ops S) (sp_buf S) (sp_il S) 0 0) (?s c1) = Inr s1"
     "w_cnt s1 = 0" "w_min s1 = replicate (sp_izg S) 1" by auto
  have "round_end ?req s1 = Inl (OutOfBounds ''sorted_write_size_vec'')"
    using s1(2,3) skip_min_all [of 1 "sp_izg S" "w_izg s1"] by (simp add: round_end_def u32_id)
  then have "write_round (sp_ops S) (sp_buf S) (sp_il S) ?req (?s c1) = Inl (OutOfBounds ''sorted_write_size_vec'')"
    using s1(1) by (simp add: write_round_def set_request_write_def)
  then have "ewhile w ''thread_write'' (\<lambda>s. w_written s < w * IO_SIZE)
      (write_round (sp_ops S) (sp_buf S) (sp_il S) ?req) (?s c1) = Inl (OutOfBounds ''sorted_write_size_vec'')"
    using w(1) by (cases w) simp_all
  then show ?thesis using c1(1) tot w(1)
    by (simp add: thread_write_def Let_def u32_id set_request_write_def)
qed

text \<open>
  C35: a write of exactly one stripe (what every flush of the file layer is) makes the scan of
  the sorted sizes run past the end of its vector: with nothing readable there the write
  faults, on every device and every choice of zones.
\<close>

theorem izg_write_scans_past_end:
  assumes "stripe_ok S" and "sp_n S = 1" and "length ws = sp_izg S"
  shows "izg_write (sp_ops S) [] (sp_buf S) (sp_izg S) (sp_izg S) (sp_il S) ws (sp_izg S * IO_BLOCKS)
       (sp_c0 S, sp_iv0 S) = Inl (OutOfBounds ''sorted_write_size_vec'')"
proof -
  let ?e = "Inl (OutOfBounds ''sorted_write_size_vec'')"
  have n: "0 < sp_izg S" "length (sp_il S) = sp_izg S" using stripe_okD [OF assms(1)] by simp_all
  have b: "sp_izg S * IO_BLOCKS < 4294967296" "sp_izg S < 4294967296"
    using stripe_bound [OF assms(1), of 1 "sp_izg S" IO_BLOCKS] stripe_bound [OF assms(1), of 1 "sp_izg S" 1] assms(2)
    by (simp_all add: IO_SIZE_def IO_BLOCKS_def)
  have inv: "stripe_inv S (\<lambda>_. 0) (sp_c0 S) (sp_iv0 S) (replicate (sp_izg S) 1)"
    using stripe_inv_init [OF assms(1)] assms(2) by simp
  let ?w = "min 8 (sp_izg S)"
  have z: "thread_zone_cnt (sp_izg S) (sp_izg S) 0 = ?w" using thread_zone_cnt_single [of 0 "sp_izg S"] n b by simp
  have u: "u32 ?w = ?w" using b by (simp add: u32_id)
  have t: "start_thread (sp_ops S) (sp_buf S) (sp_il S) (sp_izg S) 0
     \<lparr>g_c = sp_c0 S, g_iv = sp_iv0 S, g_ws = replicate (sp_izg S) 1, g_it = 0, g_wsi = 0,
      g_left = sp_izg S, g_buf = 0, g_tmp = 0, g_total = 0, g_sorted = replicate (sp_izg S) 1, g_past = []\<rparr> = ?e"
    using thread_write_past_end [OF assms(1,2) _ _ inv, of ?w] n z u
    by (simp add: start_thread_def Let_def mem_read_def sum_list_replicate)
  obtain th where th: "ceil_div (sp_izg S) 8 = Suc th"
    using ceil_div_8 [of "sp_izg S" 0] n by (cases "ceil_div (sp_izg S) 8") auto
  have "ceil_div (sp_izg S) (sp_izg S) = 1" using n by (simp add: ceil_div_def)
  then show ?thesis
    using t th n split_sizes_even [OF n(1) b(1) assms(3), of 1] assms(3)
    by (simp add: izg_write_def Let_def THREAD_PER_IZG_def write_group_def mem_read_def partial_sort_copy_even)
qed

theorem izg_write_scans_past_end_witness:
  "stripe_ok emu_stripe \<and> izg_write (emu_ops IO_BLOCKS 2) [] (replicate IO_SIZE 1 @ replicate IO_SIZE 2)
     2 2 [0, 1] [0, 0] (2 * IO_BLOCKS)
     (emu_ctrl IO_BLOCKS 2, [new_Interval 1 0 IO_BLOCKS IO_BLOCKS, new_Interval 0 0 0 0])
   = Inl (OutOfBounds ''sorted_write_size_vec'')"
  using izg_write_scans_past_end [OF emu_stripe_ok, of "[0, 0]"] emu_stripe_ok by (simp add: emu_stripe_def)

text \<open>
  C36: \<^verbatim>\<open>izg_read\<close> with an offset inside an evenly striped segment, and a size that covers it,
  ignores the offset: the buffer receives the whole segment from its start, as without
  an offset.
\<close>

theorem izg_read_offset_ignored:
  assumes "stripe_ok S" and "\<exists>x \<in> set past. x \<noteq> sp_n S" and "length ws = sp_izg S"
    and "\<forall>k < sp_izg S. iv_start (sp_iv0 S ! (sp_il S ! k)) = sp_base S k"
    and "p + length (sp_buf S) \<le> length mem"
    and "off < sp_n S * sp_izg S * IO_BLOCKS" and "sp_n S * sp_izg S * IO_BLOCKS \<le> read_size"
  shows "\<exists>c iv. izg_write (sp_ops S) past (sp_buf S) (sp_izg S) (sp_izg S) (sp_il S) ws
       (sp_n S * sp_izg S * IO_BLOCKS) (sp_c0 S, sp_iv0 S) = Inr (0, c, iv)
     \<and> izg_read_offset (sp_ops S) c iv p (sp_izg S) (sp_izg S) (sp_il S) off read_size mem
         = Inr (0, take p mem @ sp_buf S @ drop (p + length (sp_buf S)) mem)"
proof -
  from written_striped [OF assms(1-4)] obtain c iv where
    w: "izg_write (sp_ops S) past (sp_buf S) (sp_izg S) (sp_izg S) (sp_il S) ws
       (sp_n S * sp_izg S * IO_BLOCKS) (sp_c0 S, sp_iv0 S) = Inr (0, c, iv)"
    "dev_sync (sp_hwp S) (sp_zsz S) (sp_nz S) c"
    "striped (sp_media S (c_dev c)) (sp_nz S * sp_zsz S) iv (sp_il S) (sp_izg S) (sp_n S) (sp_buf S)" by blast
  from izg_read_offset_striped [OF stripe_okD(1) [OF assms(1)] w(2,3) assms(5,6,7)] w(1) mem_write_ok [OF assms(5)]
  show ?thesis by fastforce
qed

theorem izg_read_offset_ignored_witness:
  "stripe_ok emu_stripe \<and> (\<exists>c iv. izg_read_offset (emu_ops IO_BLOCKS 2) c iv 0 2 2 [0, 1] 500 (2 * IO_SIZE)
     (replicate (2 * IO_SIZE) 7) = Inr (0, replicate IO_SIZE 1 @ replicate IO_SIZE 2))"
  using izg_read_offset_ignored [OF emu_stripe_ok _ _ emu_stripe_start,
      of "[0]" "[0, 0]" 0 "replicate (2 * IO_SIZE) 7" 500 "2 * IO_SIZE"] emu_stripe_ok
  by (auto simp: emu_stripe_def IO_BLOCKS_def IO_SIZE_def)

end
