(* ===== verification/Zone_Threads.thy ===== *)
theory Zone_Threads
  imports Zone_Read
begin

text \<open>
  The write threads of \<^verbatim>\<open>izg_write\<close> as they run in the program: all threads of a group
  at once, in any interleaving of their atomic actions. The step relation is built from the
  definitions of \<open>Zone_Write\<close>; the result of every schedule is the one of the sequential
  run there.
\<close>

section \<open>Interleaved threads\<close>

text \<open>
  A thread of \<^verbatim>\<open>izg_write\<close> between two of its atomic actions: opening its zones, one unit
  of the inner loop, the end of a round, closing its zones. \<open>th_s\<close> carries the variables of
  the thread; the controller, the intervals and the write sizes it sees are always the
  shared ones.
\<close>

datatype phase = Opening | Writing | Closed

record 'd wthread =
  th_req :: zone_request
  th_phase :: phase
  th_i :: nat
  th_s :: "'d wstate"

type_synonym 'd shared = "'d ctrl \<times> Interval list \<times> nat list"

definition load_shared :: "'d shared \<Rightarrow> 'd wstate \<Rightarrow> 'd wstate" where
  "load_shared sh s = s\<lparr>w_c := fst sh, w_iv := fst (snd sh), w_ws := snd (snd sh)\<rparr>"

definition shared_of :: "'d wstate \<Rightarrow> 'd shared" where
  "shared_of s = (w_c s, w_iv s, w_ws s)"

definition th_more :: "'d wthread \<Rightarrow> bool" where
  "th_more t \<longleftrightarrow> w_written (th_s t) < u32 (rq_total_write_size (th_req t) * IO_SIZE)"

definition new_thread :: "zone_request \<Rightarrow> 'd shared \<Rightarrow> 'd wthread" where
  "new_thread req sh =
     \<lparr>th_req = req, th_phase = Opening, th_i = 0,
      th_s = \<lparr>w_c = fst sh, w_iv = fst (snd sh), w_ws = snd (snd sh), w_pos = rq_buf req, w_written = 0,
               w_cnt = 0, w_izg = rq_izg_cnt req, w_min = rq_sorted req\<rparr>\<rparr>"

inductive thread_step ::
  "'d nvme_ops \<Rightarrow> byte list \<Rightarrow> nat list \<Rightarrow> 'd shared \<Rightarrow> 'd wthread \<Rightarrow> 'd shared \<Rightarrow> 'd wthread \<Rightarrow> bool"
  for ops :: "'d nvme_ops" and buf :: "byte list" and il :: "nat list" where
  open_zones: "th_phase t = Opening \<Longrightarrow>
     set_zones ops MAN_OPEN il (rq_interval_it (th_req t)) (rq_write_zone_cnt (th_req t))
       (load_shared sh (th_s t)) = Inr s \<Longrightarrow>
     thread_step ops buf il sh t (shared_of s) (t\<lparr>th_phase := Writing, th_s := s\<rparr>)"
| write_unit: "th_phase t = Writing \<Longrightarrow> th_i t < rq_write_zone_cnt (th_req t) \<Longrightarrow>
     0 < th_i t \<or> th_more t \<Longrightarrow>
     write_one ops buf il (rq_interval_it (th_req t)) (rq_write_size_it (th_req t)) (th_i t)
       (load_shared sh (th_s t)) = Inr s \<Longrightarrow>
     thread_step ops buf il sh t (shared_of s) (t\<lparr>th_i := Suc (th_i t), th_s := s\<rparr>)"
| end_round: "th_phase t = Writing \<Longrightarrow> 0 < th_i t \<Longrightarrow> th_i t = rq_write_zone_cnt (th_req t) \<Longrightarrow>
     round_end (th_req t) (load_shared sh (th_s t)) = Inr s \<Longrightarrow>
     thread_step ops buf il sh t (shared_of s) (t\<lparr>th_i := 0, th_s := s\<rparr>)"
| close_zones: "th_phase t = Writing \<Longrightarrow> th_i t = 0 \<Longrightarrow> \<not> th_more t \<Longrightarrow>
     set_zones ops MAN_CLOSE il (rq_interval_it (th_req t)) (rq_write_zone_cnt (th_req t))
       (load_shared sh (th_s t)) = Inr s \<Longrightarrow>
     thread_step ops buf il sh t (shared_of s) (t\<lparr>th_phase := Closed, th_s := s\<rparr>)"

inductive group_step ::
  "'d nvme_ops \<Rightarrow> byte list \<Rightarrow> nat list \<Rightarrow> 'd shared \<times> 'd wthread list \<Rightarrow> 'd shared \<times> 'd wthread list \<Rightarrow> bool"
  for ops :: "'d nvme_ops" and buf :: "byte list" and il :: "nat list" where
  some_thread: "j < length ts \<Longrightarrow> thread_step ops buf il sh (ts ! j) sh' t' \<Longrightarrow>
     group_step ops buf il (sh, ts) (sh', ts[j := t'])"

inductive_cases group_stepE: "group_step ops buf il (sh, ts) y"

section \<open>The invariant of the interleaving\<close>

text \<open>The zones of thread \<open>j\<close>, its request, and the units its zones have received.\<close>

definition th_zones :: "'d stripe \<Rightarrow> nat \<Rightarrow> nat" where
  "th_zones S j = min 8 (sp_izg S - 8 * j)"

definition th_request :: "'d stripe \<Rightarrow> nat list \<Rightarrow> nat \<Rightarrow> zone_request" where
  "th_request S past j = set_request_write (8 * j * IO_SIZE) (8 * j) (8 * j) (th_zones S j)
     (th_zones S j * sp_n S) (replicate (sp_izg S) (sp_n S) @ past) (sp_izg S)"

definition th_units :: "'d wthread list \<Rightarrow> nat \<Rightarrow> nat" where
  "th_units ts k = w_cnt (th_s (ts ! (k div 8))) + (if k mod 8 < th_i (ts ! (k div 8)) then 1 else 0)"

definition th_inv :: "'d stripe \<Rightarrow> nat list \<Rightarrow> nat \<Rightarrow> 'd wthread \<Rightarrow> bool" where
  "th_inv S past j t \<longleftrightarrow>
     th_req t = th_request S past j \<and> w_cnt (th_s t) \<le> sp_n S \<and> th_i t \<le> th_zones S j
     \<and> (0 < th_i t \<longrightarrow> w_cnt (th_s t) < sp_n S \<and> th_phase t = Writing)
     \<and> (th_phase t = Opening \<longrightarrow> w_cnt (th_s t) = 0)
     \<and> (th_phase t = Closed \<longrightarrow> w_cnt (th_s t) = sp_n S)
     \<and> w_written (th_s t) = (w_cnt (th_s t) * th_zones S j + th_i t) * IO_SIZE
     \<and> (w_cnt (th_s t) < sp_n S \<longrightarrow>
          w_pos (th_s t) = (w_cnt (th_s t) * sp_izg S + 8 * j + th_i t) * IO_SIZE
          \<and> w_izg (th_s t) = sp_izg S \<and> w_min (th_s t) = replicate (sp_izg S) (sp_n S) @ past)"

definition par_inv :: "'d stripe \<Rightarrow> nat list \<Rightarrow> 'd shared \<times> 'd wthread list \<Rightarrow> bool" where
  "par_inv S past = (\<lambda>((c, iv, ws), ts).
     length ts = ceil_div (sp_izg S) 8 \<and> (\<forall>j < length ts. th_inv S past j (ts ! j))
     \<and> stripe_inv S (th_units ts) c iv ws)"

lemma stripe_inv_cong:
  "(\<And>k. k < sp_izg S \<Longrightarrow> q k = q' k) \<Longrightarrow> stripe_inv S q c iv ws = stripe_inv S q' c iv ws"
  by (simp add: stripe_inv_def)

lemma th_zones_pos: "j < ceil_div (sp_izg S) 8 \<Longrightarrow> 0 < th_zones S j \<and> 8 * j + th_zones S j \<le> sp_izg S"
  using ceil_div_8 [of "sp_izg S" j] by (auto simp: th_zones_def)

text \<open>Zone \<open>k\<close> belongs to thread \<open>k div 8\<close>.\<close>

lemma zone_thread: "k < sp_izg S \<Longrightarrow> k div 8 < ceil_div (sp_izg S) 8 \<and> k mod 8 < th_zones S (k div 8)"
proof -
  assume k: "k < sp_izg S"
  have d: "8 * (k div 8) + k mod 8 = k" by simp
  have "k mod 8 < 8" by simp
  then have "k mod 8 < th_zones S (k div 8)" using d k unfolding th_zones_def by linarith
  moreover have "k div 8 < ceil_div (sp_izg S) 8"
    using ceil_div_8 [of "sp_izg S" 0] d k by linarith
  ultimately show ?thesis by blast
qed

lemma th_units_update:
  assumes "j < length ts"
  shows "th_units (ts[j := t']) k =
     (if k div 8 = j then w_cnt (th_s t') + (if k mod 8 < th_i t' then 1 else 0) else th_units ts k)"
  using assms by (auto simp: th_units_def nth_list_update)

lemma th_request_sel [simp]:
  "rq_buf (th_request S past j) = 8 * j * IO_SIZE" "rq_interval_it (th_request S past j) = 8 * j"
  "rq_write_size_it (th_request S past j) = 8 * j" "rq_write_zone_cnt (th_request S past j) = th_zones S j"
  "rq_total_write_size (th_request S past j) = th_zones S j * sp_n S"
  "rq_izg_cnt (th_request S past j) = sp_izg S"
  "rq_sorted (th_request S past j) = replicate (sp_izg S) (sp_n S) @ past"
  by (simp_all add: th_request_def set_request_write_def)

lemma load_shared_sel [simp]:
  "w_c (load_shared sh s) = fst sh" "w_iv (load_shared sh s) = fst (snd sh)" "w_ws (load_shared sh s) = snd (snd sh)"
  "w_pos (load_shared sh s) = w_pos s" "w_written (load_shared sh s) = w_written s"
  "w_cnt (load_shared sh s) = w_cnt s" "w_izg (load_shared sh s) = w_izg s" "w_min (load_shared sh s) = w_min s"
  by (simp_all add: load_shared_def)

lemma th_more_iff:
  assumes S: "stripe_ok S" and j: "j < ceil_div (sp_izg S) 8" and t: "th_inv S past j t" "th_i t = 0"
  shows "th_more t \<longleftrightarrow> w_cnt (th_s t) < sp_n S"
proof -
  have "th_zones S j * sp_n S * IO_SIZE < 4294967296"
    using stripe_bound [OF S, of "sp_n S" "th_zones S j" IO_SIZE] th_zones_pos [OF j] by (simp add: mult.commute)
  then show ?thesis
    using t th_zones_pos [OF j] by (simp add: th_more_def th_inv_def u32_id mult.commute)
qed

lemma par_inv_update:
  assumes P: "par_inv S past (sh, ts)" and j: "j < length ts" and t': "th_inv S past j t'"
    and inv: "stripe_inv S q c' iv' ws'" and q: "\<And>k. k < sp_izg S \<Longrightarrow> q k = th_units (ts[j := t']) k"
  shows "par_inv S past ((c', iv', ws'), ts[j := t'])"
  using P j t' inv stripe_inv_cong [of S q "th_units (ts[j := t'])", OF q]
  by (auto simp: par_inv_def nth_list_update split: prod.splits)

lemma par_invD:
  assumes "par_inv S past (sh, ts)"
  shows "length ts = ceil_div (sp_izg S) 8" "\<And>j. j < length ts \<Longrightarrow> th_inv S past j (ts ! j)"
    "stripe_inv S (th_units ts) (fst sh) (fst (snd sh)) (snd (snd sh))"
  using assms by (auto simp: par_inv_def split: prod.splits)

text \<open>Opening and closing.\<close>

lemma set_zones_par:
  assumes S: "stripe_ok S" and P: "par_inv S past (sh, ts)" and j: "j < length ts"
    and v: "value = MAN_OPEN \<or> value = MAN_CLOSE" and i: "th_i (ts ! j) = 0"
  shows "\<exists>s. set_zones (sp_ops S) value (sp_il S) (8 * j) (th_zones S j) (load_shared sh (th_s (ts ! j))) = Inr s
     \<and> (\<forall>ph. th_inv S past j ((ts ! j)\<lparr>th_phase := ph, th_s := s\<rparr>) \<longrightarrow>
            par_inv S past (shared_of s, ts[j := (ts ! j)\<lparr>th_phase := ph, th_s := s\<rparr>]))
     \<and> th_inv S past j ((ts ! j)\<lparr>th_s := s\<rparr>) \<and> w_cnt s = w_cnt (th_s (ts ! j))"
proof -
  let ?t = "ts ! j"
  note p = par_invD [OF P]
  have tz: "8 * j + th_zones S j \<le> sp_izg S" using th_zones_pos [of j S] j p(1) by simp
  have "stripe_inv S (th_units ts) (w_c (load_shared sh (th_s ?t))) (w_iv (load_shared sh (th_s ?t)))
     (w_ws (load_shared sh (th_s ?t)))" using p(3) by simp
  from set_zones_stripe [OF S this tz v]
  obtain c' where c': "set_zones (sp_ops S) value (sp_il S) (8 * j) (th_zones S j) (load_shared sh (th_s ?t))
      = Inr ((load_shared sh (th_s ?t))\<lparr>w_c := c'\<rparr>)" "stripe_inv S (th_units ts) c' (fst (snd sh)) (snd (snd sh))"
    by auto
  let ?s = "(load_shared sh (th_s ?t))\<lparr>w_c := c'\<rparr>"
  have "par_inv S past ((c', fst (snd sh), snd (snd sh)), ts[j := ?t\<lparr>th_phase := ph, th_s := ?s\<rparr>])"
    if "th_inv S past j (?t\<lparr>th_phase := ph, th_s := ?s\<rparr>)" for ph
    by (rule par_inv_update [OF P j that c'(2)]) (simp add: th_units_update [OF j], simp add: th_units_def)
  moreover have "th_inv S past j (?t\<lparr>th_s := ?s\<rparr>)" using p(2) [OF j] by (simp add: th_inv_def)
  ultimately show ?thesis using c'(1) by (auto simp: shared_of_def)
qed

text \<open>One unit.\<close>

lemma write_unit_par:
  assumes S: "stripe_ok S" and P: "par_inv S past (sh, ts)" and j: "j < length ts"
    and ph: "th_phase (ts ! j) = Writing" and i: "th_i (ts ! j) < th_zones S j"
    and r: "w_cnt (th_s (ts ! j)) < sp_n S"
  shows "\<exists>s. write_one (sp_ops S) (sp_buf S) (sp_il S) (8 * j) (8 * j) (th_i (ts ! j))
        (load_shared sh (th_s (ts ! j))) = Inr s
     \<and> par_inv S past (shared_of s, ts[j := (ts ! j)\<lparr>th_i := Suc (th_i (ts ! j)), th_s := s\<rparr>])
     \<and> w_cnt s = w_cnt (th_s (ts ! j))"
proof -
  let ?t = "ts ! j" and ?k = "8 * j + th_i (ts ! j)" and ?r = "w_cnt (th_s (ts ! j))"
  note p = par_invD [OF P]
  note t = p(2) [OF j, unfolded th_inv_def Let_def]
  have tz: "8 * j + th_zones S j \<le> sp_izg S" using th_zones_pos [of j S] j p(1) by simp
  have k: "?k < sp_izg S" "?k div 8 = j" "?k mod 8 = th_i ?t" using i tz by (auto simp: th_zones_def)
  have u: "th_units ts ?k = ?r" unfolding th_units_def k(2,3) by simp
  let ?s0 = "load_shared sh (th_s ?t)"
  have "\<exists>s'. write_one (sp_ops S) (sp_buf S) (sp_il S) (8 * j) (8 * j) (th_i ?t) ?s0 = Inr s'
     \<and> stripe_inv S ((th_units ts)(?k := Suc (th_units ts ?k))) (w_c s') (w_iv s') (w_ws s')
     \<and> w_pos s' = w_pos ?s0 + IO_SIZE \<and> w_written s' = u32 (w_written ?s0 + IO_SIZE)
     \<and> w_cnt s' = w_cnt ?s0 \<and> w_izg s' = w_izg ?s0 \<and> w_min s' = w_min ?s0"
  proof (rule write_one_stripe [OF S _ refl])
    show "w_pos ?s0 = (th_units ts ?k * sp_izg S + ?k) * IO_SIZE"
      using t r by (simp add: u add.assoc)
  qed (use p(3) k u r in simp_all)
  then obtain s where s: "write_one (sp_ops S) (sp_buf S) (sp_il S) (8 * j) (8 * j) (th_i ?t) ?s0 = Inr s"
     "stripe_inv S ((th_units ts)(?k := Suc (th_units ts ?k))) (w_c s) (w_iv s) (w_ws s)"
     "w_pos s = w_pos (th_s ?t) + IO_SIZE" "w_written s = u32 (w_written (th_s ?t) + IO_SIZE)"
     "w_cnt s = ?r" "w_izg s = w_izg (th_s ?t)" "w_min s = w_min (th_s ?t)" by auto
  let ?t' = "?t\<lparr>th_i := Suc (th_i ?t), th_s := s\<rparr>"
  have "Suc ?r * th_zones S j * IO_SIZE < 4294967296" using r tz by (intro stripe_bound [OF S]) simp_all
  moreover have "(?r * th_zones S j + th_i ?t) * IO_SIZE + IO_SIZE \<le> Suc ?r * th_zones S j * IO_SIZE"
  proof -
    have "(?r * th_zones S j + Suc (th_i ?t)) * IO_SIZE \<le> Suc ?r * th_zones S j * IO_SIZE"
      using i by (intro mult_le_mono1) simp
    then show ?thesis by simp
  qed
  ultimately have "w_written s = (?r * th_zones S j + Suc (th_i ?t)) * IO_SIZE"
    using s(4) t by (simp add: u32_id)
  then have t': "th_inv S past j ?t'" using t s r i ph by (simp add: th_inv_def)
  have "par_inv S past ((w_c s, w_iv s, w_ws s), ts[j := ?t'])"
  proof (rule par_inv_update [OF P j t' s(2)])
    fix l assume "l < sp_izg S"
    show "((th_units ts)(?k := Suc (th_units ts ?k))) l = th_units (ts[j := ?t']) l"
    proof (cases "l = ?k")
      case True
      show ?thesis unfolding True th_units_update [OF j] k(2,3) u by (simp add: s(5))
    next
      case False
      have "l div 8 = j \<Longrightarrow> l mod 8 \<noteq> th_i ?t" using False mult_div_mod_eq [of 8 l] by auto
      then have "l div 8 = j \<Longrightarrow> l mod 8 < Suc (th_i ?t) \<longleftrightarrow> l mod 8 < th_i ?t" by linarith
      with False show ?thesis unfolding th_units_update [OF j] by (simp add: s(5) th_units_def)
    qed
  qed
  with s(1,5) show ?thesis by (auto simp: shared_of_def)
qed

text \<open>The end of a round.\<close>

lemma end_round_par:
  assumes S: "stripe_ok S" and past: "\<exists>x \<in> set past. x \<noteq> sp_n S"
    and P: "par_inv S past (sh, ts)" and j: "j < length ts"
    and i: "0 < th_i (ts ! j)" "th_i (ts ! j) = th_zones S j"
  shows "\<exists>s. round_end (th_request S past j) (load_shared sh (th_s (ts ! j))) = Inr s
     \<and> par_inv S past (shared_of s, ts[j := (ts ! j)\<lparr>th_i := 0, th_s := s\<rparr>])
     \<and> w_cnt s = Suc (w_cnt (th_s (ts ! j))) \<and> w_cnt (th_s (ts ! j)) < sp_n S"
proof -
  let ?t = "ts ! j" and ?r = "w_cnt (th_s (ts ! j))"
  note p = par_invD [OF P]
  note t = p(2) [OF j, unfolded th_inv_def Let_def]
  have tz: "8 * j + th_zones S j \<le> sp_izg S" using th_zones_pos [of j S] j p(1) by simp
  have r: "?r < sp_n S" using t i by simp
  obtain izg rest pos where s: "round_end (th_request S past j) (load_shared sh (th_s ?t)) =
      Inr ((load_shared sh (th_s ?t))\<lparr>w_cnt := Suc ?r, w_izg := izg, w_min := rest, w_pos := pos\<rparr>)"
    "Suc ?r < sp_n S \<longrightarrow> pos = (Suc ?r * sp_izg S + 8 * j) * IO_SIZE \<and> izg = sp_izg S
       \<and> rest = replicate (sp_izg S) (sp_n S) @ past"
    using round_end_stripe [OF S r tz past, of "th_request S past j" "load_shared sh (th_s ?t)"] t i r by auto
  let ?s = "(load_shared sh (th_s ?t))\<lparr>w_cnt := Suc ?r, w_izg := izg, w_min := rest, w_pos := pos\<rparr>"
  let ?t' = "?t\<lparr>th_i := 0, th_s := ?s\<rparr>"
  have t': "th_inv S past j ?t'" using t s(2) r i by (simp add: th_inv_def add.commute)
  have "par_inv S past ((fst sh, fst (snd sh), snd (snd sh)), ts[j := ?t'])"
  proof (rule par_inv_update [OF P j t' p(3)])
    fix l assume "l < sp_izg S"
    then show "th_units ts l = th_units (ts[j := ?t']) l"
      using zone_thread [of l S] i by (auto simp: th_units_update [OF j]) (auto simp: th_units_def)
  qed
  with s(1) r show ?thesis by (auto simp: shared_of_def)
qed

text \<open>
  The number of steps a thread still has to make. Every step of every thread keeps the
  invariant and brings that number down.
\<close>

definition th_left :: "'d stripe \<Rightarrow> 'd wthread \<Rightarrow> nat" where
  "th_left S t =
     (let rest = (sp_n S - w_cnt (th_s t)) * Suc (rq_write_zone_cnt (th_req t)) - th_i t
      in case th_phase t of Opening \<Rightarrow> rest + 2 | Writing \<Rightarrow> rest + 1 | Closed \<Rightarrow> 0)"

lemma th_left_round:
  "r < n \<Longrightarrow> i \<le> w \<Longrightarrow> i < (n - r) * Suc w \<and> (n - Suc r) * Suc w < (n - r) * Suc w - (w::nat)"
proof -
  assume a: "r < n" "i \<le> w"
  then obtain d where d: "n - r = Suc d" "n - Suc r = d" by (metis Suc_diff_Suc)
  show ?thesis unfolding d using a(2) by simp
qed

lemma par_inv_thread_step:
  assumes S: "stripe_ok S" and past: "\<exists>x \<in> set past. x \<noteq> sp_n S"
    and P: "par_inv S past (sh, ts)" and jl: "j < length ts"
    and st: "thread_step (sp_ops S) (sp_buf S) (sp_il S) sh (ts ! j) sh' t'"
  shows "par_inv S past (sh', ts[j := t']) \<and> th_left S t' < th_left S (ts ! j)"
proof -
  let ?t = "ts ! j"
  have j: "j < ceil_div (sp_izg S) 8" using jl par_invD(1) [OF P] by simp
  note tI = par_invD(2) [OF P jl]
  note t = tI [unfolded th_inv_def]
  have req: "th_req ?t = th_request S past j" using t by simp
  from st show ?thesis
  proof cases
    case (open_zones s)
    have i: "th_i ?t = 0" using t open_zones(3) by auto
    have "th_inv S past j (?t\<lparr>th_s := s\<rparr>) \<Longrightarrow> th_inv S past j (?t\<lparr>th_phase := Writing, th_s := s\<rparr>)"
      using i by (simp add: th_inv_def)
    with set_zones_par [OF S P jl _ i, of MAN_OPEN] open_zones req show ?thesis by (simp add: th_left_def)
  next
    case (write_unit s)
    have r: "w_cnt (th_s ?t) < sp_n S" using write_unit(5) t th_more_iff [OF S j tI] by auto
    have "th_i ?t < (sp_n S - w_cnt (th_s ?t)) * Suc (th_zones S j)"
      using th_left_round [OF r, of "th_i ?t" "th_zones S j"] t by simp
    with r write_unit_par [OF S P jl write_unit(3)] write_unit req show ?thesis
      by (simp add: th_left_def Let_def)
  next
    case (end_round s)
    with end_round_par [OF S past P jl] th_left_round [of "w_cnt (th_s ?t)" "sp_n S" 0 "th_zones S j"] req
    show ?thesis by (simp add: th_left_def Let_def)
  next
    case (close_zones s)
    have "w_cnt (th_s ?t) = sp_n S" using th_more_iff [OF S j tI close_zones(4)] close_zones(5) t by simp
    moreover have "th_inv S past j (?t\<lparr>th_s := s\<rparr>) \<Longrightarrow> w_cnt s = sp_n S \<Longrightarrow>
       th_inv S past j (?t\<lparr>th_phase := Closed, th_s := s\<rparr>)"
      using close_zones(4) by (simp add: th_inv_def)
    moreover note set_zones_par [OF S P jl _ close_zones(4), of MAN_CLOSE]
    ultimately show ?thesis using close_zones req by (simp add: th_left_def)
  qed
qed

definition left_steps :: "'d stripe \<Rightarrow> 'd shared \<times> 'd wthread list \<Rightarrow> nat" where
  "left_steps S x = sum_list (map (th_left S) (snd x))"

lemma par_inv_step:
  assumes S: "stripe_ok S" and past: "\<exists>x \<in> set past. x \<noteq> sp_n S"
    and P: "par_inv S past x" and step: "group_step (sp_ops S) (sp_buf S) (sp_il S) x y"
  shows "par_inv S past y \<and> left_steps S y < left_steps S x"
  using step
proof cases
  case (some_thread j ts sh sh' t')
  have p: "par_inv S past (sh', ts[j := t'])" "th_left S t' < th_left S (ts ! j)"
    using par_inv_thread_step [OF S past _ some_thread(3,4)] P some_thread(1) by simp_all
  have "th_left S (ts ! j) \<le> sum_list (map (th_left S) ts)"
    using some_thread(3) by (intro elem_le_sum_list [of j "map (th_left S) ts", simplified])
  then have "left_steps S y < left_steps S x"
    using some_thread p(2) sum_list_update [of j "map (th_left S) ts" "th_left S t'"]
    by (simp add: left_steps_def map_update)
  with p(1) some_thread(2) show ?thesis by simp
qed

text \<open>A thread that has not closed its zones can make a step.\<close>

lemma par_inv_progress:
  assumes S: "stripe_ok S" and past: "\<exists>x \<in> set past. x \<noteq> sp_n S"
    and P: "par_inv S past (sh, ts)" and j: "j < length ts" "th_phase (ts ! j) \<noteq> Closed"
  shows "\<exists>sh' t'. thread_step (sp_ops S) (sp_buf S) (sp_il S) sh (ts ! j) sh' t' \<and> par_inv S past (sh', ts[j := t'])"
proof -
  let ?t = "ts ! j"
  have jc: "j < ceil_div (sp_izg S) 8" using j par_invD(1) [OF P] by simp
  note tI = par_invD(2) [OF P j(1)]
  note t = tI [unfolded th_inv_def]
  have req: "th_req ?t = th_request S past j" using t by simp
  have "\<exists>sh' t'. thread_step (sp_ops S) (sp_buf S) (sp_il S) sh ?t sh' t'"
  proof (cases "th_phase ?t")
    case Opening
    then have "th_i ?t = 0" using t by auto
    from set_zones_par [OF S P j(1) _ this, of MAN_OPEN] obtain s where s:
      "set_zones (sp_ops S) MAN_OPEN (sp_il S) (8 * j) (th_zones S j) (load_shared sh (th_s ?t)) = Inr s" by blast
    show ?thesis by (intro exI, rule thread_step.open_zones [OF Opening]) (simp add: req s)
  next
    case Writing
    consider "th_i ?t = th_zones S j" "0 < th_i ?t" | "th_i ?t < th_zones S j" "w_cnt (th_s ?t) < sp_n S"
      | "th_i ?t = 0" "\<not> th_more ?t"
      using t th_zones_pos [OF jc] th_more_iff [OF S jc tI]
      by (cases "th_i ?t = 0"; cases "th_i ?t = th_zones S j") auto
    then show ?thesis
    proof cases
      case 1
      from end_round_par [OF S past P j(1) 1(2,1)] obtain s where s:
        "round_end (th_request S past j) (load_shared sh (th_s ?t)) = Inr s" by blast
      show ?thesis by (intro exI, rule thread_step.end_round [OF Writing 1(2)]) (simp_all add: req 1(1) s)
    next
      case 2
      then have m: "0 < th_i ?t \<or> th_more ?t" using th_more_iff [OF S jc tI] by auto
      from write_unit_par [OF S P j(1) Writing 2] obtain s where s:
        "write_one (sp_ops S) (sp_buf S) (sp_il S) (8 * j) (8 * j) (th_i ?t) (load_shared sh (th_s ?t)) = Inr s" by blast
      show ?thesis
        by (intro exI, rule thread_step.write_unit [OF Writing _ m]) (simp_all add: req 2(1) s)
    next
      case 3
      from set_zones_par [OF S P j(1) _ 3(1), of MAN_CLOSE] obtain s where s:
        "set_zones (sp_ops S) MAN_CLOSE (sp_il S) (8 * j) (th_zones S j) (load_shared sh (th_s ?t)) = Inr s" by blast
      show ?thesis by (intro exI, rule thread_step.close_zones [OF Writing 3]) (simp add: req s)
    qed
  next
    case Closed
    with j show ?thesis by simp
  qed
  then show ?thesis using par_inv_thread_step [OF S past P j(1)] by blast
qed

lemma par_inv_stuck:
  assumes S: "stripe_ok S" and past: "\<exists>x \<in> set past. x \<noteq> sp_n S"
    and P: "par_inv S past (sh, ts)" and stuck: "\<nexists>y. group_step (sp_ops S) (sp_buf S) (sp_il S) (sh, ts) y"
  shows "\<forall>t \<in> set ts. th_phase t = Closed"
  using par_inv_progress [OF S past P] stuck by (metis group_step.some_thread in_set_conv_nth)

definition start_threads :: "'d stripe \<Rightarrow> nat list \<Rightarrow> 'd shared \<times> 'd wthread list" where
  "start_threads S past =
     (let sh = (sp_c0 S, sp_iv0 S, replicate (sp_izg S) (sp_n S))
      in (sh, map (\<lambda>j. new_thread (th_request S past j) sh) [0..<ceil_div (sp_izg S) 8]))"

lemma par_inv_start: "stripe_ok S \<Longrightarrow> par_inv S past (start_threads S past)"
proof -
  assume S: "stripe_ok S"
  let ?ts = "snd (start_threads S past)"
  have "th_units ?ts k = 0" if "k < sp_izg S" for k
    using zone_thread [OF that] by (simp add: th_units_def start_threads_def Let_def new_thread_def)
  then have "stripe_inv S (th_units ?ts) (sp_c0 S) (sp_iv0 S) (replicate (sp_izg S) (sp_n S))"
    using stripe_inv_init [OF S] stripe_inv_cong [of S "th_units ?ts" "\<lambda>_. 0"] by simp
  then show ?thesis
    using stripe_okD(4) [OF S]
    by (auto simp: par_inv_def start_threads_def Let_def th_inv_def new_thread_def)
qed

text \<open>A run of \<open>m\<close> steps uses up \<open>m\<close> of the steps the threads have at the start.\<close>

lemma run_bounded:
  assumes S: "stripe_ok S" and past: "\<exists>x \<in> set past. x \<noteq> sp_n S"
    and run: "((group_step (sp_ops S) (sp_buf S) (sp_il S)) ^^ m) (start_threads S past) y"
  shows "par_inv S past y \<and> m + left_steps S y \<le> left_steps S (start_threads S past)"
  using run
proof (induction m arbitrary: y)
  case 0
  then show ?case using par_inv_start [OF S] by auto
next
  case (Suc m)
  then obtain x where "((group_step (sp_ops S) (sp_buf S) (sp_il S)) ^^ m) (start_threads S past) x"
    "group_step (sp_ops S) (sp_buf S) (sp_il S) x y" by auto
  with Suc.IH [of x] par_inv_step [OF S past, of x y] show ?case by auto
qed

lemma par_inv_done:
  assumes S: "stripe_ok S" and P: "par_inv S past ((c, iv, ws), ts)" and d: "\<forall>t \<in> set ts. th_phase t = Closed"
  shows "stripe_inv S (\<lambda>_. sp_n S) c iv ws"
proof -
  have "th_units ts k = sp_n S" if k: "k < sp_izg S" for k
  proof -
    let ?t = "ts ! (k div 8)"
    have j: "k div 8 < length ts" using zone_thread [OF k] par_invD(1) [OF P] by simp
    then have "th_phase ?t = Closed" using d by simp
    then show ?thesis using par_invD(2) [OF P j] by (auto simp: th_inv_def th_units_def)
  qed
  then show ?thesis using par_invD(3) [OF P] stripe_inv_cong [of S "th_units ts" "\<lambda>_. sp_n S"] by simp
qed

text \<open>
  C7: however the write threads of a striped write are interleaved, no run has more
  steps than the threads have to make, a run in which some thread has not finished can go
  on, and a run that cannot go on ends with the media, the write pointers and the intervals
  of the sequential \<^verbatim>\<open>izg_write\<close>.
\<close>

theorem write_schedule_independent:
  assumes "stripe_ok S" and "\<exists>x \<in> set past. x \<noteq> sp_n S" and "length ws = sp_izg S"
    and "((group_step (sp_ops S) (sp_buf S) (sp_il S)) ^^ m) (start_threads S past) ((c, iv, ws'), ts)"
  shows "m \<le> left_steps S (start_threads S past)
     \<and> ((\<exists>y. group_step (sp_ops S) (sp_buf S) (sp_il S) ((c, iv, ws'), ts) y)
        \<or> (\<exists>c'. izg_write (sp_ops S) past (sp_buf S) (sp_izg S) (sp_izg S) (sp_il S) ws
              (sp_n S * sp_izg S * IO_BLOCKS) (sp_c0 S, sp_iv0 S) = Inr (0, c', iv)
            \<and> sp_media S (c_dev c) = sp_media S (c_dev c') \<and> wps c = wps c'))"
proof (cases "\<exists>y. group_step (sp_ops S) (sp_buf S) (sp_il S) ((c, iv, ws'), ts) y")
  case True
  then show ?thesis using run_bounded [OF assms(1,2,4)] by auto
next
  case False
  note b = run_bounded [OF assms(1,2,4)]
  note d = par_inv_done [OF assms(1) conjunct1 [OF b] par_inv_stuck [OF assms(1,2) conjunct1 [OF b] False]]
  from izg_write_stripe [OF assms(1,2,3)] obtain c' iv' ws'' where
    w: "izg_write (sp_ops S) past (sp_buf S) (sp_izg S) (sp_izg S) (sp_il S) ws
              (sp_n S * sp_izg S * IO_BLOCKS) (sp_c0 S, sp_iv0 S) = Inr (0, c', iv')"
    "stripe_inv S (\<lambda>_. sp_n S) c' iv' ws''" by blast
  from stripe_inv_unique [OF assms(1) d w(2)] w(1) b show ?thesis by auto
qed

text \<open>
  A schedule names the thread that makes each step. Every run can be completed: the number of
  steps left goes down with each.
\<close>

inductive sched_run ::
  "'d nvme_ops \<Rightarrow> byte list \<Rightarrow> nat list \<Rightarrow> nat list \<Rightarrow> 'd shared \<times> 'd wthread list \<Rightarrow> 'd shared \<times> 'd wthread list \<Rightarrow> bool"
  for ops :: "'d nvme_ops" and buf :: "byte list" and il :: "nat list" where
  sched_end: "sched_run ops buf il [] x x"
| sched_step: "j < length ts \<Longrightarrow> thread_step ops buf il sh (ts ! j) sh' t' \<Longrightarrow>
     sched_run ops buf il js (sh', ts[j := t']) y \<Longrightarrow> sched_run ops buf il (j # js) (sh, ts) y"

lemma sched_run_steps: "sched_run ops buf il js x y \<Longrightarrow> ((group_step ops buf il) ^^ length js) x y"
proof (induction rule: sched_run.induct)
  case (sched_step j ts sh sh' t' js y)
  then have "((group_step ops buf il) ^^ Suc (length js)) (sh, ts) y"
    using relpowp_Suc_I2 group_step.some_thread by metis
  then show ?case by simp
qed simp

lemma sched_run_append: "sched_run ops buf il js x y \<Longrightarrow> sched_run ops buf il ks y z \<Longrightarrow> sched_run ops buf il (js @ ks) x z"
  by (induction rule: sched_run.induct) (auto intro: sched_run.intros)

lemma run_completes:
  assumes S: "stripe_ok S" and past: "\<exists>x \<in> set past. x \<noteq> sp_n S" and P: "par_inv S past x"
  shows "\<exists>js y. sched_run (sp_ops S) (sp_buf S) (sp_il S) js x y \<and> (\<nexists>w. group_step (sp_ops S) (sp_buf S) (sp_il S) y w)"
  using P
proof (induction "left_steps S x" arbitrary: x rule: less_induct)
  case less
  show ?case
  proof (cases "\<exists>w. group_step (sp_ops S) (sp_buf S) (sp_il S) x w")
    case True
    then obtain w where w: "group_step (sp_ops S) (sp_buf S) (sp_il S) x w" by blast
    with less.hyps [of w] par_inv_step [OF S past less.prems w] obtain js y where
      y: "sched_run (sp_ops S) (sp_buf S) (sp_il S) js w y" "\<nexists>v. group_step (sp_ops S) (sp_buf S) (sp_il S) y v" by blast
    from w show ?thesis by cases (use y in \<open>blast intro: sched_step\<close>)
  next
    case False
    then show ?thesis by (blast intro: sched_end)
  qed
qed

lemma opened_thread_writes: "thread_step ops buf il sh t sh' t' \<Longrightarrow> th_phase t = Opening \<Longrightarrow> th_phase t' = Writing"
  by (erule thread_step.cases) simp_all

lemma two_threads_alternate:
  assumes S: "stripe_ok S" and past: "\<exists>x \<in> set past. x \<noteq> sp_n S" and two: "8 < sp_izg S"
  shows "\<exists>y. sched_run (sp_ops S) (sp_buf S) (sp_il S) [1, 0, 1, 0] (start_threads S past) y \<and> par_inv S past y"
proof -
  obtain sh ts where st: "start_threads S past = (sh, ts)" by (cases "start_threads S past")
  have P: "par_inv S past (sh, ts)" using par_inv_start [OF S, of past] st by simp
  have l: "1 < length ts" using par_invD(1) [OF P] ceil_div_8 [of "sp_izg S" 1] two by simp
  then have l0: "0 < length ts" by linarith
  have opn: "th_phase (ts ! j) = Opening" if "j < length ts" for j
    using st that by (auto simp: start_threads_def Let_def new_thread_def)
  obtain sh1 t1 where 1: "thread_step (sp_ops S) (sp_buf S) (sp_il S) sh (ts ! 1) sh1 t1" "par_inv S past (sh1, ts[1 := t1])"
    using par_inv_progress [OF S past P l] opn l by auto
  obtain sh2 t2 where 2: "thread_step (sp_ops S) (sp_buf S) (sp_il S) sh1 (ts[1 := t1] ! 0) sh2 t2" "par_inv S past (sh2, ts[1 := t1, 0 := t2])"
    using par_inv_progress [OF S past 1(2), of 0] opn [of 0] l l0 by auto
  have w: "th_phase t1 = Writing" "th_phase t2 = Writing"
    using opened_thread_writes [OF 1(1)] opened_thread_writes [OF 2(1)] opn l l0 by simp_all
  obtain sh3 t3 where 3: "thread_step (sp_ops S) (sp_buf S) (sp_il S) sh2 (ts[1 := t1, 0 := t2] ! 1) sh3 t3"
    "par_inv S past (sh3, ts[1 := t1, 0 := t2, 1 := t3])"
    using par_inv_progress [OF S past 2(2), of 1] w l l0 by auto
  obtain sh4 t4 where 4: "thread_step (sp_ops S) (sp_buf S) (sp_il S) sh3 (ts[1 := t1, 0 := t2, 1 := t3] ! 0) sh4 t4"
    "par_inv S past (sh4, ts[1 := t1, 0 := t2, 1 := t3, 0 := t4])"
    using par_inv_progress [OF S past 3(2), of 0] w l l0 by (auto simp: nth_list_update)
  have "sched_run (sp_ops S) (sp_buf S) (sp_il S) [1, 0, 1, 0] (sh, ts) (sh4, ts[1 := t1, 0 := t2, 1 := t3, 0 := t4])"
    using l by (intro sched_step [OF _ 1(1)] sched_step [OF _ 2(1)] sched_step [OF _ 3(1)] sched_step [OF _ 4(1)] sched_end) (use l0 in simp_all)
  with 4(2) show ?thesis unfolding st by blast
qed

text \<open>Nine zones on the emulated device, the last zone first: two threads, of eight zones and of one.\<close>

definition wide_stripe :: "emu stripe" where
  "wide_stripe = \<lparr>sp_ops = emu_ops IO_BLOCKS 9, sp_media = fst, sp_hwp = snd, sp_zsz = IO_BLOCKS, sp_nz = 9,
     sp_buf = concat (map (\<lambda>k. replicate IO_SIZE (of_nat k)) [0..<9]), sp_izg = 9, sp_n = 1, sp_il = [0..<9],
     sp_c0 = emu_ctrl IO_BLOCKS 9,
     sp_iv0 = map (\<lambda>k. new_Interval (8 - k) 0 ((8 - k) * IO_BLOCKS) ((8 - k) * IO_BLOCKS)) [0..<9]\<rparr>"

lemma wide_stripe_ok: "stripe_ok wide_stripe"
proof -
  have f: "((9::nat) + 1) * IO_BLOCKS < 2 ^ 32" "0 < IO_BLOCKS" by (simp_all add: IO_BLOCKS_def)
  have "length (concat (map (\<lambda>k. replicate IO_SIZE (of_nat k :: byte)) [0..<9])) = 9 * IO_SIZE"
    by (simp add: length_concat comp_def sum_list_triv)
  moreover have "wps (emu_ctrl IO_BLOCKS 9) (8 - k) = (8 - k) * IO_BLOCKS" for k
    using emu_wps [of "8 - k" 9 IO_BLOCKS] f by simp
  ultimately show ?thesis
    using emu_ok [of IO_BLOCKS 9] emu_sync [of IO_BLOCKS 9] f
    by (auto simp: stripe_ok_def wide_stripe_def sp_zone_def sp_base_def new_Interval_def IO_SIZE_def)
qed

text \<open>
  The two threads open their zones and write a first unit in turns, the second thread first, and go
  on in some order until none can step: the media and the intervals are those of \<^verbatim>\<open>izg_write\<close>.
\<close>

theorem write_schedule_independent_witness:
  "\<exists>js c iv ws ts c'.
     sched_run (sp_ops wide_stripe) (sp_buf wide_stripe) (sp_il wide_stripe) ([1, 0, 1, 0] @ js)
       (start_threads wide_stripe [0]) ((c, iv, ws), ts)
   \<and> (\<nexists>y. group_step (sp_ops wide_stripe) (sp_buf wide_stripe) (sp_il wide_stripe) ((c, iv, ws), ts) y)
   \<and> 4 + length js \<le> left_steps wide_stripe (start_threads wide_stripe [0])
   \<and> izg_write (sp_ops wide_stripe) [0] (sp_buf wide_stripe) 9 9 (sp_il wide_stripe) (replicate 9 0) (9 * IO_BLOCKS)
       (sp_c0 wide_stripe, sp_iv0 wide_stripe) = Inr (0, c', iv)
   \<and> fst (c_dev c) = fst (c_dev c') \<and> wps c = wps c'"
proof -
  have past: "\<exists>x \<in> set [0]. x \<noteq> sp_n wide_stripe" by (simp add: wide_stripe_def)
  obtain y where y: "sched_run (sp_ops wide_stripe) (sp_buf wide_stripe) (sp_il wide_stripe) [1, 0, 1, 0] (start_threads wide_stripe [0]) y"
    "par_inv wide_stripe [0] y"
    using two_threads_alternate [OF wide_stripe_ok past] by (auto simp: wide_stripe_def)
  obtain js c iv ws ts where z: "sched_run (sp_ops wide_stripe) (sp_buf wide_stripe) (sp_il wide_stripe) js y ((c, iv, ws), ts)"
    "\<nexists>w. group_step (sp_ops wide_stripe) (sp_buf wide_stripe) (sp_il wide_stripe) ((c, iv, ws), ts) w"
    using run_completes [OF wide_stripe_ok past y(2)] by (metis surj_pair)
  note run = sched_run_append [OF y(1) z(1)]
  have l: "length (replicate 9 0 :: nat list) = sp_izg wide_stripe" by (simp add: wide_stripe_def)
  have "sp_izg wide_stripe = 9" "sp_n wide_stripe = 1" "sp_media wide_stripe = fst" by (simp_all add: wide_stripe_def)
  with write_schedule_independent [OF wide_stripe_ok past l sched_run_steps [OF run]] run z(2) show ?thesis by fastforce
qed

end
