(* ===== verification/Std_Queue.thy ===== *)
theory Std_Queue
  imports Zoad_Prelude
begin

text \<open>
  \<^verbatim>\<open>std::queue\<close> as the code uses it (\<^verbatim>\<open>push\<close>, \<^verbatim>\<open>front\<close>, \<^verbatim>\<open>pop\<close>, \<^verbatim>\<open>empty\<close>):
  the queues of zones of an IZG, the queue of inactive IZGs and the request queue of a
  partition. The interface is a locale over an abstraction to lists; what its clients need
  (round robin, draining in order) is proved from the interface.
\<close>

section \<open>The interface\<close>

locale fifo =
  fixes items :: "'q \<Rightarrow> 'a list"
    and empty_q :: 'q
    and push :: "'q \<Rightarrow> 'a \<Rightarrow> 'q"
    and front :: "'q \<Rightarrow> 'a res"
    and pop :: "'q \<Rightarrow> 'q"
    and is_empty :: "'q \<Rightarrow> bool"
  assumes items_empty: "items empty_q = []"
    and items_push: "items (push q x) = items q @ [x]"
    and front_items: "items q \<noteq> [] \<Longrightarrow> front q = Inr (hd (items q))"
    and items_pop: "items q \<noteq> [] \<Longrightarrow> items (pop q) = tl (items q)"
    and is_empty_items: "is_empty q \<longleftrightarrow> items q = []"
begin

text \<open>Moving the front element to the back is a rotation.\<close>

lemma items_recycle:
  "items q \<noteq> [] \<Longrightarrow> front q = Inr x \<Longrightarrow> items (push (pop q) x) = rotate1 (items q)"
  by (cases "items q") (auto simp: items_push items_pop front_items)

lemma recycle_rotate:
  assumes "items q = rotate k xs" "xs \<noteq> []" "front q = Inr x"
  shows "items (push (pop q) x) = rotate (Suc k) xs" and "x = xs ! (k mod length xs)"
proof -
  have ne: "items q \<noteq> []" using assms(1,2) by simp
  show "items (push (pop q) x) = rotate (Suc k) xs"
    using items_recycle [OF ne assms(3)] assms(1) by (simp add: rotate_Suc)
  have "x = hd (rotate k xs)" using assms(1,3) front_items [OF ne] by simp
  then show "x = xs ! (k mod length xs)" using assms(2) by (simp add: hd_rotate_conv_nth)
qed

text \<open>Pushing a list of elements.\<close>

lemma items_foldl_push: "items (foldl push q xs) = items q @ xs"
  by (induction xs arbitrary: q) (simp_all add: items_push)

end

section \<open>The queue of the model\<close>

definition q_push :: "'a list \<Rightarrow> 'a \<Rightarrow> 'a list" where
  "q_push q x = q @ [x]"

definition q_front :: "'a list \<Rightarrow> 'a res" where
  "q_front q = (case q of [] \<Rightarrow> Inl (Undefined ''front of empty queue'') | x # _ \<Rightarrow> Inr x)"

definition q_pop :: "'a list \<Rightarrow> 'a list" where
  "q_pop q = drop 1 q"

definition q_empty :: "'a list \<Rightarrow> bool" where
  "q_empty q = (q = [])"

interpretation stdq: fifo "\<lambda>q. q" "[]" q_push q_front q_pop q_empty
  by unfold_locales
    (auto simp: q_push_def q_front_def q_pop_def q_empty_def drop_Suc split: list.splits)

end
