(* ===== verification/IZG_Pool.thy ===== *)
theory IZG_Pool
  imports Zone_Threads Std_Queue
begin

text \<open>
  \<^verbatim>\<open>src/util/zoad/IZG.cpp\<close>: the independent zone groups (IZGs), their queues of free zones,
  the budget of IZGs handed out to partitions, the identification of the device and of its
  IZGs, and the measurement of the I/O table. IZG objects are reached by pointers into a
  heap, since \<^verbatim>\<open>izg_map\<close> and \<^verbatim>\<open>inactive_izg_queue\<close> share them.
\<close>

section \<open>IZGs and the pool\<close>

record IZG =
  ig_zone_queue :: "nat list"
  ig_total_zone :: nat
  ig_alloc :: nat

definition new_IZG :: "nat list \<Rightarrow> IZG" where
  "new_IZG zones = \<lparr>ig_zone_queue = zones, ig_total_zone = length zones, ig_alloc = 0\<rparr>"

definition IZG_get_next_zone :: "IZG \<Rightarrow> (int \<times> IZG) res" where
  "IZG_get_next_zone izg =
     (if q_empty (ig_zone_queue izg) then Inr (-1, izg)
      else ebind (q_front (ig_zone_queue izg)) (\<lambda>z.
             Inr (s32 (int z), izg\<lparr>ig_zone_queue := q_pop (ig_zone_queue izg)\<rparr>)))"

record pool =
  pl_izgs :: "IZG list"
  pl_izg_map :: "nat list"
  pl_total_izg_cnt :: nat
  pl_available_izg_cnt :: nat
  pl_inactive :: "nat list"
  pl_iotable_r :: "nat list"
  pl_iotable_w :: "nat list"

definition empty_pool :: pool where
  "empty_pool = \<lparr>pl_izgs = [], pl_izg_map = [], pl_total_izg_cnt = 0, pl_available_izg_cnt = 0,
     pl_inactive = [], pl_iotable_r = [], pl_iotable_w = []\<rparr>"

definition MAX_PARTITION :: nat where "MAX_PARTITION = 0"
definition QOS_PARTITION :: nat where "QOS_PARTITION = 1"

lemmas partition_flags = MAX_PARTITION_def QOS_PARTITION_def

definition alloc_izg :: "nat \<Rightarrow> nat \<Rightarrow> pool \<Rightarrow> int \<times> pool" where
  "alloc_izg flags iolevel p =
     (if flags = MAX_PARTITION then (s32 (int (pl_available_izg_cnt p)), p)
      else if flags = QOS_PARTITION then
        let num = s32 (int iolevel) in
        if num < 0 \<or> int (pl_available_izg_cnt p) < num then (-1, p)
        else (num, p\<lparr>pl_available_izg_cnt := u32_sub (pl_available_izg_cnt p) (nat num)\<rparr>)
      else (-1, p))"

section \<open>Identification\<close>

definition zone_units :: "'d ctrl \<Rightarrow> nat" where
  "zone_units c = unat (zsze_of c * of_nat BLOCK_SIZE) div IO_SIZE"

text \<open>Filling a zone and reading it through, unit by unit, with the test data.\<close>

definition zone_write :: "'d nvme_ops \<Rightarrow> byte list \<Rightarrow> nat \<Rightarrow> 'd ctrl \<Rightarrow> 'd ctrl res" where
  "zone_write ops test_data num c =
     ebind (zns_set_zone ops num MAN_OPEN c) (\<lambda>c.
     ebind (efor 0 (zone_units c) (\<lambda>i c.
              ebind (zns_write ops test_data IO_SIZE num c) (\<lambda>(_, c). Inr c)) c) (\<lambda>c.
     zns_set_zone ops num MAN_CLOSE c))"

definition zone_read :: "'d nvme_ops \<Rightarrow> nat \<Rightarrow> 'd ctrl \<Rightarrow> byte list \<Rightarrow> byte list res" where
  "zone_read ops num c test_data =
     efor 0 (zone_units c) (\<lambda>i buf.
       ebind (zns_read ops buf 0 IO_SIZE num (i * IO_SIZE div BLOCK_SIZE) c) (\<lambda>(_, buf). Inr buf)) test_data"

definition format :: "'d nvme_ops \<Rightarrow> 'd ctrl \<Rightarrow> (int \<times> 'd ctrl) res" where
  "format ops c =
     ebind (zns_get_zone_desc ops REPORT_ALL REPORT_ALL_STATE 0 0 True (snd (zns_format ops c))) (\<lambda>c.
       Inr (0, c))"

definition Identify_HW :: "'d nvme_ops \<Rightarrow> string \<Rightarrow> 'd \<Rightarrow> (int \<times> 'd ctrl) res" where
  "Identify_HW ops dev d =
     ebind (zns_get_info ops dev d) (\<lambda>(ret, c).
     ebind (zns_get_zone_desc ops REPORT_ALL REPORT_ALL_STATE 0 0 True c) (\<lambda>c. Inr (ret, c)))"

text \<open>\<^verbatim>\<open>for (j = i + distance; j < total_zone; j += distance) izg_zone->push(j)\<close>.\<close>

function push_zones :: "nat \<Rightarrow> nat \<Rightarrow> nat \<Rightarrow> nat list \<Rightarrow> nat list" where
  "push_zones distance total_zone j q =
     (if 0 < distance \<and> j < total_zone
      then push_zones distance total_zone (j + distance) (q_push q j) else q)"
  by pat_completeness auto
termination by (relation "measure (\<lambda>(d, t, j, q). t - j)") auto

declare push_zones.simps [simp del]

definition IZG_DISTANCE :: nat where "IZG_DISTANCE = 32"

definition identify_izg_step :: "nat \<Rightarrow> nat \<Rightarrow> pool \<Rightarrow> pool res" where
  "identify_izg_step total_zone i p =
     (let izg_zone = push_zones IZG_DISTANCE total_zone (i + IZG_DISTANCE) (q_push [] i);
          new_izg = length (pl_izgs p)
      in Inr (p\<lparr>pl_izgs := pl_izgs p @ [new_IZG izg_zone], pl_izg_map := pl_izg_map p @ [new_izg],
                pl_inactive := q_push (pl_inactive p) new_izg\<rparr>))"

definition Identify_IZG :: "'d nvme_ops \<Rightarrow> 'd ctrl \<times> pool \<Rightarrow> (int \<times> 'd ctrl \<times> pool) res" where
  "Identify_IZG ops = (\<lambda>(c, p).
     let total_zone = zns_get_total_zone c in
     ebind (efor 0 IZG_DISTANCE (identify_izg_step total_zone) p) (\<lambda>p.
     let p = p\<lparr>pl_total_izg_cnt := IZG_DISTANCE, pl_available_izg_cnt := IZG_DISTANCE\<rparr> in
     ebind (format ops c) (\<lambda>(_, c). Inr (0, c, p))))"

section \<open>The I/O table\<close>

text \<open>
  The throughput a measurement yields depends on the clock: \<open>perf izg_size rw\<close> stands for
  it. What the measurement does to the device is modelled: the first \<open>izg_size\<close> zones are
  filled or read, then reset.
\<close>

definition get_perf ::
  "'d nvme_ops \<Rightarrow> (nat \<Rightarrow> bool \<Rightarrow> nat) \<Rightarrow> nat \<Rightarrow> bool \<Rightarrow> 'd ctrl \<times> byte list \<Rightarrow> (nat \<times> 'd ctrl \<times> byte list) res" where
  "get_perf ops perf izg_size w = (\<lambda>(c, test_data).
     ebind (efor 0 izg_size (\<lambda>i (c, test_data).
              if w then ebind (zone_write ops test_data i c) (\<lambda>c. Inr (c, test_data))
              else ebind (zone_read ops i c test_data) (\<lambda>test_data. Inr (c, test_data))) (c, test_data))
       (\<lambda>(c, test_data).
     ebind (efor 0 izg_size (\<lambda>i c. zns_set_zone ops i MAN_RESET c) c) (\<lambda>c.
       Inr (perf izg_size w, c, test_data))))"

definition Identify_IO_table ::
  "'d nvme_ops \<Rightarrow> (nat \<Rightarrow> bool \<Rightarrow> nat) \<Rightarrow> 'd ctrl \<times> pool \<Rightarrow> (int \<times> 'd ctrl \<times> pool) res" where
  "Identify_IO_table ops perf = (\<lambda>(c, p).
     let test_data = replicate IO_SIZE 0x48;
         p = p\<lparr>pl_iotable_r := pl_iotable_r p @ [0], pl_iotable_w := pl_iotable_w p @ [0]\<rparr>;
         n = pl_total_izg_cnt p in
     ebind (efor 1 (n - 1) (\<lambda>i (c, test_data, p).
              ebind (get_perf ops perf i True (c, test_data)) (\<lambda>(v, c, test_data).
                Inr (c, test_data, p\<lparr>pl_iotable_w := pl_iotable_w p @ [v]\<rparr>))) (c, test_data, p))
       (\<lambda>(c, test_data, p).
     ebind (efor 0 n (\<lambda>i c. zone_write ops test_data i c) c) (\<lambda>c.
     ebind (efor 1 (n - 1) (\<lambda>i (c, test_data, p).
              ebind (get_perf ops perf i False (c, test_data)) (\<lambda>(v, c, test_data).
                Inr (c, test_data, p\<lparr>pl_iotable_r := pl_iotable_r p @ [v]\<rparr>))) (c, test_data, p))
       (\<lambda>(c, test_data, p). Inr (0, c, p)))))"

section \<open>The pool as a counter\<close>

text \<open>
  After \<open>k\<close> zones have been taken, the queue of IZGs has been rotated \<open>k\<close> times, and IZG
  \<open>i\<close> holds the zones from \<open>k\<close> on that are \<open>i\<close> modulo the number of IZGs, in order.
\<close>

definition pool_rep :: "nat \<Rightarrow> nat \<Rightarrow> pool \<Rightarrow> bool" where
  "pool_rep nz k p \<longleftrightarrow>
     length (pl_izgs p) = IZG_DISTANCE \<and> pl_inactive p = rotate k [0..<IZG_DISTANCE] \<and> nz < 2 ^ 31
     \<and> (\<forall>i < IZG_DISTANCE. ig_zone_queue (pl_izgs p ! i) =
          filter (\<lambda>z. k \<le> z \<and> z mod IZG_DISTANCE = i) [0..<nz])"

lemma push_zones_eq:
  "0 < d \<Longrightarrow> push_zones d t j q = q @ filter (\<lambda>z. j \<le> z \<and> z mod d = j mod d) [0..<t]"
proof (induction d t j q rule: push_zones.induct)
  case (1 d t j q)
  show ?case
  proof (cases "j < t")
    case True
    have "filter (\<lambda>z. j \<le> z \<and> z mod d = j mod d) [0..<t] =
       j # filter (\<lambda>z. j + d \<le> z \<and> z mod d = (j + d) mod d) [0..<t]"
    proof -
      have e: "[0..<t] = [0..<j] @ j # [Suc j..<t]"
        using upt_add_eq_append [of 0 j "t - j"] upt_conv_Cons [OF True] True by simp
      have "filter (\<lambda>z. j \<le> z \<and> z mod d = j mod d) [0..<j] = []" "filter (\<lambda>z. j + d \<le> z \<and> z mod d = j mod d) [0..<j] = []"
        by (auto simp: filter_empty_conv)
      moreover have "filter (\<lambda>z. j \<le> z \<and> z mod d = j mod d) [Suc j..<t]
          = filter (\<lambda>z. j + d \<le> z \<and> z mod d = j mod d) [Suc j..<t]"
      proof (rule filter_cong [OF refl])
        fix z assume "z \<in> set [Suc j..<t]"
        then have z: "j < z" by simp
        have "z mod d = j mod d \<Longrightarrow> j + d \<le> z"
        proof -
          assume "z mod d = j mod d"
          then have "d dvd z - j" using z by (simp add: mod_eq_dvd_iff_nat)
          then show "j + d \<le> z" using z dvd_imp_le [of d "z - j"] by simp
        qed
        then show "(j \<le> z \<and> z mod d = j mod d) = (j + d \<le> z \<and> z mod d = j mod d)" using z by auto
      qed
      ultimately show ?thesis unfolding e using 1(2) by simp
    qed
    then show ?thesis using 1 True by (subst push_zones.simps) (simp add: q_push_def)
  next
    case False
    then have "filter (\<lambda>z. j \<le> z \<and> z mod d = j mod d) [0..<t] = []" by (auto simp: filter_empty_conv)
    with False show ?thesis by (subst push_zones.simps) simp
  qed
qed

lemma filter_mod_first: "i < d \<Longrightarrow> i < nz \<Longrightarrow>
   filter (\<lambda>z. z mod d = i) [0..<nz] = i # filter (\<lambda>z. i + d \<le> z \<and> z mod d = i) [0..<nz]"
  using push_zones_eq [of d nz i "[]"] push_zones_eq [of d nz "i + d" "[i]"] push_zones.simps [of d nz i "[]"]
  by (simp add: q_push_def) (metis (mono_tags, lifting) filter_cong mod_less mod_less_eq_dividend)

text \<open>Identification leaves the pool with no zone taken.\<close>

lemma identify_izg_pool:
  assumes nz: "IZG_DISTANCE \<le> nz" "nz < 2 ^ 31"
  shows "\<exists>p. efor 0 IZG_DISTANCE (identify_izg_step nz) empty_pool = Inr p \<and> pool_rep nz 0 p
     \<and> pl_izg_map p = [0..<IZG_DISTANCE] \<and> pl_iotable_r p = [] \<and> pl_iotable_w p = []"
proof -
  let ?P = "\<lambda>i (p::pool). length (pl_izgs p) = i \<and> pl_inactive p = [0..<i] \<and> pl_izg_map p = [0..<i]
     \<and> (\<forall>j < i. ig_zone_queue (pl_izgs p ! j) = filter (\<lambda>z. z mod IZG_DISTANCE = j) [0..<nz])
     \<and> pl_iotable_r p = [] \<and> pl_iotable_w p = []"
  have "\<exists>p. efor 0 IZG_DISTANCE (identify_izg_step nz) empty_pool = Inr p \<and> ?P (0 + IZG_DISTANCE) p"
  proof (rule efor_rule [of ?P])
    show "?P 0 empty_pool" by (simp add: empty_pool_def)
    fix i p assume i: "i < 0 + IZG_DISTANCE" and p: "?P i p"
    have "push_zones IZG_DISTANCE nz (i + IZG_DISTANCE) [i] = filter (\<lambda>z. z mod IZG_DISTANCE = i) [0..<nz]"
      using filter_mod_first [of i IZG_DISTANCE nz] i nz by (simp add: push_zones_eq)
    then show "\<exists>p'. identify_izg_step nz i p = Inr p' \<and> ?P (Suc i) p'"
      using p by (auto simp: identify_izg_step_def Let_def q_push_def new_IZG_def nth_append less_Suc_eq)
  qed
  then show ?thesis using nz by (auto simp: pool_rep_def)
qed

text \<open>
  Taking a zone: the front IZG gives its first zone and goes to the back of the queue. The
  pool behaves as the counter it represents: zone \<open>k\<close> is the next one, until all \<open>nz\<close> zones
  are taken; then nothing is given and nothing changes.
\<close>

definition take_zone :: "pool \<Rightarrow> (int \<times> pool) res" where
  "take_zone p =
     ebind (q_front (pl_inactive p)) (\<lambda>izg.
     ebind (vec_at (pl_izgs p) izg) (\<lambda>g.
     ebind (IZG_get_next_zone g) (\<lambda>(next_zone, g').
       if next_zone < 0 then Inr (-1, p\<lparr>pl_izgs := (pl_izgs p)[izg := g']\<rparr>)
       else Inr (next_zone, p\<lparr>pl_izgs := (pl_izgs p)[izg := g'],
                              pl_inactive := q_push (q_pop (pl_inactive p)) izg\<rparr>))))"

lemma filter_from_Suc:
  fixes d :: nat
  assumes "k < nz" "i < d"
  shows "filter (\<lambda>z. k \<le> z \<and> z mod d = i) [0..<nz] =
     (if k mod d = i then k # filter (\<lambda>z. Suc k \<le> z \<and> z mod d = i) [0..<nz]
      else filter (\<lambda>z. Suc k \<le> z \<and> z mod d = i) [0..<nz])"
proof -
  have e: "[0..<nz] = [0..<k] @ k # [Suc k..<nz]"
    using upt_add_eq_append [of 0 k "nz - k"] upt_conv_Cons [OF assms(1)] assms(1) by simp
  have z: "filter (\<lambda>z. k \<le> z \<and> z mod d = i) [0..<k] = []" "filter (\<lambda>z. Suc k \<le> z \<and> z mod d = i) [0..<k] = []"
    by (auto simp: filter_empty_conv)
  have "filter (\<lambda>z. k \<le> z \<and> z mod d = i) [Suc k..<nz] = filter (\<lambda>z. Suc k \<le> z \<and> z mod d = i) [Suc k..<nz]"
    by (rule filter_cong) auto
  with z show ?thesis unfolding e by simp
qed

lemma take_zone_pool:
  assumes P: "pool_rep nz k p"
  shows "k < nz \<Longrightarrow> \<exists>p'. take_zone p = Inr (int k, p') \<and> pool_rep nz (Suc k) p'
       \<and> pl_available_izg_cnt p' = pl_available_izg_cnt p"
    and "nz \<le> k \<Longrightarrow> take_zone p = Inr (-1, p)"
proof -
  let ?d = IZG_DISTANCE and ?i = "k mod IZG_DISTANCE"
  have d: "0 < ?d" by (simp add: IZG_DISTANCE_def)
  have ne: "[0..<?d] \<noteq> []" using d by simp
  obtain x where x: "q_front (pl_inactive p) = Inr x"
    using stdq.front_items [of "pl_inactive p"] P ne by (auto simp: pool_rep_def)
  have rr: "q_push (q_pop (pl_inactive p)) x = rotate (Suc k) [0..<?d]" "x = ?i"
    using stdq.recycle_rotate [OF _ ne x] P d by (auto simp: pool_rep_def)
  have i: "?i < length (pl_izgs p)" using P d by (simp add: pool_rep_def)
  have q: "ig_zone_queue (pl_izgs p ! ?i) = filter (\<lambda>z. k \<le> z \<and> z mod ?d = ?i) [0..<nz]"
    using P d by (simp add: pool_rep_def)
  {
    assume k: "k < nz"
    let ?g = "(pl_izgs p ! ?i)\<lparr>ig_zone_queue := filter (\<lambda>z. Suc k \<le> z \<and> z mod ?d = ?i) [0..<nz]\<rparr>"
    have "s32 (int k) = int k" using k P by (simp add: pool_rep_def s32_id)
    then have "IZG_get_next_zone (pl_izgs p ! ?i) = Inr (int k, ?g)"
      using q filter_from_Suc [OF k, of ?i ?d] d
      by (simp add: IZG_get_next_zone_def q_empty_def q_front_def q_pop_def)
    then have t: "take_zone p = Inr (int k, p\<lparr>pl_izgs := (pl_izgs p)[?i := ?g], pl_inactive := rotate (Suc k) [0..<?d]\<rparr>)"
      using x rr i by (simp add: take_zone_def)
    have "pool_rep nz (Suc k) (p\<lparr>pl_izgs := (pl_izgs p)[?i := ?g], pl_inactive := rotate (Suc k) [0..<?d]\<rparr>)"
      using P filter_from_Suc [OF k, of _ ?d] i by (auto simp: pool_rep_def nth_list_update)
    with t show "\<exists>p'. take_zone p = Inr (int k, p') \<and> pool_rep nz (Suc k) p'
       \<and> pl_available_izg_cnt p' = pl_available_izg_cnt p" by simp
  next
    assume k: "nz \<le> k"
    then have "ig_zone_queue (pl_izgs p ! ?i) = []" using q by (auto simp: filter_empty_conv)
    then show "take_zone p = Inr (-1, p)"
      using x rr(2) i by (simp add: take_zone_def IZG_get_next_zone_def q_empty_def)
  }
qed

section \<open>The allocator interface\<close>

text \<open>
  What the users of the pool rely on: as long as zones are left, the next one in order is
  given out; after that every request is refused and leaves the pool as it is.
\<close>

locale zone_source =
  fixes take_next :: "'p \<Rightarrow> (int \<times> 'p) res"
    and taken :: "nat \<Rightarrow> 'p \<Rightarrow> bool"
    and total :: nat
  assumes take_left: "taken k p \<Longrightarrow> k < total \<Longrightarrow> \<exists>p'. take_next p = Inr (int k, p') \<and> taken (Suc k) p'"
    and take_empty: "taken k p \<Longrightarrow> total \<le> k \<Longrightarrow> take_next p = Inr (-1, p)"
begin

text \<open>A loop that takes \<open>n\<close> zones gets the next \<open>n\<close> in order.\<close>

lemma take_loop:
  assumes "taken k p" "k + n \<le> total"
    and step: "\<And>i s z p'. take_next (src s) = Inr (int z, p') \<Longrightarrow> \<exists>s'. f i s = Inr s' \<and> src s' = p' \<and> got s' = got s @ [z]"
    and "src s = p"
  shows "\<exists>s' p'. efor 0 n f s = Inr s' \<and> src s' = p' \<and> taken (k + n) p' \<and> got s' = got s @ [k..<k + n]"
proof -
  have "\<exists>s'. efor 0 n f s = Inr s' \<and> (taken (k + (0 + n)) (src s') \<and> got s' = got s @ [k..<k + (0 + n)])"
  proof (rule efor_rule [of "\<lambda>i t. taken (k + i) (src t) \<and> got t = got s @ [k..<k + i]"])
    show "taken (k + 0) (src s) \<and> got s = got s @ [k..<k + 0]" using assms(1,4) by simp
    fix i t assume i: "i < 0 + n" and t: "taken (k + i) (src t) \<and> got t = got s @ [k..<k + i]"
    then obtain p' where "take_next (src t) = Inr (int (k + i), p')" "taken (Suc (k + i)) p'"
      using take_left [of "k + i" "src t"] assms(2) by auto
    with step [of t "k + i" p' i] t
    show "\<exists>t'. f i t = Inr t' \<and> (taken (k + Suc i) (src t') \<and> got t' = got s @ [k..<k + Suc i])" by auto
  qed
  then show ?thesis by auto
qed

end

interpretation pool_src: zone_source take_zone "pool_rep nz" nz for nz :: nat
  by unfold_locales (use take_zone_pool in blast)+

section \<open>Start of the device\<close>

text \<open>
  What identification relies on: the namespace reports its size and its zone size, formatting
  sets every write pointer to the start of its zone, and a zone report of at least as many
  entries as there are zones describes them all.
\<close>

definition zone_report :: "('d \<Rightarrow> nat \<Rightarrow> nat) \<Rightarrow> nat \<Rightarrow> nat \<Rightarrow> 'd \<Rightarrow> zone_descriptor list \<Rightarrow> bool" where
  "zone_report hwp zsz nz d ds \<longleftrightarrow>
     length ds = nz \<and> (\<forall>z < nz. unat (zd_start_lba (ds ! z)) = z * zsz \<and> unat (zd_wp (ds ! z)) = hwp d z)"

definition wp_valid :: "('d \<Rightarrow> nat \<Rightarrow> nat) \<Rightarrow> nat \<Rightarrow> nat \<Rightarrow> 'd \<Rightarrow> bool" where
  "wp_valid hwp zsz nz d \<longleftrightarrow> (\<forall>z < nz. z * zsz \<le> hwp d z \<and> hwp d z \<le> (z + 1) * zsz)"

definition nvme_id_ok :: "'d nvme_ops \<Rightarrow> ('d \<Rightarrow> nat \<Rightarrow> nat) \<Rightarrow> nat \<Rightarrow> nat \<Rightarrow> bool" where
  "nvme_id_ok ops hwp zsz nz \<longleftrightarrow>
     (\<forall>d. \<exists>x. ioctl_identify_ns ops (mk_passthru 0x06 1 4096 0 0 0 0) d = (0, x) \<and> unat (zfi x) < length (zonef x)
        \<and> unat (zf_zsze (zonef x ! unat (zfi x))) = zsz \<and> unat (nsze x) = nz * zsz)
   \<and> (\<forall>d. \<exists>x. ioctl_identify_ctrl ops (mk_passthru 0x06 0 4096 1 0 0 0) d = (0, x))
   \<and> (\<forall>d. \<exists>d'. ioctl_admin ops (mk_passthru 0x80 1 0 0 0 0 0) d = (0, d') \<and> (\<forall>z < nz. hwp d' z = z * zsz))
   \<and> (\<forall>d cmd. wp_valid hwp zsz nz d \<and> pc_opcode cmd = 0x7A \<and> pc_cdw10 cmd = 0 \<and> pc_cdw11 cmd = 0 \<and> (nz + 1) * 64 \<le> unat (pc_data_len cmd) \<longrightarrow>
        (\<exists>ds. ioctl_io_recv ops cmd d = (0, of_nat nz, ds) \<and> zone_report hwp zsz nz d ds))"

text \<open>
  The number of zones in the header of a report with the partial bit set is the number of
  descriptors in the buffer: \<open>k\<close> when the buffer has room for \<open>k\<close> and there are as many zones.
\<close>

definition nvme_report_ok :: "'d nvme_ops \<Rightarrow> ('d \<Rightarrow> nat \<Rightarrow> nat) \<Rightarrow> nat \<Rightarrow> nat \<Rightarrow> bool" where
  "nvme_report_ok ops hwp zsz nz \<longleftrightarrow>
     (\<forall>d cmd k. wp_valid hwp zsz nz d \<and> pc_opcode cmd = 0x7A \<and> pc_cdw10 cmd = 0 \<and> pc_cdw11 cmd = 0 \<and> bit (pc_cdw13 cmd) 16
        \<and> unat (pc_data_len cmd) = (k + 1) * 64 \<longrightarrow>
        (\<exists>ds. ioctl_io_recv ops cmd d = (0, of_nat (min k nz), ds) \<and> zone_report hwp zsz (min k nz) d ds))"

lemma report_all:
  assumes id: "nvme_id_ok ops hwp zsz nz" and nz: "0 < nz" "nz \<le> REPORT_NUM"
    and c: "length (c_desc c) = nz" "zi_max_zone_cnt (c_info c) = nz" "wp_valid hwp zsz nz (c_dev c)"
  shows "\<exists>ds. zns_get_zone_desc ops a b e f True c = Inr (c\<lparr>c_desc := ds\<rparr>) \<and> zone_report hwp zsz nz (c_dev c) ds"
proof -
  have report: "\<exists>ds. ioctl_io_recv ops cmd d = (0, of_nat nz, ds) \<and> zone_report hwp zsz nz d ds"
    if "wp_valid hwp zsz nz d" "pc_opcode cmd = 0x7A" "pc_cdw10 cmd = 0" "pc_cdw11 cmd = 0" "(nz + 1) * 64 \<le> unat (pc_data_len cmd)" for cmd d
    using id that unfolding nvme_id_ok_def by blast
  define len where "len = (of_nat ((REPORT_NUM + 1) * 64) :: 32 word)"
  define w13 where "w13 = (0 OR push_bit 16 (of_nat REPORT_ALL) OR push_bit 8 (of_nat REPORT_ALL_STATE) :: 32 word)"
  have "unat len = (REPORT_NUM + 1) * 64" by (simp add: len_def REPORT_NUM_def)
  then have "(nz + 1) * 64 \<le> unat (pc_data_len (mk_passthru 0x7A 1 len 0 0 len w13))"
    using nz by (simp add: mk_passthru_def)
  then obtain ds where ds: "ioctl_io_recv ops (mk_passthru 0x7A 1 len 0 0 len w13) (c_dev c) = (0, of_nat nz, ds)"
    "zone_report hwp zsz nz (c_dev c) ds"
    using report [OF c(3), of "mk_passthru 0x7A 1 len 0 0 len w13"] by (simp add: mk_passthru_def) blast
  have u: "unat (of_nat nz :: 64 word) = nz" using nz by (simp add: REPORT_NUM_def unat_of_nat take_bit_nat_eq_self)
  have "first_report ops c (of_nat nz) ds"
    using ds u by (simp add: first_report_def zns_management_recv_def Let_def len_def w13_def zone_report_def)
  from zns_get_zone_desc_reports [OF this, unfolded u c(2), OF nz(1) c(1)]
  have "zns_get_zone_desc ops a b e f True c = Inr (c\<lparr>c_desc := ds\<rparr>)"
    using nz ds(2) by (simp add: REPORT_NUM_def zone_report_def)
  with ds(2) show ?thesis by blast
qed

lemma zns_get_info_ok:
  assumes id: "nvme_id_ok ops hwp zsz nz" and nz: "nz < 2 ^ 32" and zsz: "0 < zsz"
  shows "\<exists>c. zns_get_info ops dev d = Inr (0, c) \<and> length (c_desc c) = nz \<and> zi_max_zone_cnt (c_info c) = nz
     \<and> unat (zsze_of c) = zsz \<and> c_dev c = d"
proof -
  obtain x y where x: "ioctl_identify_ns ops (mk_passthru 0x06 1 4096 0 0 0 0) d = (0, x)" "unat (zfi x) < length (zonef x)"
      "unat (zf_zsze (zonef x ! unat (zfi x))) = zsz" "unat (nsze x) = nz * zsz"
    and y: "ioctl_identify_ctrl ops (mk_passthru 0x06 0 4096 1 0 0 0) d = (0, y)"
    using id unfolding nvme_id_ok_def by meson
  have cnt: "u32 (unat (nsze x div zf_zsze (zonef x ! unat (zfi x)))) = nz"
    using x(3,4) zsz nz by (simp add: unat_div_distrib u32_def)
  have "zf_zsze (zonef x ! unat (zfi x)) \<noteq> 0" using x(3) zsz by auto
  then show ?thesis using x y cnt by (simp add: zns_get_info_def identify_ns_def identify_ctrl_def Let_def)
qed

lemma identify_device:
  assumes "nvme_id_ok ops hwp zsz nz" and "IZG_DISTANCE \<le> nz" and "nz \<le> REPORT_NUM" and "0 < zsz" and "(nz + 1) * zsz < 2 ^ 32" and "wp_valid hwp zsz nz d"
  shows "\<exists>c0 c p. Identify_HW ops dev d = Inr (0, c0) \<and> Identify_IZG ops (c0, empty_pool) = Inr (0, c, p)
     \<and> dev_sync hwp zsz nz c \<and> (\<forall>z < nz. wps c z = z * zsz)
     \<and> pool_rep nz 0 p \<and> pl_available_izg_cnt p = 32"
proof -
  have nz: "0 < nz" "nz < 2 ^ 31" using assms(2,3) by (simp_all add: IZG_DISTANCE_def REPORT_NUM_def)
  obtain c1 where c1: "zns_get_info ops dev d = Inr (0, c1)" "length (c_desc c1) = nz" "zi_max_zone_cnt (c_info c1) = nz"
    "unat (zsze_of c1) = zsz" "c_dev c1 = d"
    using zns_get_info_ok [OF assms(1) _ assms(4)] nz(2) by fastforce
  obtain ds where ds: "Identify_HW ops dev d = Inr (0, c1\<lparr>c_desc := ds\<rparr>)" "length ds = nz"
    using report_all [OF assms(1) nz(1) assms(3) c1(2,3), unfolded c1(5), OF assms(6), of REPORT_ALL REPORT_ALL_STATE 0 0] c1(1)
    by (auto simp: Identify_HW_def zone_report_def)
  obtain d' where d': "ioctl_admin ops (mk_passthru 0x80 1 0 0 0 0 0) (c_dev c1) = (0, d')" "\<forall>z < nz. hwp d' z = z * zsz"
    using assms(1) unfolding nvme_id_ok_def by meson
  define c2 where "c2 = c1\<lparr>c_desc := ds, c_dev := d'\<rparr>"
  have c2: "length (c_desc c2) = nz" "zi_max_zone_cnt (c_info c2) = nz" using ds c1 by (simp_all add: c2_def)
  have v: "wp_valid hwp zsz nz (c_dev c2)" using d'(2) by (simp add: wp_valid_def c2_def)
  obtain es where es: "zns_get_zone_desc ops REPORT_ALL REPORT_ALL_STATE 0 0 True c2 = Inr (c2\<lparr>c_desc := es\<rparr>)"
    "zone_report hwp zsz nz d' es"
    using report_all [OF assms(1) nz(1) assms(3) c2 v, of REPORT_ALL REPORT_ALL_STATE 0 0] by (auto simp: c2_def)
  let ?c = "c2\<lparr>c_desc := es\<rparr>"
  have fmt: "format ops (c1\<lparr>c_desc := ds\<rparr>) = Inr (0, ?c)"
    using d'(1) es(1) by (simp add: format_def zns_format_def c2_def)
  have S: "dev_sync hwp zsz nz ?c"
    using es(2) d'(2) assms(4,5) c1(4) by (simp add: dev_sync_def zone_report_def c2_def)
  obtain p where p: "efor 0 IZG_DISTANCE (identify_izg_step nz) empty_pool = Inr p" "pool_rep nz 0 p"
    using identify_izg_pool [OF assms(2) nz(2)] by blast
  have "Identify_IZG ops (c1\<lparr>c_desc := ds\<rparr>, empty_pool) =
      Inr (0, ?c, p\<lparr>pl_total_izg_cnt := IZG_DISTANCE, pl_available_izg_cnt := IZG_DISTANCE\<rparr>)"
    using p(1) fmt c1(3) by (simp add: Identify_IZG_def zns_get_total_zone_def Let_def)
  moreover have "wps ?c z = z * zsz" if "z < nz" for z
    using dev_syncD(2) [OF S that] d'(2) that by (simp add: c2_def)
  ultimately show ?thesis using ds(1) S p(2) by (auto simp: pool_rep_def IZG_DISTANCE_def)
qed

lemma nth_concat_replicate:
  "i < k * length xs \<Longrightarrow> concat (replicate k xs) ! i = xs ! (i mod length xs)"
proof (induction k arbitrary: i)
  case (Suc k)
  then show ?case by (cases "i < length xs") (auto simp: nth_append not_less le_mod_geq)
qed simp

text \<open>
  With more zones than one report holds, the loop asks for the first \<open>REPORT_NUM\<close> zones again
  and again: either the copies fill the list of descriptors exactly or the last one runs over.
\<close>

lemma identify_many:
  assumes id: "nvme_id_ok ops hwp zsz nz" and rep: "nvme_report_ok ops hwp zsz nz"
    and nz: "REPORT_NUM < nz" "nz + REPORT_NUM < 2 ^ 32" and zsz: "0 < zsz" and v: "wp_valid hwp zsz nz d"
  shows "if REPORT_NUM dvd nz
     then \<exists>c. Identify_HW ops dev d = Inr (0, c) \<and> length (c_desc c) = nz
       \<and> (\<forall>z < nz. unat (zd_start_lba (c_desc c ! z)) = z mod REPORT_NUM * zsz)
     else Identify_HW ops dev d = Inl (OutOfBounds ''vector'')"
proof -
  obtain c where c: "zns_get_info ops dev d = Inr (0, c)" "length (c_desc c) = nz" "zi_max_zone_cnt (c_info c) = nz" "c_dev c = d"
    using zns_get_info_ok [OF id _ zsz] nz(2) by fastforce
  define len where "len = (of_nat ((REPORT_NUM + 1) * 64) :: 32 word)"
  define w13 where "w13 = (0 OR push_bit 16 (of_nat REPORT_ALL) OR push_bit 8 (of_nat REPORT_ALL_STATE) :: 32 word)"
  have "unat len = (REPORT_NUM + 1) * 64" by (simp add: len_def REPORT_NUM_def)
  moreover have "bit w13 16" by (simp add: w13_def REPORT_ALL_def REPORT_ALL_STATE_def)
  ultimately obtain ds where ds: "ioctl_io_recv ops (mk_passthru 0x7A 1 len 0 0 len w13) d = (0, of_nat REPORT_NUM, ds)"
    "zone_report hwp zsz REPORT_NUM d ds"
    using rep [unfolded nvme_report_ok_def, rule_format, of d "mk_passthru 0x7A 1 len 0 0 len w13" REPORT_NUM] v nz(1)
    by (auto simp: mk_passthru_def)
  have u: "unat (of_nat REPORT_NUM :: 64 word) = REPORT_NUM" by (simp add: REPORT_NUM_def)
  have R: "0 < REPORT_NUM" by (simp add: REPORT_NUM_def)
  have l: "length ds = REPORT_NUM" using ds(2) by (simp add: zone_report_def)
  have "first_report ops c (of_nat REPORT_NUM) ds"
    using ds u c(4) by (simp add: first_report_def zns_management_recv_def Let_def len_def w13_def zone_report_def)
  from zns_get_zone_desc_reports [OF this, unfolded u c(3), OF R c(2) nz(2)]
  have run: "zns_get_zone_desc ops REPORT_ALL REPORT_ALL_STATE 0 0 True c =
      (if REPORT_NUM dvd nz then Inr (c\<lparr>c_desc := concat (replicate (nz div REPORT_NUM) ds)\<rparr>) else Inl (OutOfBounds ''vector''))"
    using l by simp
  show ?thesis
  proof (cases "REPORT_NUM dvd nz")
    case True
    then have "unat (zd_start_lba (concat (replicate (nz div REPORT_NUM) ds) ! z)) = z mod REPORT_NUM * zsz" if "z < nz" for z
      using ds(2) l that R by (simp add: nth_concat_replicate zone_report_def)
    moreover have "length (concat (replicate (nz div REPORT_NUM) ds)) = nz"
      using True l by (simp add: length_concat sum_list_replicate)
    ultimately show ?thesis using run c(1) True by (simp add: Identify_HW_def)
  qed (use run c(1) in \<open>simp add: Identify_HW_def\<close>)
qed

text \<open>
  C32: starting the library on a device of at most \<open>REPORT_NUM\<close> = 1024 zones, with block
  addresses below 2^32, identifies the device, formats it and groups its zones: host and device
  agree on every zone, every zone is empty, and the pool gives out the zones in their order with
  all IZGs available. On a device with more zones, every report of the loop starts at block 0
  again: with a multiple of 1024 zones the descriptor of zone \<open>z\<close> is the one of zone
  \<open>z mod 1024\<close>, and with any other number the loop writes past the list of descriptors.
\<close>

theorem identify_starts_empty:
  assumes "nvme_id_ok ops hwp zsz nz" and "nvme_report_ok ops hwp zsz nz" and "IZG_DISTANCE \<le> nz" and "nz + REPORT_NUM < 2 ^ 32"
    and "0 < zsz" and "wp_valid hwp zsz nz d"
  shows "(if nz \<le> REPORT_NUM
     then (nz + 1) * zsz < 2 ^ 32 \<longrightarrow>
       (\<exists>c0 c p. Identify_HW ops dev d = Inr (0, c0) \<and> Identify_IZG ops (c0, empty_pool) = Inr (0, c, p)
          \<and> dev_sync hwp zsz nz c \<and> (\<forall>z < nz. zns_get_wp c z = Inr (z * zsz))
          \<and> pool_rep nz 0 p \<and> pl_available_izg_cnt p = 32)
     else if REPORT_NUM dvd nz
     then \<exists>c. Identify_HW ops dev d = Inr (0, c) \<and> length (c_desc c) = nz
       \<and> (\<forall>z < nz. unat (zd_start_lba (c_desc c ! z)) = z mod REPORT_NUM * zsz)
     else Identify_HW ops dev d = Inl (OutOfBounds ''vector''))"
proof (cases "nz \<le> REPORT_NUM")
  case True
  have "\<exists>c0 c p. Identify_HW ops dev d = Inr (0, c0) \<and> Identify_IZG ops (c0, empty_pool) = Inr (0, c, p)
     \<and> dev_sync hwp zsz nz c \<and> (\<forall>z < nz. zns_get_wp c z = Inr (z * zsz)) \<and> pool_rep nz 0 p \<and> pl_available_izg_cnt p = 32"
    if fits: "(nz + 1) * zsz < 2 ^ 32"
  proof -
    obtain c0 c p where c: "Identify_HW ops dev d = Inr (0, c0)" "Identify_IZG ops (c0, empty_pool) = Inr (0, c, p)"
      "dev_sync hwp zsz nz c" "\<forall>z < nz. wps c z = z * zsz" "pool_rep nz 0 p" "pl_available_izg_cnt p = 32"
      using identify_device [OF assms(1,3) True assms(5) fits assms(6)] by blast
    then have "\<forall>z < nz. zns_get_wp c z = Inr (z * zsz)" using zns_get_wp_ok [OF c(3)] by simp
    with c show ?thesis by blast
  qed
  with True show ?thesis by simp
next
  case False
  then show ?thesis using identify_many [OF assms(1,2) _ assms(4-6), of dev] by simp
qed

lemma emu_zone_report:
  assumes v: "wp_valid snd zsz nz d" and n: "n \<le> nz" and fits: "(nz + 1) * zsz < 2 ^ 64"
  shows "zone_report snd zsz n d (map (emu_desc zsz d) [0..<n])"
proof -
  have "i * zsz < 2 ^ 64 \<and> snd d i < 2 ^ 64" if "i < n" for i
  proof -
    have "(i + 1) * zsz \<le> (nz + 1) * zsz" using that n by (intro mult_le_mono1) simp
    then have "(i + 1) * zsz < 2 ^ 64" using fits by (rule le_less_trans)
    moreover have "snd d i \<le> (i + 1) * zsz" using v that n by (simp add: wp_valid_def)
    ultimately show ?thesis by simp
  qed
  then show ?thesis by (simp add: zone_report_def emu_desc_def unat_of_nat take_bit_nat_eq_self del: of_nat_mult)
qed

lemma emu_id_ok:
  assumes "0 < zsz" and fits: "(nz + 1) * zsz < 2 ^ 64"
  shows "nvme_id_ok (emu_ops zsz nz) snd zsz nz"
proof -
  have z: "zsz < 2 ^ 64" "nz * zsz < 2 ^ 64" using fits by simp_all
  show ?thesis
    unfolding nvme_id_ok_def
  proof (intro conjI allI impI)
    fix d :: emu and cmd :: nvme_passthru_cmd
    assume a: "wp_valid snd zsz nz d \<and> pc_opcode cmd = 0x7A \<and> pc_cdw10 cmd = 0 \<and> pc_cdw11 cmd = 0
       \<and> (nz + 1) * 64 \<le> unat (pc_data_len cmd)"
    then have "min (unat (pc_data_len cmd) div 64 - 1) nz = nz" by (simp add: min_def) linarith
    then show "\<exists>ds. ioctl_io_recv (emu_ops zsz nz) cmd d = (0, of_nat nz, ds) \<and> zone_report snd zsz nz d ds"
      using a emu_zone_report [OF _ order_refl fits] by (simp add: emu_ops_def emu_recv_def)
  qed (use z in \<open>auto simp: emu_ops_def unat_of_nat take_bit_nat_eq_self simp del: of_nat_mult\<close>)
qed

lemma emu_report_ok:
  assumes fits: "(nz + 1) * zsz < 2 ^ 64"
  shows "nvme_report_ok (emu_ops zsz nz) snd zsz nz"
  using emu_zone_report [OF _ min.cobounded2 fits] by (auto simp: nvme_report_ok_def emu_ops_def emu_recv_def Let_def)

text \<open>The emulated device of the examples, and one of the size the README names: 29,172 zones of 72 MiB.\<close>

theorem identify_starts_empty_witness:
  "(\<exists>c0 c p. Identify_HW (emu_ops (2 * IO_BLOCKS) 40) ''/dev/nvme0n1'' (emu_init (2 * IO_BLOCKS)) = Inr (0, c0)
     \<and> Identify_IZG (emu_ops (2 * IO_BLOCKS) 40) (c0, empty_pool) = Inr (0, c, p) \<and> pool_rep 40 0 p)
   \<and> Identify_HW (emu_ops 147456 29172) ''/dev/nvme0n1'' (emu_init 147456) = Inl (OutOfBounds ''vector'')"
proof -
  have id: "nvme_id_ok (emu_ops (2 * IO_BLOCKS) 40) snd (2 * IO_BLOCKS) 40" "nvme_id_ok (emu_ops 147456 29172) snd 147456 29172"
    by (rule emu_id_ok; simp add: IO_BLOCKS_def)+
  have rep: "nvme_report_ok (emu_ops (2 * IO_BLOCKS) 40) snd (2 * IO_BLOCKS) 40" "nvme_report_ok (emu_ops 147456 29172) snd 147456 29172"
    by (rule emu_report_ok; simp add: IO_BLOCKS_def)+
  have v: "wp_valid snd zsz nz (emu_init zsz)" for zsz nz by (simp add: wp_valid_def emu_init_def)
  show ?thesis
  proof
    show "\<exists>c0 c p. Identify_HW (emu_ops (2 * IO_BLOCKS) 40) ''/dev/nvme0n1'' (emu_init (2 * IO_BLOCKS)) = Inr (0, c0)
       \<and> Identify_IZG (emu_ops (2 * IO_BLOCKS) 40) (c0, empty_pool) = Inr (0, c, p) \<and> pool_rep 40 0 p"
      using identify_starts_empty [OF id(1) rep(1) _ _ _ v, of "''/dev/nvme0n1''"]
      by (simp add: IO_BLOCKS_def REPORT_NUM_def IZG_DISTANCE_def) fast
    show "Identify_HW (emu_ops 147456 29172) ''/dev/nvme0n1'' (emu_init 147456) = Inl (OutOfBounds ''vector'')"
      using identify_starts_empty [OF id(2) rep(2) _ _ _ v, of "''/dev/nvme0n1''"]
      by (simp add: REPORT_NUM_def IZG_DISTANCE_def)
  qed
qed

end
