(* ===== verification/Partition.thy ===== *)
theory Partition
  imports IZG_Pool
begin

text \<open>
  \<^verbatim>\<open>src/util/zoad/Partition.cpp\<close> and the request objects of \<^verbatim>\<open>IO_request.h\<close>: a logical
  partition with its zones, its user data by name, its request queue and its two states.
  A partition object outlives \<^verbatim>\<open>del\<close>; what \<^verbatim>\<open>del\<close> frees (the status, its lock, the queue)
  must not be touched afterwards. The status lock is taken and released within single
  calls and is not part of the state.
\<close>

section \<open>Requests\<close>

definition WRITE :: nat where "WRITE = 0"
definition READ :: nat where "READ = 1"
definition READ_RANDOM :: nat where "READ_RANDOM = 2"
definition DELETE :: nat where "DELETE = 3"

lemmas request_modes = WRITE_def READ_def READ_RANDOM_def DELETE_def

text \<open>\<open>ir_data\<close> is the pointer to the user data, \<open>ir_r_buf\<close> a position in the client's memory.\<close>

record IO_request =
  ir_rw :: nat
  ir_read_complete :: bool
  ir_w_buf :: "byte list"
  ir_r_buf :: nat
  ir_size :: nat
  ir_offset :: nat
  ir_data :: nat

definition new_IO_request_delete :: "nat \<Rightarrow> nat \<Rightarrow> IO_request" where
  "new_IO_request_delete mode userdata =
     \<lparr>ir_rw = mode, ir_read_complete = False, ir_w_buf = [], ir_r_buf = 0, ir_size = 0, ir_offset = 0,
      ir_data = userdata\<rparr>"

definition new_IO_request_write :: "nat \<Rightarrow> byte list \<Rightarrow> nat \<Rightarrow> nat \<Rightarrow> IO_request" where
  "new_IO_request_write mode buffer buf_size userdata =
     \<lparr>ir_rw = mode, ir_read_complete = False, ir_w_buf = buffer, ir_r_buf = 0, ir_size = buf_size,
      ir_offset = 0, ir_data = userdata\<rparr>"

definition new_IO_request_read :: "nat \<Rightarrow> nat \<Rightarrow> nat \<Rightarrow> nat \<Rightarrow> nat \<Rightarrow> IO_request" where
  "new_IO_request_read mode buffer r_offset buf_size userdata =
     \<lparr>ir_rw = mode, ir_read_complete = False, ir_w_buf = [], ir_r_buf = buffer, ir_size = buf_size,
      ir_offset = r_offset, ir_data = userdata\<rparr>"

section \<open>The partition object\<close>

definition OPEN :: nat where "OPEN = 0"
definition CLOSE :: nat where "CLOSE = 1"

definition Z_ASYNC :: nat where "Z_ASYNC = 0"
definition Z_UPDATE :: nat where "Z_UPDATE = 1"
definition Z_APPEND :: nat where "Z_APPEND = 2"

lemmas status_defs = OPEN_def CLOSE_def

text \<open>
  \<open>pt_locked\<close> is the partition's mutex, \<open>pt_thread\<close> whether its thread member is joinable,
  \<open>pt_deleted\<close> whether \<^verbatim>\<open>del\<close> has run.
\<close>

record Partition =
  pt_id :: nat
  pt_name :: string
  pt_izg_cnt :: nat
  pt_mk_flag :: nat
  pt_op_flag :: nat
  pt_status :: nat
  pt_io_queue :: "IO_request list"
  pt_thread :: bool
  pt_userdata_map :: "string \<rightharpoonup> nat"
  pt_zone_vector :: "Zone list"
  pt_locked :: bool
  pt_read_buf :: "byte list"
  pt_deleted :: bool

text \<open>\<open>raw\<close> is what the memory returned by \<^verbatim>\<open>new char[...]\<close> holds.\<close>

definition new_Partition :: "(nat \<Rightarrow> byte) \<Rightarrow> nat \<Rightarrow> string \<Rightarrow> nat \<Rightarrow> nat \<Rightarrow> Partition" where
  "new_Partition raw next_partition_id p_name izg_num p_flag =
     \<lparr>pt_id = next_partition_id, pt_name = p_name, pt_izg_cnt = izg_num, pt_mk_flag = p_flag,
      pt_op_flag = 0, pt_status = CLOSE, pt_io_queue = [], pt_thread = False,
      pt_userdata_map = Map.empty, pt_zone_vector = [], pt_locked = False,
      pt_read_buf = map raw [0..<IO_SIZE * izg_num], pt_deleted = False\<rparr>"

text \<open>Access to an object that \<^verbatim>\<open>del\<close> has freed.\<close>

definition alive :: "Partition \<Rightarrow> unit res" where
  "alive p = (if pt_deleted p then Inl (UseAfterFree ''Partition'') else Inr ())"

text \<open>
  Opening starts the worker thread; assigning to a thread member that is still joinable
  terminates the program.
\<close>

definition Partition_open :: "nat \<Rightarrow> Partition \<Rightarrow> Partition res" where
  "Partition_open flag p =
     ebind (alive p) (\<lambda>_.
       if pt_status p = OPEN then Inl (Exit ''Already Open Zone'')
       else if pt_thread p then Inl (Exit ''terminate: thread is joinable'')
       else Inr (p\<lparr>pt_status := OPEN, pt_op_flag := flag, pt_thread := True\<rparr>))"

definition Partition_close :: "Partition \<Rightarrow> Partition res" where
  "Partition_close p =
     ebind (alive p) (\<lambda>_.
       if pt_status p = CLOSE then Inl (Exit ''Already Close Zone'')
       else Inr (p\<lparr>pt_status := CLOSE\<rparr>))"

definition Partition_del :: "Partition \<Rightarrow> Partition res" where
  "Partition_del p =
     ebind (alive p) (\<lambda>_.
       if pt_status p \<noteq> CLOSE then Inl (Exit ''Delete Open Zone'')
       else Inr (p\<lparr>pt_deleted := True\<rparr>))"

definition get_status :: "Partition \<Rightarrow> nat res" where
  "get_status p = ebind (alive p) (\<lambda>_. Inr (pt_status p))"

definition lock_partition :: "Partition \<Rightarrow> Partition res" where
  "lock_partition p =
     (if pt_locked p then Inl (Deadlock ''partition_lock'') else Inr (p\<lparr>pt_locked := True\<rparr>))"

definition unlock_partition :: "Partition \<Rightarrow> Partition res" where
  "unlock_partition p =
     (if pt_locked p then Inr (p\<lparr>pt_locked := False\<rparr>) else Inl (BadUnlock ''partition_lock''))"

definition userdata_exist :: "string \<Rightarrow> Partition \<Rightarrow> bool" where
  "userdata_exist data_name p = (pt_userdata_map p data_name \<noteq> None)"

definition get_userdata :: "string \<Rightarrow> Partition \<Rightarrow> nat res" where
  "get_userdata data_name p =
     (case pt_userdata_map p data_name of None \<Rightarrow> Inl (Undefined ''end()->second'') | Some u \<Rightarrow> Inr u)"

definition invalid_userdata :: "string \<Rightarrow> Partition \<Rightarrow> Partition" where
  "invalid_userdata data_name p = p\<lparr>pt_userdata_map := (pt_userdata_map p)(data_name := None)\<rparr>"

text \<open>\<^verbatim>\<open>std::map::insert\<close> leaves an existing entry alone.\<close>

definition new_userdata :: "string \<Rightarrow> nat \<Rightarrow> Partition \<Rightarrow> Partition" where
  "new_userdata data_name userdata p =
     (if userdata_exist data_name p then p
      else p\<lparr>pt_userdata_map := (pt_userdata_map p)(data_name \<mapsto> userdata)\<rparr>)"

definition new_request :: "IO_request \<Rightarrow> Partition \<Rightarrow> Partition res" where
  "new_request request p =
     ebind (alive p) (\<lambda>_. Inr (p\<lparr>pt_io_queue := q_push (pt_io_queue p) request\<rparr>))"

definition alloc_zone :: "Partition \<times> pool \<Rightarrow> (int \<times> Partition \<times> pool) res" where
  "alloc_zone = (\<lambda>(p, pool).
     ebind (take_zone pool) (\<lambda>(next_zone, pool').
       if next_zone < 0 then Inr (-1, p, pool')
       else Inr (0, p\<lparr>pt_zone_vector := pt_zone_vector p @ [new_Zone (nat next_zone)]\<rparr>, pool')))"

definition zone_empty :: "Partition \<Rightarrow> bool" where
  "zone_empty p = (pt_zone_vector p = [])"

definition zone_size :: "Partition \<Rightarrow> nat" where
  "zone_size p = length (pt_zone_vector p)"

text \<open>The \<open>n\<close>-th zone from the back, as the reverse iterators reach it.\<close>

definition zone_back :: "Partition \<Rightarrow> nat \<Rightarrow> Zone res" where
  "zone_back p n = vec_at (rev (pt_zone_vector p)) n"

section \<open>The life of a partition\<close>

text \<open>
  The operations of the API on one partition, as a step relation: no operation leads out
  of the two states, a partition is opened at most once, and a freed one is closed.
\<close>

datatype lp_op = LpOpen nat | LpClose | LpDel

fun lp_apply :: "lp_op \<Rightarrow> Partition \<Rightarrow> Partition res" where
  "lp_apply (LpOpen flag) p = Partition_open flag p"
| "lp_apply LpClose p = Partition_close p"
| "lp_apply LpDel p = Partition_del p"

fun lp_run :: "lp_op list \<Rightarrow> Partition \<Rightarrow> Partition res" where
  "lp_run [] p = Inr p"
| "lp_run (x # xs) p = ebind (lp_apply x p) (lp_run xs)"

fun is_open :: "lp_op \<Rightarrow> bool" where
  "is_open (LpOpen _) = True"
| "is_open LpClose = False"
| "is_open LpDel = False"

definition lp_inv :: "Partition \<Rightarrow> bool" where
  "lp_inv p \<longleftrightarrow> (pt_status p = OPEN \<or> pt_status p = CLOSE) \<and> (pt_status p = OPEN \<longrightarrow> pt_thread p)
     \<and> (pt_deleted p \<longrightarrow> pt_status p = CLOSE)"

lemma lp_apply_inv: "lp_inv p \<Longrightarrow> lp_apply x p = Inr p' \<Longrightarrow> lp_inv p'"
  by (cases x) (auto simp: lp_inv_def alive_def Partition_open_def Partition_close_def Partition_del_def
      status_defs split: if_splits)

lemma lp_thread_stays: "lp_run xs p = Inr p' \<Longrightarrow> pt_thread p \<Longrightarrow> (\<forall>x \<in> set xs. \<not> is_open x) \<and> pt_thread p'"
proof (induction xs arbitrary: p)
  case Nil
  then show ?case by simp
next
  case (Cons x xs)
  then obtain q where q: "lp_apply x p = Inr q" "lp_run xs q = Inr p'" by (auto simp: fault_simps)
  have "\<not> is_open x \<and> pt_thread q"
    using q(1) Cons.prems(2)
    by (cases x) (auto simp: alive_def Partition_open_def Partition_close_def Partition_del_def split: if_splits)
  with Cons.IH [OF q(2)] show ?case by auto
qed

lemma lp_run_inv: "lp_run xs p = Inr p' \<Longrightarrow> lp_inv p \<Longrightarrow> lp_inv p'"
  by (induction xs arbitrary: p) (auto simp: fault_simps dest: lp_apply_inv)

text \<open>
  C14: any sequence of opens, closes and deletes of a new partition that does not end the program
  contains at most one open, and leaves the partition open or closed, with its worker
  started whenever it is open and closed whenever it is freed.
\<close>

theorem partition_life:
  assumes "lp_run xs (new_Partition raw i name izg flag) = Inr p"
  shows "length (filter is_open xs) \<le> 1 \<and> lp_inv p"
proof -
  have one: "length (filter is_open xs) \<le> 1" if "lp_run xs q = Inr p" for q
    using that
  proof (induction xs arbitrary: q)
    case Nil
    then show ?case by simp
  next
    case (Cons x xs)
    then obtain r where r: "lp_apply x q = Inr r" "lp_run xs r = Inr p" by (auto simp: fault_simps)
    show ?case
    proof (cases "is_open x")
      case True
      then have "pt_thread r"
        using r(1) by (cases x) (auto simp: Partition_open_def fault_simps split: if_splits)
      then show ?thesis using lp_thread_stays [OF r(2)] True by (auto simp: filter_empty_conv)
    next
      case False
      then show ?thesis using Cons.IH [OF r(2)] by simp
    qed
  qed
  have "lp_inv (new_Partition raw i name izg flag)" by (simp add: lp_inv_def new_Partition_def status_defs)
  with one [OF assms] lp_run_inv [OF assms] show ?thesis by blast
qed

theorem partition_life_witness:
  "\<exists>p. lp_run [LpOpen 0, LpClose, LpDel] (new_Partition (\<lambda>_. 0) 1 ''0'' 4 1) = Inr p
     \<and> length (filter is_open [LpOpen 0, LpClose, LpDel]) \<le> 1 \<and> lp_inv p"
proof -
  have "\<exists>p. lp_run [LpOpen 0, LpClose, LpDel] (new_Partition (\<lambda>_. 0) 1 ''0'' 4 1) = Inr p"
    by (simp add: new_Partition_def Partition_open_def Partition_close_def Partition_del_def alive_def status_defs)
  then show ?thesis using partition_life [of "[LpOpen 0, LpClose, LpDel]"] by blast
qed

section \<open>Allocation\<close>

lemma alloc_zone_pool:
  assumes "pool_rep nz k pool"
  shows "k < nz \<Longrightarrow> \<exists>pool'. alloc_zone (p, pool) =
       Inr (0, p\<lparr>pt_zone_vector := pt_zone_vector p @ [new_Zone k]\<rparr>, pool') \<and> pool_rep nz (Suc k) pool'"
    and "nz \<le> k \<Longrightarrow> alloc_zone (p, pool) = Inr (-1, p, pool)"
  using pool_src.take_left [OF assms] pool_src.take_empty [OF assms] by (auto simp: alloc_zone_def)

end
