(* ===== verification/Userdata.thy ===== *)
theory Userdata
  imports Partition
begin

text \<open>
  \<^verbatim>\<open>src/util/zoad/Userdata.cpp\<close>: segments and user data, and the operations on them
  (append, the two reads, delete, sync) with the allocation of zones and intervals behind
  an append. The operations work on the partition of the user data and on the shared
  world: controller, pool of zones, heap of intervals.
\<close>

section \<open>Segments and user data\<close>

record Segment =
  sg_id :: nat
  sg_offset :: nat
  sg_size :: nat
  sg_interval_vector :: "nat list"

definition new_Segment :: "nat \<Rightarrow> nat \<Rightarrow> nat \<Rightarrow> Segment" where
  "new_Segment i seg_offset seg_size =
     \<lparr>sg_id = i, sg_offset = seg_offset, sg_size = seg_size, sg_interval_vector = []\<rparr>"

definition get_next_offset :: "Segment \<Rightarrow> nat" where
  "get_next_offset s = u32 (sg_offset s + sg_size s)"

definition set_interval_list :: "nat list \<Rightarrow> Segment \<Rightarrow> Segment" where
  "set_interval_list l s = s\<lparr>sg_interval_vector := l\<rparr>"

text \<open>\<open>ud_write_lock\<close> is the spin lock; \<open>ud_partition\<close> points to the partition.\<close>

record Userdata =
  ud_partition :: nat
  ud_next_segment_id :: nat
  ud_file_segment :: "Segment list"
  ud_size :: nat
  ud_remain_write_req :: nat
  ud_write_lock :: bool

text \<open>The constructor leaves \<^verbatim>\<open>next_segment_id\<close> as memory has it (\<open>seg0\<close>).\<close>

definition new_Userdata :: "nat \<Rightarrow> nat \<Rightarrow> Userdata" where
  "new_Userdata seg0 part =
     \<lparr>ud_partition = part, ud_next_segment_id = seg0, ud_file_segment = [], ud_size = 0,
      ud_remain_write_req = 0, ud_write_lock = False\<rparr>"

text \<open>\<^verbatim>\<open>upper_bound\<close> by offset on the sorted vector, then insertion there.\<close>

definition insert_segment :: "Segment list \<Rightarrow> Segment \<Rightarrow> Segment list" where
  "insert_segment cont segment =
     takeWhile (\<lambda>s. \<not> sg_offset segment < sg_offset s) cont @ segment #
     dropWhile (\<lambda>s. \<not> sg_offset segment < sg_offset s) cont"

definition acquire :: "Userdata \<Rightarrow> Userdata res" where
  "acquire u = (if ud_write_lock u then Inl (Deadlock ''write_lock'') else Inr (u\<lparr>ud_write_lock := True\<rparr>))"

definition release :: "Userdata \<Rightarrow> Userdata" where
  "release u = u\<lparr>ud_write_lock := False\<rparr>"

section \<open>Writing a segment\<close>

record 'd world =
  wd_c :: "'d ctrl"
  wd_pool :: pool
  wd_iv :: "Interval list"

type_synonym 'd pw = "Partition \<times> 'd world"

definition alloc_or_exit :: "'d pw \<Rightarrow> 'd pw res" where
  "alloc_or_exit = (\<lambda>(p, w).
     ebind (alloc_zone (p, wd_pool w)) (\<lambda>(r, p, pool).
       if r < 0 then Inl (Exit ''_write - allocd_zone fail'') else Inr (p, w\<lparr>wd_pool := pool\<rparr>)))"

text \<open>The three cases at the start of \<^verbatim>\<open>_write\<close>: no zones, too few zones, full zones at the end.\<close>

definition count_full :: "'d pw \<Rightarrow> nat \<Rightarrow> nat res" where
  "count_full = (\<lambda>(p, w) izg_cnt.
     efor 0 izg_cnt (\<lambda>i cnt.
       ebind (zone_back p i) (\<lambda>z. ebind (Zone_full (wd_c w) z) (\<lambda>full.
         Inr (if full then cnt + 1 else cnt)))) 0)"

definition prepare_zones :: "nat \<Rightarrow> 'd pw \<Rightarrow> 'd pw res" where
  "prepare_zones izg_cnt = (\<lambda>(p, w).
     if zone_empty p then efor 0 izg_cnt (\<lambda>_. alloc_or_exit) (p, w)
     else if zone_size p < izg_cnt then
       ebind (ewhile izg_cnt ''_write'' (\<lambda>(i, p, w). i < u32_sub izg_cnt (zone_size p))
                (\<lambda>(i, pw). ebind (alloc_or_exit pw) (\<lambda>pw. Inr (i + 1, pw))) (0, p, w))
         (\<lambda>(_, pw). Inr pw)
     else ebind (count_full (p, w) izg_cnt) (\<lambda>cnt. efor 0 cnt (\<lambda>_. alloc_or_exit) (p, w)))"

text \<open>
  The pass over the last \<open>target\<close> zones, from the back: \<open>n\<close> is the iterator, \<open>i\<close> the
  counter, which a full zone advances twice.
\<close>

definition back_pass ::
  "nat \<Rightarrow> (Zone \<Rightarrow> nat \<Rightarrow> 's \<Rightarrow> 's res) \<Rightarrow> ('s \<Rightarrow> 'd pw) \<Rightarrow> 's \<Rightarrow> 's res" where
  "back_pass target body view s =
     ebind (ewhile target ''_write'' (\<lambda>(i, n, s). i < target)
              (\<lambda>(i, n, s).
                 ebind (zone_back (fst (view s)) n) (\<lambda>z.
                 ebind (Zone_full (wd_c (snd (view s))) z) (\<lambda>full.
                   if full then Inr (i + 2, n + 1, s)
                   else ebind (body z n s) (\<lambda>s. Inr (i + 1, n + 1, s))))) (0, 0, s))
       (\<lambda>(_, _, s). Inr s)"

definition free_sizes :: "nat \<Rightarrow> int \<Rightarrow> 'd pw \<Rightarrow> (int \<times> nat list) res" where
  "free_sizes target tsize pw =
     back_pass target (\<lambda>z _ (ts, ws).
         ebind (Zone_get_free_size (wd_c (snd pw)) z) (\<lambda>free_size.
           Inr (s32 (ts - int free_size), ws @ [free_size]))) (\<lambda>_. pw) (tsize, [])"

text \<open>
  \<^verbatim>\<open>while(target_size > 0)\<close>: another group of whole zones. Every round with a non-empty group
  takes at least one block off, so \<open>write_size\<close> rounds are enough.
\<close>

definition more_zones ::
  "nat \<Rightarrow> nat \<Rightarrow> int \<Rightarrow> nat list \<Rightarrow> 'd pw \<Rightarrow> (nat \<times> nat list \<times> 'd pw) res" where
  "more_zones write_size izg_cnt tsize ws pw =
     ebind (ewhile write_size ''_write'' (\<lambda>(ts, tz, ws, pw). 0 < ts)
              (\<lambda>(ts, tz, ws, pw).
                 ebind (efor 0 izg_cnt (\<lambda>_ (ts, ws, pw).
                          ebind (alloc_or_exit pw) (\<lambda>pw.
                            let zs = zns_get_zone_size (wd_c (snd pw)) in
                            Inr (s32 (ts - int zs), ws @ [zs], pw))) (ts, ws, pw))
                   (\<lambda>(ts, ws, pw). Inr (ts, u32 (tz + izg_cnt), ws, pw)))
              (tsize, izg_cnt, ws, pw))
       (\<lambda>(_, tz, ws, pw). Inr (tz, ws, pw))"

text \<open>A new interval for every zone that is not full, entered in the zone and in the list.\<close>

definition new_intervals :: "nat \<Rightarrow> nat \<Rightarrow> 'd pw \<Rightarrow> (nat list \<times> 'd pw) res" where
  "new_intervals target segment_id pw =
     back_pass target (\<lambda>z n (l, p, w).
         ebind (Zone_get_wp (wd_c w) z) (\<lambda>wp.
         let q = length (wd_iv w) in
         Inr (l @ [q],
              p\<lparr>pt_zone_vector := (pt_zone_vector p)[length (pt_zone_vector p) - 1 - n := Zone_insert_interval z q]\<rparr>,
              w\<lparr>wd_iv := wd_iv w @ [new_Interval (zn_number z) segment_id wp wp]\<rparr>))) snd ([], pw)"

definition Userdata__write ::
  "'d nvme_ops \<Rightarrow> nat list \<Rightarrow> Segment \<Rightarrow> byte list \<Rightarrow> nat \<Rightarrow> 'd pw \<Rightarrow> (int \<times> Segment \<times> 'd pw) res" where
  "Userdata__write ops past segment buf write_size pw =
     (let izg_cnt = pt_izg_cnt (fst pw) in
      ebind (prepare_zones izg_cnt pw) (\<lambda>pw.
      ebind (free_sizes izg_cnt (s32 (int write_size)) pw) (\<lambda>(tsize, ws).
      ebind (more_zones write_size izg_cnt tsize (rev ws) pw) (\<lambda>(target_zone_cnt, ws, pw).
      ebind (new_intervals target_zone_cnt (sg_id segment) pw) (\<lambda>(l, p, w).
      let interval_list = rev l; segment = set_interval_list interval_list segment in
      ebind (izg_write ops past buf izg_cnt target_zone_cnt interval_list ws write_size (wd_c w, wd_iv w))
        (\<lambda>(ret, c, iv). Inr (ret, segment, p, w\<lparr>wd_c := c, wd_iv := iv\<rparr>)))))))"

section \<open>Reading a segment\<close>

definition Userdata__read_offset ::
  "'d nvme_ops \<Rightarrow> Segment \<Rightarrow> nat \<Rightarrow> nat \<Rightarrow> nat \<Rightarrow> nat \<Rightarrow> 'd world \<Rightarrow> byte list \<Rightarrow> (int \<times> byte list) res" where
  "Userdata__read_offset ops segment buf izg_cnt start_offset req_size w mem =
     (let interval_list = sg_interval_vector segment in
      izg_read_offset ops (wd_c w) (wd_iv w) buf izg_cnt (length interval_list) interval_list
        start_offset req_size mem)"

definition Userdata__read ::
  "'d nvme_ops \<Rightarrow> Segment \<Rightarrow> nat \<Rightarrow> nat \<Rightarrow> nat \<Rightarrow> 'd world \<Rightarrow> byte list \<Rightarrow> (int \<times> byte list) res" where
  "Userdata__read ops segment buf izg_cnt req_size w mem =
     (let interval_list = sg_interval_vector segment;
          target_zone_cnt = (if izg_cnt \<le> req_size div IO_BLOCKS then length interval_list
                             else if req_size div IO_BLOCKS = 0 then 1 else req_size div IO_BLOCKS)
      in izg_read ops (wd_c w) (wd_iv w) buf izg_cnt target_zone_cnt interval_list mem)"

section \<open>The public operations\<close>

definition Get_size :: "Userdata \<Rightarrow> nat" where
  "Get_size u = ud_size u"

definition blocks_of :: "nat \<Rightarrow> nat" where
  "blocks_of n = (if n mod BLOCK_SIZE = 0 then n div BLOCK_SIZE else n div BLOCK_SIZE + 1)"

definition Append ::
  "'d nvme_ops \<Rightarrow> nat list \<Rightarrow> byte list \<Rightarrow> nat \<Rightarrow> Userdata \<times> 'd pw \<Rightarrow> (int \<times> Userdata \<times> 'd pw) res" where
  "Append ops past buf write_size = (\<lambda>(u, pw).
     let ws = blocks_of write_size in
     ebind (acquire u) (\<lambda>u.
     let u = u\<lparr>ud_remain_write_req := u32 (ud_remain_write_req u + 1)\<rparr>;
         offset = (if ud_file_segment u = [] then 0 else get_next_offset (last (ud_file_segment u)));
         tmp_seg = new_Segment (ud_next_segment_id u) offset ws;
         u = u\<lparr>ud_next_segment_id := u32 (ud_next_segment_id u + 1)\<rparr> in
     ebind (Userdata__write ops past tmp_seg buf ws pw) (\<lambda>(write_result, tmp_seg, pw).
       if write_result < 0 then Inl (Exit ''Append error'')
       else
         Inr (0, release (u\<lparr>ud_file_segment := insert_segment (ud_file_segment u) tmp_seg,
                            ud_size := u32 (ud_size u + ws),
                            ud_remain_write_req := u32_sub (ud_remain_write_req u) 1\<rparr>), pw))))"

text \<open>
  \<^verbatim>\<open>Read(buf, read_size)\<close>: whole segments from the start of the data until the size is
  used up; the size is unsigned, so a last segment that is too long wraps it around.
\<close>

fun read_all ::
  "'d nvme_ops \<Rightarrow> nat \<Rightarrow> 'd world \<Rightarrow> Segment list \<Rightarrow> nat \<Rightarrow> nat \<Rightarrow> byte list \<Rightarrow> byte list res" where
  "read_all ops izg_cnt w [] tmp_buf read_size mem = Inr mem"
| "read_all ops izg_cnt w (s # ss) tmp_buf read_size mem =
     (if read_size = 0 then Inr mem
      else ebind (Userdata__read ops s tmp_buf izg_cnt (sg_size s) w mem) (\<lambda>(_, mem).
             read_all ops izg_cnt w ss (tmp_buf + u32 (sg_size s * BLOCK_SIZE)) (u32_sub read_size (sg_size s)) mem))"

definition Read_all ::
  "'d nvme_ops \<Rightarrow> nat \<Rightarrow> nat \<Rightarrow> Userdata \<Rightarrow> 'd pw \<Rightarrow> byte list \<Rightarrow> (int \<times> byte list) res" where
  "Read_all ops buf read_size u pw mem =
     ebind (acquire u) (\<lambda>_.
     ebind (read_all ops (pt_izg_cnt (fst pw)) (snd pw) (ud_file_segment u) buf (blocks_of read_size) mem) (\<lambda>mem.
       Inr (0, mem)))"

text \<open>
  \<^verbatim>\<open>Read(buf, offset, read_size)\<close>. The variables of the loop over the segments: the rest to
  read in blocks, the block offset, the size of the request for a segment (kept from
  segment to segment), the byte offset and byte size as given, the position in the
  caller's buffer, the flag for bytes left in the next segment; the caller's memory and
  the read buffer of the partition.
\<close>

record rdstate =
  rd_read_size :: nat
  rd_offset :: nat
  rd_req_size :: nat
  rd_ori_offset :: nat
  rd_ori_read_size :: nat
  rd_buf_offset :: nat
  rd_remain_bytes :: bool
  rd_mem :: "byte list"
  rd_tmp :: "byte list"

text \<open>The size of the request for the segment at the current offset, and where it starts.\<close>

definition segment_request :: "Segment \<Rightarrow> rdstate \<Rightarrow> nat \<times> nat" where
  "segment_request s r =
     (if rd_offset r = sg_offset s then
        (0, if sg_size s < rd_req_size r then sg_size s else rd_read_size r)
      else
        let start_offset = u32_sub (rd_offset r) (sg_offset s) in
        (start_offset,
         if sg_size s < u32 (start_offset + rd_read_size r) then u32_sub (sg_size s) start_offset
         else rd_read_size r))"

text \<open>The copy from the read buffer; \<open>stripe\<close> is \<^verbatim>\<open>IO_SIZE * izg_cnt\<close>.\<close>

definition copy_piece :: "nat \<Rightarrow> nat \<Rightarrow> nat \<Rightarrow> nat \<Rightarrow> rdstate \<Rightarrow> rdstate res" where
  "copy_piece stripe blocks buf req_size r =
     (let pos = buf + rd_buf_offset r; skip = rd_ori_offset r mod stripe; rest = stripe - skip;
          put = (\<lambda>from n. ebind (mem_read (rd_tmp r) from n) (mem_write (rd_mem r) pos)) in
      if rd_remain_bytes r then
        ebind (put 0 (rd_ori_read_size r)) (\<lambda>mem. Inr (r\<lparr>rd_mem := mem\<rparr>))
      else if req_size < blocks then
        if rd_ori_read_size r \<le> rest then
          ebind (put skip (rd_ori_read_size r)) (\<lambda>mem. Inr (r\<lparr>rd_mem := mem\<rparr>))
        else
          ebind (put skip rest) (\<lambda>mem.
            Inr (r\<lparr>rd_mem := mem,
                   rd_ori_read_size := (if rd_read_size r \<noteq> 0 then rd_ori_read_size r - rest
                                        else rd_ori_read_size r)\<rparr>))
      else ebind (put skip rest) (\<lambda>mem. Inr (r\<lparr>rd_mem := mem\<rparr>)))"

text \<open>After the copy: what is left over for the next segment.\<close>

definition after_piece :: "nat \<Rightarrow> Segment \<Rightarrow> rdstate \<Rightarrow> rdstate" where
  "after_piece stripe s r =
     (let rest = stripe - rd_ori_offset r mod stripe;
          r1 = (if rd_remain_bytes r then r\<lparr>rd_remain_bytes := False\<rparr>
                else if rest < rd_ori_read_size r \<and> rd_read_size r = 0 then
                  r\<lparr>rd_ori_read_size := rd_ori_read_size r - rest, rd_offset := u32 (sg_offset s + sg_size s),
                    rd_read_size := blocks_of (rd_ori_read_size r - rest), rd_remain_bytes := True\<rparr>
                else r)
      in r1\<lparr>rd_req_size := 0, rd_buf_offset := u32 (rd_buf_offset r + rest), rd_ori_offset := 0\<rparr>)"

definition read_segment ::
  "'d nvme_ops \<Rightarrow> nat \<Rightarrow> 'd world \<Rightarrow> nat \<Rightarrow> Segment \<Rightarrow> rdstate \<Rightarrow> rdstate res" where
  "read_segment ops izg_cnt w buf s r =
     (let stripe = u32 (IO_SIZE * izg_cnt); blocks = u32 (IO_BLOCKS * izg_cnt);
          (start_offset, req_size) = segment_request s r;
          r = r\<lparr>rd_read_size := u32_sub (rd_read_size r) req_size, rd_offset := u32 (rd_offset r + req_size),
                rd_req_size := req_size\<rparr> in
      if 0 < rd_ori_offset r \<and> stripe = 0 then Inl (DivByZero ''ori_offset % (IO_SIZE * izg_cnt)'')
      else if (0 < rd_ori_offset r \<and> rd_ori_offset r mod stripe \<noteq> 0) \<or> rd_remain_bytes r \<or> req_size < blocks then
        let units = (if req_size mod IO_BLOCKS = 0 then req_size div IO_BLOCKS else req_size div IO_BLOCKS + 1);
            tmp_size = u32 (units * IO_SIZE) in
        ebind (Userdata__read_offset ops s 0 izg_cnt start_offset tmp_size w (rd_tmp r)) (\<lambda>(_, tmp).
        ebind (copy_piece stripe blocks buf req_size (r\<lparr>rd_tmp := tmp\<rparr>)) (\<lambda>r.
          Inr (after_piece stripe s r)))
      else
        ebind (Userdata__read_offset ops s (buf + rd_buf_offset r) izg_cnt start_offset req_size w (rd_mem r))
          (\<lambda>(_, mem). Inr (r\<lparr>rd_mem := mem, rd_buf_offset := u32 (rd_buf_offset r + req_size * BLOCK_SIZE)\<rparr>)))"

fun read_segments ::
  "'d nvme_ops \<Rightarrow> nat \<Rightarrow> 'd world \<Rightarrow> nat \<Rightarrow> Segment list \<Rightarrow> rdstate \<Rightarrow> rdstate res" where
  "read_segments ops izg_cnt w buf [] r = Inr r"
| "read_segments ops izg_cnt w buf (s # ss) r =
     (if rd_read_size r = 0 then Inr r
      else if u32_sub (sg_offset s + sg_size s) 1 < rd_offset r then read_segments ops izg_cnt w buf ss r
      else if sg_offset s \<le> rd_offset r \<and> rd_offset r < u32 (sg_offset s + sg_size s) then
        ebind (read_segment ops izg_cnt w buf s r) (read_segments ops izg_cnt w buf ss)
      else read_segments ops izg_cnt w buf ss r)"

definition Read ::
  "'d nvme_ops \<Rightarrow> nat \<Rightarrow> nat \<Rightarrow> nat \<Rightarrow> Userdata \<Rightarrow> 'd pw \<Rightarrow> byte list \<Rightarrow> (int \<times> Partition \<times> byte list) res" where
  "Read ops buf offset read_size u pw mem =
     (let p = fst pw in
      if ud_size u < offset div BLOCK_SIZE then Inr (-1, p, mem)
      else
        ebind (acquire u) (\<lambda>_.
        ebind (read_segments ops (pt_izg_cnt p) (snd pw) buf (ud_file_segment u)
                 \<lparr>rd_read_size = blocks_of read_size, rd_offset = offset div BLOCK_SIZE,
                  rd_req_size = blocks_of read_size, rd_ori_offset = offset, rd_ori_read_size = read_size,
                  rd_buf_offset = 0, rd_remain_bytes = False, rd_mem = mem, rd_tmp = pt_read_buf p\<rparr>) (\<lambda>r.
          if rd_read_size r \<noteq> 0 then Inl (Exit ''Read size error'')
          else Inr (0, p\<lparr>pt_read_buf := rd_tmp r\<rparr>, rd_mem r))))"

definition invalid_segment :: "Segment \<Rightarrow> Interval list \<Rightarrow> Interval list res" where
  "invalid_segment s iv =
     efor 0 (length (sg_interval_vector s)) (\<lambda>i iv.
       ebind (vec_at (sg_interval_vector s) i) (\<lambda>q.
       ebind (vec_at iv q) (\<lambda>t. Inr (iv[q := Interval_invalid t])))) iv"

fun invalid_segments :: "Segment list \<Rightarrow> Interval list \<Rightarrow> Interval list res" where
  "invalid_segments [] iv = Inr iv"
| "invalid_segments (s # ss) iv = ebind (invalid_segment s iv) (invalid_segments ss)"

text \<open>
  The segments are freed, their pointers stay in \<^verbatim>\<open>file_segment\<close>; the caller frees the user
  data next.
\<close>

definition Delete :: "Userdata \<Rightarrow> 'd world \<Rightarrow> (int \<times> Userdata \<times> 'd world) res" where
  "Delete u w =
     ebind (acquire u) (\<lambda>u.
     ebind (invalid_segments (ud_file_segment u) (wd_iv w)) (\<lambda>iv.
       Inr (0, release u, w\<lparr>wd_iv := iv\<rparr>)))"

text \<open>
  \<^verbatim>\<open>Sync\<close> waits, with the lock held, for a counter that only changes under the lock.
\<close>

definition Sync :: "Userdata \<Rightarrow> (int \<times> Userdata) res" where
  "Sync u =
     ebind (acquire u) (\<lambda>u.
       if ud_remain_write_req u \<noteq> 0 then Inl (Diverges ''Sync'') else Inr (0, release u))"

end
