(* ===== verification/Userdata_Read.thy ===== *)
theory Userdata_Read
  imports Userdata
begin

text \<open>
  What the reads of \<^verbatim>\<open>Userdata.cpp\<close> return on user data made of whole stripes: a read of up
  to one stripe at any offset returns the bytes of the data; a read of several whole
  stripes from the start does too; an aligned read of three or more stripes with an offset
  does not.
\<close>

section \<open>User data made of stripes\<close>

definition stored ::
  "(nat \<Rightarrow> byte) \<Rightarrow> nat \<Rightarrow> Interval list \<Rightarrow> nat \<Rightarrow> byte list list \<Rightarrow> Segment list \<Rightarrow> bool" where
  "stored m lim iv izg xs segs \<longleftrightarrow>
     length segs = length xs \<and> length xs * (izg * IO_SIZE) < 2 ^ 32
     \<and> (\<forall>i < length xs. sg_offset (segs ! i) = i * (izg * IO_BLOCKS) \<and> sg_size (segs ! i) = izg * IO_BLOCKS
          \<and> striped m lim iv (sg_interval_vector (segs ! i)) izg 1 (xs ! i))"

lemma storedD:
  assumes "stored m lim iv izg xs segs"
  shows "length segs = length xs" "length xs * (izg * IO_SIZE) < 4294967296"
    "\<And>i. i < length xs \<Longrightarrow> sg_offset (segs ! i) = i * (izg * IO_BLOCKS)"
    "\<And>i. i < length xs \<Longrightarrow> sg_size (segs ! i) = izg * IO_BLOCKS"
    "\<And>i. i < length xs \<Longrightarrow> striped m lim iv (sg_interval_vector (segs ! i)) izg 1 (xs ! i)"
    "\<And>i. i < length xs \<Longrightarrow> length (xs ! i) = izg * IO_SIZE"
    "\<And>i. i < length xs \<Longrightarrow> 0 < izg"
proof -
  show "length segs = length xs" "length xs * (izg * IO_SIZE) < 4294967296"
    using assms by (simp_all add: stored_def)
  fix i assume i: "i < length xs"
  then show "sg_offset (segs ! i) = i * (izg * IO_BLOCKS)" "sg_size (segs ! i) = izg * IO_BLOCKS"
    and st: "striped m lim iv (sg_interval_vector (segs ! i)) izg 1 (xs ! i)"
    using assms by (simp_all add: stored_def)
  from stripedD(1,4) [OF st] show "length (xs ! i) = izg * IO_SIZE" "0 < izg" by simp_all
qed

text \<open>Reading a segment, at whatever offset, brings in the whole stripe.\<close>

lemma read_offset_stored:
  assumes ok: "nvme_ok ops media hwp zsz nz" and sync: "dev_sync hwp zsz nz (wd_c w)"
    and st: "stored (media (c_dev (wd_c w))) (nz * zsz) (wd_iv w) izg xs segs"
    and i: "i < length xs" and off: "off < izg * IO_BLOCKS" and sz: "izg * IO_BLOCKS \<le> sz"
    and fit: "p + izg * IO_SIZE \<le> length mem"
  shows "Userdata__read_offset ops (segs ! i) p izg off sz w mem
     = Inr (0, take p mem @ xs ! i @ drop (p + izg * IO_SIZE) mem)"
proof -
  note sd = storedD(5) [OF st i]
  have len: "length (xs ! i) = izg * IO_SIZE" by (rule storedD(6) [OF st i])
  have fit': "p + length (xs ! i) \<le> length mem" using fit len by simp
  from izg_read_offset_striped [OF ok sync sd fit', of off sz] off sz mem_write_ok [OF fit'] stripedD(3) [OF sd]
  show ?thesis by (auto simp: Userdata__read_offset_def Let_def len)
qed

lemma blocks_of_stripe: "blocks_of (izg * IO_SIZE) = izg * IO_BLOCKS"
  by (simp add: blocks_of_def IO_SIZE_blocks)

lemma stripe_blocks: "izg * IO_SIZE = izg * IO_BLOCKS * BLOCK_SIZE"
  by (simp add: IO_SIZE_blocks)

lemma ceil_le:
  fixes n d m :: nat
  assumes "0 < d"
  shows "(if n mod d = 0 then n div d else n div d + 1) \<le> m \<longleftrightarrow> n \<le> m * d"
proof -
  have n: "n = n div d * d + n mod d" by simp
  have r: "n mod d < d" using assms by simp
  show ?thesis
  proof (cases "n mod d = 0")
    case True
    then have e: "n = n div d * d" using n by simp
    have "n div d \<le> m \<longleftrightarrow> n div d * d \<le> m * d" using assms by simp
    then show ?thesis using True e by simp
  next
    case False
    have "n div d < m \<longleftrightarrow> n < m * d" by (rule div_less_iff_less_mult [OF assms])
    moreover have "n \<noteq> m * d" using False by auto
    ultimately show ?thesis using False by auto
  qed
qed

lemma blocks_of_le: "blocks_of n \<le> m \<longleftrightarrow> n \<le> m * BLOCK_SIZE"
  unfolding blocks_of_def by (rule ceil_le) (simp add: BLOCK_SIZE_def)

lemma blocks_of_pos: "0 < n \<Longrightarrow> 0 < blocks_of n"
  by (auto simp: blocks_of_def BLOCK_SIZE_def)

text \<open>The size asked for in units of the wrong kind covers the stripe.\<close>

lemma tmp_size_covers:
  assumes q: "0 < q" "q \<le> izg * IO_BLOCKS" and izg: "izg \<le> 512" and b: "izg * IO_SIZE < 4294967296"
  shows "izg * IO_BLOCKS \<le> u32 ((if q mod IO_BLOCKS = 0 then q div IO_BLOCKS else q div IO_BLOCKS + 1) * IO_SIZE)"
proof -
  let ?u = "if q mod IO_BLOCKS = 0 then q div IO_BLOCKS else q div IO_BLOCKS + 1"
  have u: "?u \<le> m \<longleftrightarrow> q \<le> m * IO_BLOCKS" for m by (rule ceil_le) (simp add: IO_BLOCKS_def)
  have 1: "1 \<le> ?u" using u [of 0] q(1) by linarith
  have "?u \<le> izg" using u q(2) by blast
  then have "?u * IO_SIZE \<le> izg * IO_SIZE" by (rule mult_le_mono1)
  with b have e: "u32 (?u * IO_SIZE) = ?u * IO_SIZE" by (intro u32_id) linarith
  have "izg * IO_BLOCKS \<le> 512 * IO_BLOCKS" using izg by (rule mult_le_mono1)
  also have "\<dots> = 1 * IO_SIZE" by (simp add: IO_SIZE_blocks BLOCK_SIZE_def)
  also have "\<dots> \<le> ?u * IO_SIZE" using 1 by (rule mult_le_mono1)
  finally show ?thesis unfolding e .
qed

text \<open>What a read relies on: the device, the controller's view of it, the segments.\<close>

definition readable ::
  "'d nvme_ops \<Rightarrow> ('d \<Rightarrow> nat \<Rightarrow> byte) \<Rightarrow> ('d \<Rightarrow> nat \<Rightarrow> nat) \<Rightarrow> nat \<Rightarrow> nat \<Rightarrow> nat \<Rightarrow> 'd world
    \<Rightarrow> byte list list \<Rightarrow> Segment list \<Rightarrow> bool" where
  "readable ops media hwp zsz nz izg w xs segs \<longleftrightarrow>
     nvme_ok ops media hwp zsz nz \<and> dev_sync hwp zsz nz (wd_c w)
     \<and> stored (media (c_dev (wd_c w))) (nz * zsz) (wd_iv w) izg xs segs \<and> izg \<le> 512"

lemma readableD:
  assumes "readable ops media hwp zsz nz izg w xs segs"
  shows "nvme_ok ops media hwp zsz nz" "dev_sync hwp zsz nz (wd_c w)"
    "stored (media (c_dev (wd_c w))) (nz * zsz) (wd_iv w) izg xs segs" "izg \<le> 512"
  using assms by (simp_all add: readable_def)

lemma stored_bounds:
  assumes st: "stored m lim iv izg xs segs" and i: "i < length xs"
  shows "(i + 1) * (izg * IO_SIZE) < 4294967296" "(i + 1) * (izg * IO_BLOCKS) < 4294967296"
    "izg * IO_SIZE < 4294967296" "izg * IO_BLOCKS < 4294967296"
proof -
  have "(i + 1) * (izg * IO_SIZE) \<le> length xs * (izg * IO_SIZE)" using i by (intro mult_le_mono1) simp
  then show 1: "(i + 1) * (izg * IO_SIZE) < 4294967296" using storedD(2) [OF st] by linarith
  have "(i + 1) * (izg * IO_BLOCKS) \<le> (i + 1) * (izg * IO_SIZE)"
    by (intro mult_le_mono2) (simp add: IO_SIZE_def IO_BLOCKS_def)
  then show 2: "(i + 1) * (izg * IO_BLOCKS) < 4294967296" using 1 by linarith
  have "1 * (izg * IO_SIZE) \<le> (i + 1) * (izg * IO_SIZE)" by (intro mult_le_mono1) simp
  with 1 show 3: "izg * IO_SIZE < 4294967296" by linarith
  have "1 * (izg * IO_BLOCKS) \<le> (i + 1) * (izg * IO_BLOCKS)" by (intro mult_le_mono1) simp
  with 2 show "izg * IO_BLOCKS < 4294967296" by linarith
qed

text \<open>A write into memory that fits.\<close>

definition patch :: "byte list \<Rightarrow> nat \<Rightarrow> byte list \<Rightarrow> byte list" where
  "patch mem p ys = take p mem @ ys @ drop (p + length ys) mem"

lemma mem_write_patch: "p + length ys \<le> length mem \<Longrightarrow> mem_write mem p ys = Inr (patch mem p ys)"
  by (simp add: mem_write_ok patch_def)

lemma length_patch: "p + length ys \<le> length mem \<Longrightarrow> length (patch mem p ys) = length mem"
  by (simp add: patch_def)

lemma patch_patch:
  "p + length ys + length zs \<le> length mem \<Longrightarrow> patch (patch mem p ys) (p + length ys) zs = patch mem p (ys @ zs)"
  by (simp add: patch_def ac_simps)

lemma patch_whole: "length ys = length mem \<Longrightarrow> patch mem 0 ys = ys"
  by (simp add: patch_def)

lemma patch_at: "p + length ys \<le> length mem \<Longrightarrow> n \<le> length ys \<Longrightarrow> take n (drop p (patch mem p ys)) = take n ys"
  by (simp add: patch_def)

text \<open>One segment, through the read buffer of the partition or straight into the caller's.\<close>

lemma read_segment_tmp:
  assumes R: "readable ops media hwp zsz nz izg w xs segs" and i: "i < length xs"
    and tmp: "length (rd_tmp r) = izg * IO_SIZE"
    and req: "segment_request (segs ! i) r = (st, q)" "0 < q" "q \<le> izg * IO_BLOCKS" "st < izg * IO_BLOCKS"
      "q \<le> rd_read_size r" "rd_read_size r < 4294967296" "rd_offset r + q < 4294967296"
    and path: "(0 < rd_ori_offset r \<and> rd_ori_offset r mod (izg * IO_SIZE) \<noteq> 0) \<or> rd_remain_bytes r
      \<or> q < izg * IO_BLOCKS"
  shows "read_segment ops izg w buf (segs ! i) r =
     ebind (copy_piece (izg * IO_SIZE) (izg * IO_BLOCKS) buf q
              (r\<lparr>rd_read_size := rd_read_size r - q, rd_offset := rd_offset r + q, rd_req_size := q, rd_tmp := xs ! i\<rparr>))
       (\<lambda>r. Inr (after_piece (izg * IO_SIZE) (segs ! i) r))"
proof -
  note rd = readableD [OF R] and b = stored_bounds [OF readableD(3) [OF R] i]
  have u: "u32 (IO_SIZE * izg) = izg * IO_SIZE" "u32 (IO_BLOCKS * izg) = izg * IO_BLOCKS"
    using b by (simp_all add: mult.commute u32_id)
  have u2: "u32_sub (rd_read_size r) q = rd_read_size r - q" "u32 (rd_offset r + q) = rd_offset r + q"
    using req by (simp_all add: u32_simps)
  have len: "length (xs ! i) = izg * IO_SIZE" "0 < izg" using storedD(6,7) [OF rd(3) i] by simp_all
  let ?sz = "u32 ((if q mod IO_BLOCKS = 0 then q div IO_BLOCKS else q div IO_BLOCKS + 1) * IO_SIZE)"
  have cov: "izg * IO_BLOCKS \<le> ?sz" by (rule tmp_size_covers [OF req(2,3) rd(4) b(3)])
  have "Userdata__read_offset ops (segs ! i) 0 izg st ?sz w (rd_tmp r) = Inr (0, xs ! i)"
    using read_offset_stored [OF rd(1-3) i req(4) cov, of 0 "rd_tmp r"] tmp by simp
  moreover have "izg * IO_SIZE \<noteq> 0" using len(2) by (simp add: IO_SIZE_def)
  ultimately show ?thesis
    using path by (simp add: read_segment_def Let_def req(1) u u2)
qed

lemma read_segment_full:
  assumes R: "readable ops media hwp zsz nz izg w xs segs" and i: "i < length xs"
    and req: "segment_request (segs ! i) r = (0, q)" "izg * IO_BLOCKS \<le> q" "q \<le> rd_read_size r"
      "rd_read_size r < 4294967296" "rd_offset r + q < 4294967296"
    and path: "rd_ori_offset r mod (izg * IO_SIZE) = 0" "\<not> rd_remain_bytes r"
    and fit: "buf + rd_buf_offset r + izg * IO_SIZE \<le> length (rd_mem r)"
  shows "read_segment ops izg w buf (segs ! i) r =
     Inr (r\<lparr>rd_read_size := rd_read_size r - q, rd_offset := rd_offset r + q, rd_req_size := q,
            rd_mem := patch (rd_mem r) (buf + rd_buf_offset r) (xs ! i),
            rd_buf_offset := u32 (rd_buf_offset r + q * BLOCK_SIZE)\<rparr>)"
proof -
  note rd = readableD [OF R] and b = stored_bounds [OF readableD(3) [OF R] i]
  have u: "u32 (IO_SIZE * izg) = izg * IO_SIZE" "u32 (IO_BLOCKS * izg) = izg * IO_BLOCKS"
    using b by (simp_all add: mult.commute u32_id)
  have u2: "u32_sub (rd_read_size r) q = rd_read_size r - q" "u32 (rd_offset r + q) = rd_offset r + q"
    using req by (simp_all add: u32_simps)
  have len: "length (xs ! i) = izg * IO_SIZE" "0 < izg" using storedD(6,7) [OF rd(3) i] by simp_all
  have p: "0 < izg * IO_BLOCKS" "izg * IO_SIZE \<noteq> 0" using len(2) by simp_all
  have "Userdata__read_offset ops (segs ! i) (buf + rd_buf_offset r) izg 0 q w (rd_mem r)
     = Inr (0, patch (rd_mem r) (buf + rd_buf_offset r) (xs ! i))"
    using read_offset_stored [OF rd(1-3) i p(1) req(2) fit] by (simp add: patch_def len)
  then show ?thesis
    using path p req(2) by (simp add: read_segment_def Let_def req(1) u u2)
qed

lemma read_segments_done: "rd_read_size r = 0 \<Longrightarrow> read_segments ops izg w buf ss r = Inr r"
  by (cases ss) simp_all

text \<open>Segments before the one that holds the offset are passed over.\<close>

lemma read_segments_skip:
  assumes st: "stored m lim iv izg xs segs" and s: "s \<le> length xs" and off: "s * (izg * IO_BLOCKS) \<le> rd_offset r"
    and sz: "rd_read_size r \<noteq> 0"
  shows "read_segments ops izg w buf segs r = read_segments ops izg w buf (drop s segs) r"
  using s off
proof (induction s)
  case (Suc s)
  note b = stored_bounds [OF st, of s] and sd = storedD [OF st]
  have s: "s < length xs" using Suc.prems by simp
  have "s * (izg * IO_BLOCKS) + izg * IO_BLOCKS \<le> rd_offset r" using Suc.prems by simp
  moreover have "0 < izg * IO_BLOCKS" using sd(7) [OF s] by (simp add: IO_BLOCKS_def)
  ultimately have "s * (izg * IO_BLOCKS) + izg * IO_BLOCKS - 1 < rd_offset r" by linarith
  moreover have "u32_sub (s * (izg * IO_BLOCKS) + izg * IO_BLOCKS) 1 = s * (izg * IO_BLOCKS) + izg * IO_BLOCKS - 1"
    using b(2) [OF s] sd(7) [OF s] by (intro u32_sub_id) (simp_all add: IO_BLOCKS_def)
  ultimately have "u32_sub (sg_offset (segs ! s) + sg_size (segs ! s)) 1 < rd_offset r"
    using sd(3,4) [OF s] by simp
  moreover have "drop s segs = segs ! s # drop (Suc s) segs" using s sd(1) by (simp add: Cons_nth_drop_Suc)
  moreover have "s * (izg * IO_BLOCKS) \<le> rd_offset r" using Suc.prems by simp
  ultimately show ?case using Suc.IH s sz by simp
qed simp

text \<open>At the segment that holds the offset the loop reads.\<close>

lemma read_segments_here:
  assumes st: "stored m lim iv izg xs segs" and s: "s < length xs"
    and off: "s * (izg * IO_BLOCKS) \<le> rd_offset r" "rd_offset r < (s + 1) * (izg * IO_BLOCKS)"
    and sz: "rd_read_size r \<noteq> 0"
  shows "read_segments ops izg w buf (drop s segs) r =
     ebind (read_segment ops izg w buf (segs ! s) r) (read_segments ops izg w buf (drop (Suc s) segs))"
proof -
  note b = stored_bounds [OF st s] and sd = storedD [OF st]
  have "0 < izg * IO_BLOCKS" using sd(7) [OF s] by (simp add: IO_BLOCKS_def)
  then have "u32_sub (s * (izg * IO_BLOCKS) + izg * IO_BLOCKS) 1 = s * (izg * IO_BLOCKS) + izg * IO_BLOCKS - 1"
    using b(2) by (intro u32_sub_id) (linarith, simp)
  moreover have "u32 (s * (izg * IO_BLOCKS) + izg * IO_BLOCKS) = s * (izg * IO_BLOCKS) + izg * IO_BLOCKS"
    using b(2) by (intro u32_id) simp
  moreover have "\<not> s * (izg * IO_BLOCKS) + izg * IO_BLOCKS - 1 < rd_offset r" using off(2) by simp
  moreover have "drop s segs = segs ! s # drop (Suc s) segs" using s sd(1) by (simp add: Cons_nth_drop_Suc)
  ultimately show ?thesis using sz off sd(3,4) [OF s] by simp
qed

text \<open>The rest of a read that runs into the next segment.\<close>

lemma read_rest:
  assumes R: "readable ops media hwp zsz nz izg w xs segs" and j: "j < length xs"
    and tmp: "length (rd_tmp r) = izg * IO_SIZE"
    and q: "0 < rd_read_size r" "rd_read_size r \<le> izg * IO_BLOCKS" "rd_remain_bytes r \<or> rd_read_size r < izg * IO_BLOCKS"
    and off: "rd_offset r = j * (izg * IO_BLOCKS)" "rd_ori_offset r = 0" "rd_req_size r = 0"
    and n: "rd_ori_read_size r \<le> izg * IO_SIZE"
    and fit: "buf + rd_buf_offset r + rd_ori_read_size r \<le> length (rd_mem r)"
  shows "\<exists>r'. read_segments ops izg w buf (drop j segs) r = Inr r' \<and> rd_read_size r' = 0
     \<and> rd_tmp r' = xs ! j
     \<and> rd_mem r' = patch (rd_mem r) (buf + rd_buf_offset r) (take (rd_ori_read_size r) (xs ! j))"
proof -
  note rd = readableD [OF R] and b = stored_bounds [OF readableD(3) [OF R] j]
  note sd = storedD [OF rd(3)]
  let ?q = "rd_read_size r"
  have p: "0 < izg * IO_BLOCKS" using sd(7) [OF j] by (simp add: IO_BLOCKS_def)
  have req: "segment_request (segs ! j) r = (0, ?q)"
    using off sd(3) [OF j] by (simp add: segment_request_def)
  have bd: "?q < 4294967296" "rd_offset r + ?q < 4294967296"
    using q(2) b(2,4) off(1) by simp_all
  have len: "length (xs ! j) = izg * IO_SIZE" by (rule sd(6) [OF j])
  note seg = read_segment_tmp [OF R j tmp req q(1,2) p order_refl bd, of buf]
  have m: "mem_write (rd_mem r) (buf + rd_buf_offset r) (take (rd_ori_read_size r) (xs ! j))
     = Inr (patch (rd_mem r) (buf + rd_buf_offset r) (take (rd_ori_read_size r) (xs ! j)))"
    using fit n len by (intro mem_write_patch) simp
  obtain r' where r': "read_segment ops izg w buf (segs ! j) r = Inr r'" "rd_read_size r' = 0" "rd_tmp r' = xs ! j"
    "rd_mem r' = patch (rd_mem r) (buf + rd_buf_offset r) (take (rd_ori_read_size r) (xs ! j))"
    using seg q(3) off(2) n m len
    by (cases "rd_remain_bytes r") (simp_all add: copy_piece_def after_piece_def Let_def)
  have "j * (izg * IO_BLOCKS) < (j + 1) * (izg * IO_BLOCKS)" using p by simp
  then have "read_segments ops izg w buf (drop j segs) r = Inr r'"
    using read_segments_here [OF rd(3) j, of r ops w buf] off(1) q(1) r'(1) read_segments_done [OF r'(2)] by simp
  with r' show ?thesis by blast
qed

text \<open>The blocks a read takes from the first stripe it touches.\<close>

lemma first_request:
  fixes izg a n
  defines "B \<equiv> izg * IO_BLOCKS" and "st \<equiv> a div BLOCK_SIZE"
  defines "q \<equiv> min (blocks_of n) (B - st)"
  assumes R: "readable ops media hwp zsz nz izg w xs segs" and s: "s < length xs"
    and a: "off = s * (izg * IO_SIZE) + a" "a < izg * IO_SIZE" and n: "0 < n" "n \<le> izg * IO_SIZE"
    and r: "rd_read_size r = blocks_of n" "rd_req_size r = blocks_of n" "rd_offset r = off div BLOCK_SIZE"
  shows "segment_request (segs ! s) r = (st, q)" "izg * IO_SIZE = B * BLOCK_SIZE" "st < B" "0 < blocks_of n" "blocks_of n \<le> B"
    "off div BLOCK_SIZE = s * B + st" "s * B + B < 4294967296" "0 < q" "q \<le> B" "q \<le> blocks_of n" "st + q \<le> B"
proof -
  note rd = readableD [OF R] and b = stored_bounds [OF readableD(3) [OF R] s]
  note sd = storedD [OF rd(3)]
  show SB: "izg * IO_SIZE = B * BLOCK_SIZE" by (simp add: B_def stripe_blocks)
  show st: "st < B" using a(2) unfolding SB st_def by (simp add: div_less_iff_less_mult BLOCK_SIZE_def)
  show rs: "0 < blocks_of n" "blocks_of n \<le> B" using n blocks_of_pos blocks_of_le unfolding SB by simp_all
  show o: "off div BLOCK_SIZE = s * B + st"
    unfolding a(1) SB st_def by (simp add: BLOCK_SIZE_def mult.assoc [symmetric])
  show sB: "s * B + B < 4294967296" using b(2) by (simp add: B_def)
  show "0 < q" "q \<le> B" "q \<le> blocks_of n" "st + q \<le> B" using rs st by (auto simp: q_def)
  have "u32 (st + blocks_of n) = st + blocks_of n"
    using b(3) st rs(2) unfolding SB by (intro u32_id) (simp add: BLOCK_SIZE_def)
  then show "segment_request (segs ! s) r = (st, q)"
    using sd(3,4) [OF s] r(1-3) o rs st sB
    by (auto simp: segment_request_def Let_def q_def B_def [symmetric] u32_simps min_def)
qed

text \<open>
  The first segment of a read of \<open>n\<close> bytes at byte \<open>a\<close> of the stripe: either all of it is
  there, or the stripe's rest is copied and the state is set for the next segment.
\<close>

lemma read_first_tmp:
  assumes R: "readable ops media hwp zsz nz izg w xs segs" and s: "s < length xs"
    and tmp: "length (rd_tmp r) = izg * IO_SIZE"
    and a: "off = s * (izg * IO_SIZE) + a" "a < izg * IO_SIZE" and n: "0 < n" "n \<le> izg * IO_SIZE"
    and r: "rd_read_size r = blocks_of n" "rd_req_size r = blocks_of n" "rd_offset r = off div BLOCK_SIZE"
      "rd_ori_offset r = off" "rd_ori_read_size r = n" "rd_buf_offset r = 0" "\<not> rd_remain_bytes r"
    and fit: "buf + izg * IO_SIZE \<le> length (rd_mem r)"
    and part: "\<not> (a = 0 \<and> min (blocks_of n) (izg * IO_BLOCKS - a div BLOCK_SIZE) = izg * IO_BLOCKS)"
  shows "\<exists>r'. read_segment ops izg w buf (segs ! s) r = Inr r' \<and> length (rd_tmp r') = izg * IO_SIZE
     \<and> (if n \<le> izg * IO_SIZE - a
        then rd_read_size r' = 0
          \<and> (\<exists>k. n \<le> k \<and> k \<le> izg * IO_SIZE - a \<and> rd_mem r' = patch (rd_mem r) buf (take k (drop a (xs ! s))))
        else rd_mem r' = patch (rd_mem r) buf (drop a (xs ! s))
          \<and> 0 < rd_read_size r' \<and> rd_read_size r' \<le> izg * IO_BLOCKS
          \<and> (rd_remain_bytes r' \<or> rd_read_size r' < izg * IO_BLOCKS)
          \<and> rd_offset r' = (s + 1) * (izg * IO_BLOCKS) \<and> rd_ori_offset r' = 0 \<and> rd_req_size r' = 0
          \<and> rd_ori_read_size r' = n - (izg * IO_SIZE - a) \<and> rd_buf_offset r' = izg * IO_SIZE - a)"
proof -
  note sd = storedD [OF readableD(3) [OF R]] and b = stored_bounds [OF readableD(3) [OF R] s]
  define B where "B = izg * IO_BLOCKS"
  define st where "st = a div BLOCK_SIZE"
  define q where "q = min (blocks_of n) (B - st)"
  note F = first_request [OF R s a n r(1-3), folded B_def st_def, folded q_def]
  note req = F(1) and SB = F(2) and st = F(3) and rs = F(4,5) and o = F(6) and sB = F(7) and q = F(8-11)
  have om: "off mod (izg * IO_SIZE) = a" using a by simp
  have b2: "blocks_of n < 4294967296" "s * B + st + q < 4294967296" using rs(2) sB q(4) by linarith+
  have path: "(0 < rd_ori_offset r \<and> rd_ori_offset r mod (izg * IO_SIZE) \<noteq> 0) \<or> rd_remain_bytes r \<or> q < B"
    using part [folded B_def st_def, folded q_def] r(4) om q(2) a(1) by auto
  let ?m = "patch (rd_mem r) buf" and ?rest = "izg * IO_SIZE - a"
  let ?r1 = "r\<lparr>rd_read_size := blocks_of n - q, rd_offset := s * B + st + q, rd_req_size := q, rd_tmp := xs ! s\<rparr>"
  have len: "length (xs ! s) = izg * IO_SIZE" by (rule sd(6) [OF s])
  have seg: "read_segment ops izg w buf (segs ! s) r =
      ebind (copy_piece (izg * IO_SIZE) B buf q ?r1) (\<lambda>r. Inr (after_piece (izg * IO_SIZE) (segs ! s) r))"
    using read_segment_tmp [OF R s tmp req, of buf] q st path b2 unfolding B_def [symmetric] r(1,3) o by simp
  have all: "take ?rest (drop a (xs ! s)) = drop a (xs ! s)" using len by simp
  have w: "mem_write (rd_mem r) buf (take k (drop a (xs ! s))) = Inr (?m (take k (drop a (xs ! s))))"
    if "k \<le> ?rest" for k using that fit len by (intro mem_write_patch) simp
  have g: "mem_read (xs ! s) a k = Inr (take k (drop a (xs ! s)))" if "k \<le> ?rest" for k
    using that a(2) len by (intro mem_read_ok) simp
  have nx: "u32 (sg_offset (segs ! s) + sg_size (segs ! s)) = (s + 1) * B"
    using sd(3,4) [OF s] sB by (simp add: B_def [symmetric] u32_simps)
  have ub: "u32 ?rest = ?rest" using b(3) by (intro u32_id) simp
  have small: "blocks_of n \<le> B - st" if "n \<le> ?rest"
  proof -
    have "st * BLOCK_SIZE \<le> a" by (simp add: st_def)
    then have "n \<le> (B - st) * BLOCK_SIZE" using that unfolding SB by (simp add: diff_mult_distrib)
    then show ?thesis by (simp add: blocks_of_le)
  qed
  have rem: "0 < blocks_of (n - ?rest)" "blocks_of (n - ?rest) \<le> B" if "?rest < n"
    using that blocks_of_pos [of "n - ?rest"] n(2) unfolding SB blocks_of_le by linarith+
  note defs = copy_piece_def after_piece_def Let_def r om all nx ub B_def [symmetric]
  consider (fits) "q < B" "n \<le> ?rest" | (split) "q < B" "?rest < n" "q < blocks_of n"
    | (bytes) "q < B" "?rest < n" "blocks_of n = q" | (over) "q = B" "n \<le> ?rest" | (both) "q = B" "?rest < n"
    using q(2,3) by linarith
  then show ?thesis
  proof cases
    case fits
    then show ?thesis using seg w [of n] g [of n] small len q_def by (auto simp: defs)
  next
    case split
    then have "q = B - st" by (auto simp: q_def)
    then show ?thesis using seg w [of ?rest] g [of ?rest] split st rs len by (auto simp: defs)
  next
    case bytes
    then show ?thesis using seg w [of ?rest] g [of ?rest] rem len by (auto simp: defs)
  next
    case over
    then have "blocks_of n = B" using rs q(3) by simp
    then show ?thesis using seg w [of ?rest] g [of ?rest] over len by (auto simp: defs intro: exI [of _ ?rest])
  next
    case both
    then have "blocks_of n = B" using rs q(3) by simp
    then show ?thesis using seg w [of ?rest] g [of ?rest] both rem len by (auto simp: defs)
  qed
qed

lemma read_first:
  assumes R: "readable ops media hwp zsz nz izg w xs segs" and s: "s < length xs"
    and tmp: "length (rd_tmp r) = izg * IO_SIZE"
    and a: "off = s * (izg * IO_SIZE) + a" "a < izg * IO_SIZE" and n: "0 < n" "n \<le> izg * IO_SIZE"
    and r: "rd_read_size r = blocks_of n" "rd_req_size r = blocks_of n" "rd_offset r = off div BLOCK_SIZE"
      "rd_ori_offset r = off" "rd_ori_read_size r = n" "rd_buf_offset r = 0" "\<not> rd_remain_bytes r"
    and fit: "buf + izg * IO_SIZE \<le> length (rd_mem r)"
  shows "\<exists>r'. read_segment ops izg w buf (segs ! s) r = Inr r' \<and> length (rd_tmp r') = izg * IO_SIZE
     \<and> (if n \<le> izg * IO_SIZE - a
        then rd_read_size r' = 0
          \<and> (\<exists>k. n \<le> k \<and> k \<le> izg * IO_SIZE - a \<and> rd_mem r' = patch (rd_mem r) buf (take k (drop a (xs ! s))))
        else rd_mem r' = patch (rd_mem r) buf (drop a (xs ! s))
          \<and> 0 < rd_read_size r' \<and> rd_read_size r' \<le> izg * IO_BLOCKS
          \<and> (rd_remain_bytes r' \<or> rd_read_size r' < izg * IO_BLOCKS)
          \<and> rd_offset r' = (s + 1) * (izg * IO_BLOCKS) \<and> rd_ori_offset r' = 0 \<and> rd_req_size r' = 0
          \<and> rd_ori_read_size r' = n - (izg * IO_SIZE - a) \<and> rd_buf_offset r' = izg * IO_SIZE - a)"
proof -
  note sd = storedD [OF readableD(3) [OF R]]
  define B where "B = izg * IO_BLOCKS"
  define st where "st = a div BLOCK_SIZE"
  define q where "q = min (blocks_of n) (B - st)"
  note F = first_request [OF R s a n r(1-3), folded B_def st_def, folded q_def]
  note req = F(1) and SB = F(2) and st = F(3) and rs = F(4,5) and o = F(6) and sB = F(7) and q = F(8-11)
  have om: "off mod (izg * IO_SIZE) = a" using a by simp
  have b2: "blocks_of n < 4294967296" "s * B + st + q < 4294967296" using rs(2) sB q(4) by linarith+
  show ?thesis
  proof (cases "a = 0 \<and> q = B")
    case True
    then have "st = 0" "q = B" by (simp_all add: st_def)
    then have "blocks_of n = B" using q rs by simp
    then show ?thesis
      using read_segment_full [OF R s, of r B buf] req r True om o fit \<open>st = 0\<close> b2 n(2) sB tmp sd(6) [OF s]
      by (auto simp: B_def intro!: exI [of _ "izg * IO_SIZE"])
  next
    case False
    then show ?thesis using read_first_tmp [OF R s tmp a n r fit] unfolding B_def st_def q_def by blast
  qed
qed

section \<open>Reading at an offset\<close>

lemma drop_concat:
  assumes "\<And>i. i < length xs \<Longrightarrow> length (xs ! i) = L" "s < length xs" "a \<le> L"
  shows "drop (s * L + a) (concat xs) = drop a (xs ! s) @ concat (drop (Suc s) xs)"
  using assms
proof (induction xs arbitrary: s)
  case (Cons x xs)
  have x: "length x = L" using Cons.prems(1) [of 0] by simp
  have xs: "length (xs ! i) = L" if "i < length xs" for i using Cons.prems(1) [of "Suc i"] that by simp
  show ?case
  proof (cases s)
    case 0
    then show ?thesis using x Cons.prems(3) by simp
  next
    case (Suc t)
    then show ?thesis using Cons.IH [OF xs, of t] Cons.prems x by (simp add: add.assoc)
  qed
qed simp

text \<open>
  A read that starts inside the data, after the segment that holds its first byte: the loop
  goes on with the segments behind it.
\<close>

lemma read_enters:
  assumes R: "readable ops media hwp zsz nz izg w xs (ud_file_segment u)" and izg: "izg = pt_izg_cnt p"
    and u: "ud_size u = length xs * (izg * IO_BLOCKS)" "\<not> ud_write_lock u"
    and p: "length (pt_read_buf p) = izg * IO_SIZE"
    and n: "0 < n" "n \<le> izg * IO_SIZE" and s: "s < length xs" and off: "off = s * (izg * IO_SIZE) + a" "a < izg * IO_SIZE"
    and fit: "buf + izg * IO_SIZE \<le> length mem"
  shows "\<exists>r. Read ops buf off n u (p, w) mem =
       ebind (read_segments ops izg w buf (drop (Suc s) (ud_file_segment u)) r) (\<lambda>r.
         if rd_read_size r \<noteq> 0 then Inl (Exit ''Read size error'') else Inr (0, p\<lparr>pt_read_buf := rd_tmp r\<rparr>, rd_mem r))
     \<and> length (rd_tmp r) = izg * IO_SIZE
     \<and> (if n \<le> izg * IO_SIZE - a
        then rd_read_size r = 0
          \<and> (\<exists>k. n \<le> k \<and> k \<le> izg * IO_SIZE - a \<and> rd_mem r = patch mem buf (take k (drop a (xs ! s))))
        else rd_mem r = patch mem buf (drop a (xs ! s))
          \<and> 0 < rd_read_size r \<and> rd_read_size r \<le> izg * IO_BLOCKS
          \<and> (rd_remain_bytes r \<or> rd_read_size r < izg * IO_BLOCKS)
          \<and> rd_offset r = (s + 1) * (izg * IO_BLOCKS) \<and> rd_ori_offset r = 0 \<and> rd_req_size r = 0
          \<and> rd_ori_read_size r = n - (izg * IO_SIZE - a) \<and> rd_buf_offset r = izg * IO_SIZE - a)"
proof -
  note rd = readableD [OF R]
  let ?L = "izg * IO_SIZE" and ?B = "izg * IO_BLOCKS" and ?segs = "ud_file_segment u"
  define r0 where "r0 = \<lparr>rd_read_size = blocks_of n, rd_offset = off div BLOCK_SIZE, rd_req_size = blocks_of n,
     rd_ori_offset = off, rd_ori_read_size = n, rd_buf_offset = 0, rd_remain_bytes = False,
     rd_mem = mem, rd_tmp = pt_read_buf p\<rparr>"
  have r0: "rd_read_size r0 = blocks_of n" "rd_req_size r0 = blocks_of n" "rd_offset r0 = off div BLOCK_SIZE"
    "rd_ori_offset r0 = off" "rd_ori_read_size r0 = n" "rd_buf_offset r0 = 0" "\<not> rd_remain_bytes r0"
    "rd_mem r0 = mem" "rd_tmp r0 = pt_read_buf p" by (simp_all add: r0_def)
  have "off div BLOCK_SIZE = s * ?B + a div BLOCK_SIZE"
    unfolding off(1) stripe_blocks by (simp add: BLOCK_SIZE_def mult.assoc [symmetric])
  moreover have "a div BLOCK_SIZE < ?B"
    using off(2) unfolding stripe_blocks by (simp add: div_less_iff_less_mult BLOCK_SIZE_def)
  ultimately have st: "s * ?B \<le> off div BLOCK_SIZE" "off div BLOCK_SIZE < (s + 1) * ?B" by simp_all
  then have "off div BLOCK_SIZE \<le> ud_size u"
    using mult_le_mono1 [of "s + 1" "length xs" ?B] s u(1) by simp
  then have rd0: "Read ops buf off n u (p, w) mem = ebind (read_segments ops izg w buf ?segs r0) (\<lambda>r.
      if rd_read_size r \<noteq> 0 then Inl (Exit ''Read size error'') else Inr (0, p\<lparr>pt_read_buf := rd_tmp r\<rparr>, rd_mem r))"
    using u(2) by (simp add: Read_def Let_def acquire_def r0_def izg)
  from read_first [OF R s _ off n r0(1-7), unfolded r0(8,9), OF p fit] obtain r1 where
    r1: "read_segment ops izg w buf (?segs ! s) r0 = Inr r1" "length (rd_tmp r1) = ?L"
    "if n \<le> ?L - a then rd_read_size r1 = 0
       \<and> (\<exists>k. n \<le> k \<and> k \<le> ?L - a \<and> rd_mem r1 = patch mem buf (take k (drop a (xs ! s))))
     else rd_mem r1 = patch mem buf (drop a (xs ! s)) \<and> 0 < rd_read_size r1 \<and> rd_read_size r1 \<le> ?B
       \<and> (rd_remain_bytes r1 \<or> rd_read_size r1 < ?B) \<and> rd_offset r1 = (s + 1) * ?B \<and> rd_ori_offset r1 = 0
       \<and> rd_req_size r1 = 0 \<and> rd_ori_read_size r1 = n - (?L - a) \<and> rd_buf_offset r1 = ?L - a" by blast
  have "read_segments ops izg w buf ?segs r0 = read_segments ops izg w buf (drop (Suc s) ?segs) r1"
    using read_segments_skip [OF rd(3), of s r0 ops w buf] read_segments_here [OF rd(3) s, of r0 ops w buf]
      st s blocks_of_pos [OF n(1)] r1(1) r0 by simp
  with rd0 r1(2,3) show ?thesis by (intro exI [of _ r1]) simp
qed

lemma offset_in_stripe:
  fixes off :: nat
  assumes "off < k * L"
  shows "off div L < k" "off = off div L * L + off mod L" "off mod L < L"
  using assms by (cases "L = 0"; simp add: div_less_iff_less_mult)+

lemma read_stored:
  assumes R: "readable ops media hwp zsz nz izg w xs (ud_file_segment u)" and izg: "izg = pt_izg_cnt p"
    and u: "ud_size u = length xs * (izg * IO_BLOCKS)" "\<not> ud_write_lock u"
    and p: "length (pt_read_buf p) = izg * IO_SIZE"
    and n: "0 < n" "n \<le> izg * IO_SIZE" "off + n \<le> length xs * (izg * IO_SIZE)"
    and fit: "buf + izg * IO_SIZE \<le> length mem"
  shows "\<exists>rb ys. Read ops buf off n u (p, w) mem = Inr (0, p\<lparr>pt_read_buf := rb\<rparr>, patch mem buf ys)
     \<and> length rb = izg * IO_SIZE \<and> length ys \<le> izg * IO_SIZE
     \<and> n \<le> length ys \<and> take n ys = take n (drop off (concat xs))"
proof -
  note sd = storedD [OF readableD(3) [OF R]]
  let ?L = "izg * IO_SIZE" and ?B = "izg * IO_BLOCKS"
  have "off < length xs * ?L" using n by linarith
  from offset_in_stripe [OF this] obtain s a where s: "s < length xs" and off: "off = s * ?L + a" "a < ?L" by blast
  have c: "drop off (concat xs) = drop a (xs ! s) @ concat (drop (Suc s) xs)"
    unfolding off(1) using sd(6) s off(2) by (intro drop_concat) auto
  have lx: "length (xs ! s) = ?L" by (rule sd(6) [OF s])
  from read_enters [OF R izg u p n(1,2) s off fit] obtain r1 where
    res: "Read ops buf off n u (p, w) mem =
       ebind (read_segments ops izg w buf (drop (Suc s) (ud_file_segment u)) r1) (\<lambda>r.
         if rd_read_size r \<noteq> 0 then Inl (Exit ''Read size error'') else Inr (0, p\<lparr>pt_read_buf := rd_tmp r\<rparr>, rd_mem r))"
    and r1: "length (rd_tmp r1) = ?L"
    "if n \<le> ?L - a then rd_read_size r1 = 0
       \<and> (\<exists>k. n \<le> k \<and> k \<le> ?L - a \<and> rd_mem r1 = patch mem buf (take k (drop a (xs ! s))))
     else rd_mem r1 = patch mem buf (drop a (xs ! s)) \<and> 0 < rd_read_size r1 \<and> rd_read_size r1 \<le> ?B
       \<and> (rd_remain_bytes r1 \<or> rd_read_size r1 < ?B) \<and> rd_offset r1 = (s + 1) * ?B \<and> rd_ori_offset r1 = 0
       \<and> rd_req_size r1 = 0 \<and> rd_ori_read_size r1 = n - (?L - a) \<and> rd_buf_offset r1 = ?L - a" by blast
  show ?thesis
  proof (cases "n \<le> ?L - a")
    case True
    then obtain k where k: "rd_read_size r1 = 0" "n \<le> k" "k \<le> ?L - a"
      "rd_mem r1 = patch mem buf (take k (drop a (xs ! s)))" using r1(2) by auto
    show ?thesis
      using res k r1(1) lx c True
      by (intro exI [of _ "rd_tmp r1"] exI [of _ "take k (drop a (xs ! s))"]) (simp add: read_segments_done min_def)
  next
    case False
    have "Suc s * ?L < length xs * ?L" using False n(3) off by simp
    then have nx: "Suc s < length xs" by (simp only: mult_less_cancel2)
    let ?ys = "drop a (xs ! s)" and ?zs = "take (n - (?L - a)) (xs ! Suc s)"
    have ly: "length ?ys = ?L - a" "length (xs ! Suc s) = ?L" using lx sd(6) [OF nx] by simp_all
    have fit1: "buf + (?L - a) + (n - (?L - a)) \<le> length (rd_mem r1)"
      using r1(2) False fit n(2) ly by (simp add: length_patch)
    have "n - (?L - a) \<le> ?L" using n(2) by linarith
    with read_rest [OF R nx r1(1), of buf] r1(2) False n(2) fit1
    obtain r2 where r2: "read_segments ops izg w buf (drop (Suc s) (ud_file_segment u)) r1 = Inr r2" "rd_read_size r2 = 0"
      "rd_tmp r2 = xs ! Suc s" "rd_mem r2 = patch (patch mem buf ?ys) (buf + (?L - a)) ?zs" by auto
    have "rd_mem r2 = patch mem buf (?ys @ ?zs)"
      using patch_patch [of buf ?ys ?zs mem] ly fit n(2) False r2(4) by simp
    moreover have "drop (Suc s) xs = xs ! Suc s # drop (Suc (Suc s)) xs"
      using nx by (simp add: Cons_nth_drop_Suc)
    ultimately show ?thesis
      using res r2 ly n(2) False c
      by (intro exI [of _ "rd_tmp r2"] exI [of _ "?ys @ ?zs"]) (simp add: min_def)
  qed
qed

text \<open>A read that starts inside the data and runs past its end ends the process.\<close>

lemma read_overruns:
  assumes R: "readable ops media hwp zsz nz izg w xs (ud_file_segment u)" and izg: "izg = pt_izg_cnt p"
    and u: "ud_size u = length xs * (izg * IO_BLOCKS)" "\<not> ud_write_lock u"
    and p: "length (pt_read_buf p) = izg * IO_SIZE"
    and n: "n \<le> izg * IO_SIZE" "off < length xs * (izg * IO_SIZE)" "length xs * (izg * IO_SIZE) < off + n"
    and fit: "buf + izg * IO_SIZE \<le> length mem"
  shows "Read ops buf off n u (p, w) mem = Inl (Exit ''Read size error'')"
proof -
  note sd = storedD [OF readableD(3) [OF R]]
  let ?L = "izg * IO_SIZE"
  from offset_in_stripe [OF n(2)] obtain s a where s: "s < length xs" and off: "off = s * ?L + a" "a < ?L" by blast
  have "length xs * ?L < (s + 2) * ?L" using off n(1,3) by (simp add: algebra_simps)
  then have "length xs < s + 2" by (simp only: mult_less_cancel2)
  then have last: "length xs = Suc s" using s by linarith
  have "0 < n" using n(2,3) by linarith
  from read_enters [OF R izg u p this n(1) s off fit] obtain r where
    r: "Read ops buf off n u (p, w) mem =
       ebind (read_segments ops izg w buf (drop (Suc s) (ud_file_segment u)) r) (\<lambda>r.
         if rd_read_size r \<noteq> 0 then Inl (Exit ''Read size error'') else Inr (0, p\<lparr>pt_read_buf := rd_tmp r\<rparr>, rd_mem r))"
    "\<not> n \<le> ?L - a \<Longrightarrow> 0 < rd_read_size r" by (auto split: if_splits)
  have "\<not> n \<le> ?L - a" using n(3) off last by simp
  with r sd(1) last show ?thesis by simp
qed

section \<open>Reading several whole stripes\<close>

text \<open>
  A read of \<open>m \<ge> 2\<close> whole stripes: at the second segment the request is taken for the whole
  rest, so the loop ends with two stripes copied, whatever \<open>m\<close> is.
\<close>

lemma read_two_stripes:
  assumes R: "readable ops media hwp zsz nz izg w xs (ud_file_segment u)" and izg: "izg = pt_izg_cnt p"
    and u: "ud_size u = length xs * (izg * IO_BLOCKS)" "\<not> ud_write_lock u"
    and m: "2 \<le> m" "s + m \<le> length xs" and fit: "buf + 2 * (izg * IO_SIZE) \<le> length mem"
  shows "Read ops buf (s * (izg * IO_SIZE)) (m * (izg * IO_SIZE)) u (p, w) mem =
     Inr (0, p, patch mem buf (xs ! s @ xs ! Suc s))"
proof -
  note rd = readableD [OF R]
  note sd = storedD [OF rd(3)]
  let ?segs = "ud_file_segment u"
  have s: "s < length xs" "Suc s < length xs" using m by simp_all
  define L where "L = izg * IO_SIZE"
  define B where "B = izg * IO_BLOCKS"
  have B: "0 < B" "B * BLOCK_SIZE = L" using sd(7) [OF s(1)] by (simp_all add: B_def L_def stripe_blocks)
  note seg0 = sd(3,4) [OF s(1), folded B_def] and seg1 = sd(3,4) [OF s(2), folded B_def]
  have len: "length (xs ! s) = L" "length (xs ! Suc s) = L" using sd(6) s by (simp_all add: L_def)
  have "(s + m) * L \<le> length xs * L" using m(2) by (rule mult_le_mono1)
  then have bb: "(s + m) * L < 4294967296" using sd(2) unfolding L_def by linarith
  have "(s + m) * B \<le> (s + m) * L" unfolding B(2) [symmetric] by (intro mult_le_mono2) (simp add: BLOCK_SIZE_def)
  with bb have b: "s * B + m * B < 4294967296" by (simp add: add_mult_distrib)
  have mB: "2 * B \<le> m * B" using m(1) by (rule mult_le_mono1)
  have bl: "blocks_of (m * L) = m * B" using blocks_of_stripe [of "m * izg"] by (simp add: mult.assoc L_def B_def)
  have od: "s * L div BLOCK_SIZE = s * B" by (simp add: B(2) [symmetric] mult.assoc [symmetric])
  have uL: "u32 L = L" using stored_bounds(3) [OF rd(3) s(1)] unfolding L_def by (rule u32_id)
  note full = read_segment_full [OF R, folded L_def B_def]
  define r0 where "r0 = \<lparr>rd_read_size = m * B, rd_offset = s * B, rd_req_size = m * B,
     rd_ori_offset = s * L, rd_ori_read_size = m * L, rd_buf_offset = 0, rd_remain_bytes = False,
     rd_mem = mem, rd_tmp = pt_read_buf p\<rparr>"
  define r1 where "r1 = r0\<lparr>rd_read_size := m * B - B, rd_offset := s * B + B, rd_req_size := B,
     rd_mem := patch mem buf (xs ! s), rd_buf_offset := L\<rparr>"
  have r0: "rd_read_size r0 = m * B" "rd_offset r0 = s * B" "rd_req_size r0 = m * B" "rd_ori_offset r0 = s * L"
    "rd_buf_offset r0 = 0" "\<not> rd_remain_bytes r0" "rd_mem r0 = mem" "rd_tmp r0 = pt_read_buf p"
    by (simp_all add: r0_def)
  have r1: "rd_read_size r1 = m * B - B" "rd_offset r1 = s * B + B" "rd_req_size r1 = B" "rd_ori_offset r1 = s * L"
    "rd_buf_offset r1 = L" "\<not> rd_remain_bytes r1" "rd_mem r1 = patch mem buf (xs ! s)" "rd_tmp r1 = pt_read_buf p"
    by (simp_all add: r1_def r0_def)
  have q0: "segment_request (?segs ! s) r0 = (0, B)"
    using seg0 mB B(1) by (simp add: segment_request_def r0)
  have q1: "segment_request (?segs ! Suc s) r1 = (0, m * B - B)"
    using seg1 by (simp add: segment_request_def r1)
  have sg0: "read_segment ops izg w buf (?segs ! s) r0 = Inr r1"
    using full [OF s(1) q0, of buf] mB b B fit [folded L_def] uL by (simp add: r0 r1_def)
  obtain r2 where r2: "read_segment ops izg w buf (?segs ! Suc s) r1 = Inr r2" "rd_read_size r2 = 0"
    "rd_mem r2 = patch (patch mem buf (xs ! s)) (buf + L) (xs ! Suc s)" "rd_tmp r2 = pt_read_buf p"
    using full [OF s(2) q1, of buf] mB b fit [folded L_def] len by (simp add: r1 length_patch)
  have "rd_mem r2 = patch mem buf (xs ! s @ xs ! Suc s)"
    using patch_patch [of buf "xs ! s" "xs ! Suc s" mem] len fit [folded L_def] r2(3) by simp
  moreover have "read_segments ops izg w buf ?segs r0 = Inr r2"
  proof -
    have n0: "rd_read_size r0 \<noteq> 0" "rd_read_size r1 \<noteq> 0" using mB B(1) m(1) by (simp_all add: r0 r1)
    have "read_segments ops izg w buf ?segs r0 = read_segments ops izg w buf (drop s ?segs) r0"
      using read_segments_skip [OF rd(3), of s r0, folded B_def] s n0 r0(2) by simp
    also have "\<dots> = read_segments ops izg w buf (drop (Suc s) ?segs) r1"
      using read_segments_here [OF rd(3) s(1), of r0 ops w buf, folded B_def] n0 sg0 B(1) r0(2) by simp
    also have "\<dots> = Inr r2"
      using read_segments_here [OF rd(3) s(2), of r1 ops w buf, folded B_def] n0 r2 B(1) read_segments_done [OF r2(2)] r1(2)
      by simp
    finally show ?thesis .
  qed
  ultimately show ?thesis
    using u izg r2(2,4) s(1) unfolding L_def [symmetric] B_def [symmetric]
    by (simp add: Read_def Let_def acquire_def bl od r0_def)
qed

section \<open>Reading from the start\<close>

lemma length_concat_even: "(\<And>y. y \<in> set ys \<Longrightarrow> length y = L) \<Longrightarrow> length (concat ys) = length ys * L"
  by (induction ys) simp_all

lemma read_all_stored:
  assumes ok: "nvme_ok ops media hwp zsz nz" and sync: "dev_sync hwp zsz nz (wd_c w)"
    and len: "length segs = length xs" and izg: "0 < izg" and b: "m * (izg * IO_BLOCKS) < 4294967296"
    and st: "\<And>i. i < length xs \<Longrightarrow> sg_size (segs ! i) = izg * IO_BLOCKS
       \<and> striped (media (c_dev (wd_c w))) (nz * zsz) (wd_iv w) (sg_interval_vector (segs ! i)) izg 1 (xs ! i)"
    and m: "m \<le> length xs" and fit: "p + m * (izg * IO_SIZE) \<le> length mem"
  shows "read_all ops izg w segs p (m * (izg * IO_BLOCKS)) mem = Inr (patch mem p (concat (take m xs)))"
  using len b st m fit
proof (induction xs arbitrary: segs m p mem)
  case (Cons x xs)
  then obtain s ss where segs: "segs = s # ss" by (cases segs) auto
  show ?case
  proof (cases m)
    case 0
    then show ?thesis by (simp add: segs patch_def)
  next
    case (Suc m')
    let ?L = "izg * IO_SIZE" and ?B = "izg * IO_BLOCKS"
    have sx: "sg_size s = ?B" and sx2: "striped (media (c_dev (wd_c w))) (nz * zsz) (wd_iv w) (sg_interval_vector s) izg 1 x"
      using Cons.prems(3) [of 0] by (simp_all add: segs)
    have lx: "length x = ?L" using stripedD(4) [OF sx2] by simp
    have fit': "p + length x \<le> length mem" using Cons.prems(5) Suc lx by simp
    have one: "Userdata__read ops s p izg ?B w mem = Inr (0, patch mem p x)"
      using izg_read_striped [OF ok sync sx2 fit'] stripedD(3) [OF sx2] mem_write_ok [OF fit']
      by (auto simp: Userdata__read_def Let_def patch_def)
    have B: "0 < ?B" "Suc m' * ?B < 4294967296" using izg Cons.prems(2) Suc by simp_all
    have "?L < 4294967296" using stripedD(5) [OF sx2] by simp
    then have u: "u32 (?B * BLOCK_SIZE) = ?L" unfolding stripe_blocks by (rule u32_id)
    have v: "u32_sub (m * ?B) ?B = m' * ?B" using B Suc by (simp add: u32_simps)
    have "m * ?B \<noteq> 0" using B(1) Suc by simp
    then have step: "read_all ops izg w segs p (m * ?B) mem = read_all ops izg w ss (p + ?L) (m' * ?B) (patch mem p x)"
      unfolding segs read_all.simps sx u v one by simp
    have rest: "read_all ops izg w ss (p + ?L) (m' * ?B) (patch mem p x) = Inr (patch (patch mem p x) (p + ?L) (concat (take m' xs)))"
    proof (rule Cons.IH)
      show "length ss = length xs" "m' * ?B < 4294967296" "m' \<le> length xs" using Cons.prems B Suc by (simp_all add: segs)
      show "p + ?L + m' * ?L \<le> length (patch mem p x)" using Cons.prems(5) Suc fit' by (simp add: length_patch)
      show "sg_size (ss ! i) = ?B \<and> striped (media (c_dev (wd_c w))) (nz * zsz) (wd_iv w) (sg_interval_vector (ss ! i)) izg 1 (xs ! i)"
        if "i < length xs" for i using Cons.prems(3) [of "Suc i"] that by (simp add: segs)
    qed
    have lc: "length (concat (take m' xs)) = m' * ?L"
    proof -
      have "length y = ?L" if "y \<in> set (take m' xs)" for y
      proof -
        from in_set_takeD [OF that] obtain i where i: "i < length xs" "y = xs ! i" by (auto simp: in_set_conv_nth)
        then have "striped (media (c_dev (wd_c w))) (nz * zsz) (wd_iv w) (sg_interval_vector (ss ! i)) izg 1 y"
          using Cons.prems(3) [of "Suc i"] by (simp add: segs)
        from stripedD(4) [OF this] show ?thesis by simp
      qed
      then show ?thesis using length_concat_even [of "take m' xs" ?L] Cons.prems(4) Suc by simp
    qed
    have "p + length x + length (concat (take m' xs)) \<le> length mem" using Cons.prems(5) Suc lc lx by simp
    from patch_patch [OF this] lx show ?thesis unfolding step rest by (simp add: Suc)
  qed
qed (simp add: patch_def)

section \<open>The properties\<close>

text \<open>
  For the witnesses: an emulated device with one zone of \<open>m\<close> units, unit \<open>i\<close> filled with the
  byte \<open>i\<close>, and user data with one segment per unit.
\<close>

definition marked_world :: "nat \<Rightarrow> emu world" where
  "marked_world m =
     \<lparr>wd_c = (emu_ctrl (m * IO_BLOCKS) 1)\<lparr>c_dev := (\<lambda>a. of_nat (a div IO_SIZE), snd (emu_init (m * IO_BLOCKS)))\<rparr>,
      wd_pool = empty_pool,
      wd_iv = map (\<lambda>i. new_Interval 0 i (i * IO_BLOCKS) ((i + 1) * IO_BLOCKS)) [0..<m]\<rparr>"

definition marked_user :: "nat \<Rightarrow> Userdata" where
  "marked_user m = (new_Userdata 0 0)\<lparr>
     ud_file_segment := map (\<lambda>i. set_interval_list [i] (new_Segment i (i * IO_BLOCKS) IO_BLOCKS)) [0..<m],
     ud_size := m * IO_BLOCKS\<rparr>"

definition marked_data :: "nat \<Rightarrow> byte list list" where
  "marked_data m = map (\<lambda>i. replicate IO_SIZE (of_nat i)) [0..<m]"

lemma marked_range: "range_of (\<lambda>a. of_nat (a div IO_SIZE)) (i * IO_BLOCKS * BLOCK_SIZE) IO_SIZE = replicate IO_SIZE (of_nat i :: byte)"
proof -
  have "map (\<lambda>a. of_nat (a div IO_SIZE)) [i * IO_SIZE..<i * IO_SIZE + IO_SIZE] = map (\<lambda>a. of_nat i :: byte) [i * IO_SIZE..<i * IO_SIZE + IO_SIZE]"
  proof (rule map_cong [OF refl])
    fix a assume "a \<in> set [i * IO_SIZE..<i * IO_SIZE + IO_SIZE]"
    then have "a div IO_SIZE = i" by (intro div_nat_eqI) (simp_all add: mult.commute)
    then show "of_nat (a div IO_SIZE) = (of_nat i :: byte)" by simp
  qed
  then show ?thesis by (simp add: range_of_def map_replicate_const IO_SIZE_blocks mult.assoc)
qed

lemma marked_readable:
  assumes "0 < m" "m \<le> 5000"
  shows "readable (emu_ops (m * IO_BLOCKS) 1) fst snd (m * IO_BLOCKS) 1 1 (marked_world m) (marked_data m)
     (ud_file_segment (marked_user m))"
proof -
  have b: "m * IO_SIZE < 2 ^ 32" "(1 + 1) * (m * IO_BLOCKS) < 2 ^ 32"
    using assms(2) by (simp_all add: IO_SIZE_def IO_BLOCKS_def)
  have "dev_sync snd (m * IO_BLOCKS) 1 (wd_c (marked_world m))"
    using emu_sync [OF _ b(2)] assms(1) by (simp add: dev_sync_def marked_world_def emu_ctrl_def emu_info_def)
  moreover have "stored (fst (c_dev (wd_c (marked_world m)))) (1 * (m * IO_BLOCKS)) (wd_iv (marked_world m)) 1
     (marked_data m) (ud_file_segment (marked_user m))"
    unfolding stored_def
  proof (intro conjI allI impI)
    fix i assume "i < length (marked_data m)"
    then have i: "i < m" by (simp add: marked_data_def)
    then have "Suc i * IO_BLOCKS \<le> m * IO_BLOCKS" by (intro mult_le_mono1) simp
    then show "striped (fst (c_dev (wd_c (marked_world m)))) (1 * (m * IO_BLOCKS)) (wd_iv (marked_world m))
        (sg_interval_vector (ud_file_segment (marked_user m) ! i)) 1 1 (marked_data m ! i)"
      using i b marked_range [of i]
      by (simp add: striped_def marked_world_def marked_user_def marked_data_def set_interval_list_def new_Interval_def
          chunk_def IO_SIZE_def IO_BLOCKS_def)
  qed (use b in \<open>simp_all add: marked_data_def marked_user_def set_interval_list_def new_Segment_def\<close>)
  ultimately show ?thesis
    using emu_ok [of "m * IO_BLOCKS" 1] assms(1) by (simp add: readable_def)
qed

definition marked_part :: Partition where
  "marked_part = new_Partition (\<lambda>_. 0) 1 ''0'' 1 1"

lemma marked_sel:
  "pt_izg_cnt marked_part = 1" "length (pt_read_buf marked_part) = IO_SIZE"
  "ud_size (marked_user m) = m * IO_BLOCKS" "\<not> ud_write_lock (marked_user m)" "length (marked_data m) = m"
  by (simp_all add: marked_part_def new_Partition_def marked_user_def new_Userdata_def marked_data_def)

text \<open>
  C12: a read of up to one stripe at any byte offset inside the stored data succeeds and
  leaves the bytes of the data at the caller's buffer; nothing outside the one stripe of
  memory from the buffer on is touched, and of the partition only its read buffer changes.
\<close>

theorem read_at_offset:
  assumes "readable ops media hwp zsz nz (pt_izg_cnt p) w xs (ud_file_segment u)"
    and "ud_size u = length xs * (pt_izg_cnt p * IO_BLOCKS)" and "\<not> ud_write_lock u"
    and "length (pt_read_buf p) = pt_izg_cnt p * IO_SIZE"
    and "0 < n" and "n \<le> pt_izg_cnt p * IO_SIZE" and "off + n \<le> length xs * (pt_izg_cnt p * IO_SIZE)"
    and "buf + pt_izg_cnt p * IO_SIZE \<le> length mem"
  shows "\<exists>rb mem'. Read ops buf off n u (p, w) mem = Inr (0, p\<lparr>pt_read_buf := rb\<rparr>, mem')
     \<and> take n (drop buf mem') = take n (drop off (concat xs))
     \<and> length mem' = length mem \<and> take buf mem' = take buf mem
     \<and> drop (buf + pt_izg_cnt p * IO_SIZE) mem' = drop (buf + pt_izg_cnt p * IO_SIZE) mem"
proof -
  from read_stored [OF assms(1) refl assms(2-8)] obtain rb ys where
    r: "Read ops buf off n u (p, w) mem = Inr (0, p\<lparr>pt_read_buf := rb\<rparr>, patch mem buf ys)"
      "length ys \<le> pt_izg_cnt p * IO_SIZE" "n \<le> length ys" "take n ys = take n (drop off (concat xs))" by blast
  have f: "buf + length ys \<le> length mem" using r(2) assms(8) by linarith
  have "drop (buf + pt_izg_cnt p * IO_SIZE) (patch mem buf ys) = drop (buf + pt_izg_cnt p * IO_SIZE) mem"
    using f r(2) assms(8) by (simp add: patch_def add.commute)
  then show ?thesis using r(1,4) patch_at [OF f r(3)] length_patch [OF f] f
    by (intro exI [of _ rb] exI [of _ "patch mem buf ys"]) (simp add: patch_def)
qed

theorem read_at_offset_witness:
  "\<exists>rb mem'. Read (emu_ops (2 * IO_BLOCKS) 1) 0 (IO_SIZE - 1) 2 (marked_user 2)
       (marked_part, marked_world 2) (replicate IO_SIZE 9)
     = Inr (0, marked_part\<lparr>pt_read_buf := rb\<rparr>, mem')
   \<and> take 2 mem' = take 2 (drop (IO_SIZE - 1) (concat (marked_data 2)))"
  using read_at_offset [of "emu_ops (2 * IO_BLOCKS) 1" fst snd "2 * IO_BLOCKS" 1 marked_part
      "marked_world 2" "marked_data 2" "marked_user 2" 2 "IO_SIZE - 1" 0 "replicate IO_SIZE 9"]
    marked_readable [of 2]
  by (simp add: marked_sel) (auto simp: IO_SIZE_def)

text \<open>
  C37: an aligned read of two or more whole stripes reports success but copies only the
  first two of them; the rest of the caller's buffer keeps its old contents.
\<close>

theorem read_copies_two_stripes:
  assumes "readable ops media hwp zsz nz (pt_izg_cnt p) w xs (ud_file_segment u)"
    and "ud_size u = length xs * (pt_izg_cnt p * IO_BLOCKS)" and "\<not> ud_write_lock u"
    and "2 \<le> m" and "s + m \<le> length xs" and "buf + 2 * (pt_izg_cnt p * IO_SIZE) \<le> length mem"
  shows "Read ops buf (s * (pt_izg_cnt p * IO_SIZE)) (m * (pt_izg_cnt p * IO_SIZE)) u (p, w) mem =
     Inr (0, p, take buf mem @ xs ! s @ xs ! Suc s @ drop (buf + 2 * (pt_izg_cnt p * IO_SIZE)) mem)"
proof -
  have "s < length xs" "Suc s < length xs" using assms(4,5) by simp_all
  then have "length (xs ! s) = pt_izg_cnt p * IO_SIZE" "length (xs ! Suc s) = pt_izg_cnt p * IO_SIZE"
    using storedD(6) [OF readableD(3) [OF assms(1)]] by simp_all
  then show ?thesis
    using read_two_stripes [OF assms(1) refl assms(2-6)] by (simp add: patch_def mult_2)
qed

theorem read_copies_two_stripes_witness:
  "Read (emu_ops (3 * IO_BLOCKS) 1) 0 0 (3 * IO_SIZE) (marked_user 3)
     (marked_part, marked_world 3) (replicate (3 * IO_SIZE) 9) =
   Inr (0, marked_part, replicate IO_SIZE 0 @ replicate IO_SIZE 1 @ replicate IO_SIZE 9)"
  using read_copies_two_stripes [of "emu_ops (3 * IO_BLOCKS) 1" fst snd "3 * IO_BLOCKS" 1 marked_part
      "marked_world 3" "marked_data 3" "marked_user 3" 3 0 0 "replicate (3 * IO_SIZE) 9"]
    marked_readable [of 3]
  by (simp add: marked_sel marked_data_def upt_rec)

text \<open>
  C29: reading the first \<open>m\<close> stripes with the call without an offset fills the caller's
  buffer with them, in order, and touches no other memory.
\<close>

theorem read_all_stripes:
  assumes "readable ops media hwp zsz nz (pt_izg_cnt p) w xs (ud_file_segment u)" and "\<not> ud_write_lock u"
    and "m \<le> length xs" and "buf + m * (pt_izg_cnt p * IO_SIZE) \<le> length mem"
  shows "Read_all ops buf (m * (pt_izg_cnt p * IO_SIZE)) u (p, w) mem =
     Inr (0, take buf mem @ concat (take m xs) @ drop (buf + m * (pt_izg_cnt p * IO_SIZE)) mem)"
proof (cases "m = 0")
  case True
  then show ?thesis using assms(2) by (cases "ud_file_segment u") (simp_all add: Read_all_def acquire_def blocks_of_def)
next
  case False
  let ?izg = "pt_izg_cnt p"
  note rd = readableD [OF assms(1)]
  note sd = storedD [OF rd(3)]
  have i: "m - 1 < length xs" using False assms(3) by simp
  have b: "m * (?izg * IO_BLOCKS) < 4294967296" using stored_bounds(2) [OF rd(3) i] False by simp
  have bl: "blocks_of (m * (?izg * IO_SIZE)) = m * (?izg * IO_BLOCKS)"
    using blocks_of_stripe [of "m * ?izg"] by (simp add: mult.assoc)
  have "length y = ?izg * IO_SIZE" if "y \<in> set (take m xs)" for y
    using in_set_takeD [OF that] sd(6) by (auto simp: in_set_conv_nth)
  from length_concat_even [OF this] have "length (concat (take m xs)) = m * (?izg * IO_SIZE)" using assms(3) by simp
  moreover have "read_all ops ?izg w (ud_file_segment u) buf (m * (?izg * IO_BLOCKS)) mem
      = Inr (patch mem buf (concat (take m xs)))"
    using sd(1,4,5) by (intro read_all_stored [OF rd(1,2) _ sd(7) [OF i] b _ assms(3,4)]) simp_all
  ultimately show ?thesis using assms(2) by (simp add: Read_all_def acquire_def bl patch_def)
qed

theorem read_all_stripes_witness:
  "Read_all (emu_ops (2 * IO_BLOCKS) 1) 0 (2 * IO_SIZE) (marked_user 2)
     (marked_part, marked_world 2) (replicate (2 * IO_SIZE) 9) =
   Inr (0, replicate IO_SIZE 0 @ replicate IO_SIZE 1)"
  using read_all_stripes [of "emu_ops (2 * IO_BLOCKS) 1" fst snd "2 * IO_BLOCKS" 1 marked_part
      "marked_world 2" "marked_data 2" "marked_user 2" 2 0 "replicate (2 * IO_SIZE) 9"]
    marked_readable [of 2]
  by (simp add: marked_sel marked_data_def upt_rec)

end
