(* ===== verification/Userdata_Write.thy ===== *)
theory Userdata_Write
  imports Userdata_Read
begin

text \<open>
  Appending a stripe to user data (\<^verbatim>\<open>Userdata::_write\<close> and \<^verbatim>\<open>Userdata::Append\<close>): which zones
  it takes and where in them it writes, that it succeeds while the pool has zones, and
  that it leaves the data of all segments written before in place.
\<close>

section \<open>Zones of a partition\<close>

definition zone_nos :: "Partition \<Rightarrow> nat list" where
  "zone_nos p = map zn_number (pt_zone_vector p)"

definition last_zones :: "Partition \<Rightarrow> nat list" where
  "last_zones p = drop (length (zone_nos p) - pt_izg_cnt p) (zone_nos p)"

definition equal_fill :: "'d ctrl \<Rightarrow> nat \<Rightarrow> nat list \<Rightarrow> nat \<Rightarrow> bool" where
  "equal_fill c zsz zs d \<longleftrightarrow> (\<forall>z \<in> set zs. wps c z = z * zsz + d)"

definition part_ok :: "'d ctrl \<Rightarrow> nat \<Rightarrow> nat \<Rightarrow> Partition \<Rightarrow> bool" where
  "part_ok c zsz k p \<longleftrightarrow>
     0 < pt_izg_cnt p \<and> distinct (zone_nos p) \<and> (\<forall>z \<in> set (zone_nos p). z < k)
     \<and> (zone_nos p = [] \<or> pt_izg_cnt p \<le> length (zone_nos p)
          \<and> (\<exists>d \<le> zsz. IO_BLOCKS dvd d \<and> equal_fill c zsz (last_zones p) d))"

definition fresh :: "'d ctrl \<Rightarrow> nat \<Rightarrow> nat \<Rightarrow> nat \<Rightarrow> bool" where
  "fresh c zsz nz k \<longleftrightarrow> (\<forall>z. k \<le> z \<and> z < nz \<longrightarrow> wps c z = z * zsz)"

lemma zone_back_last:
  assumes "n < pt_izg_cnt p" "pt_izg_cnt p \<le> length (zone_nos p)"
  shows "zone_back p n = Inr (pt_zone_vector p ! (length (pt_zone_vector p) - 1 - n))"
    "zn_number (pt_zone_vector p ! (length (pt_zone_vector p) - 1 - n)) \<in> set (last_zones p)"
proof -
  have len: "length (zone_nos p) = length (pt_zone_vector p)" by (simp add: zone_nos_def)
  have n: "n < length (pt_zone_vector p)" using assms len by linarith
  then show "zone_back p n = Inr (pt_zone_vector p ! (length (pt_zone_vector p) - 1 - n))"
    by (simp add: zone_back_def rev_nth)
  let ?i = "pt_izg_cnt p - 1 - n"
  have "last_zones p ! ?i = zone_nos p ! (length (zone_nos p) - pt_izg_cnt p + ?i)"
    unfolding last_zones_def using assms by (intro nth_drop) simp
  also have "length (zone_nos p) - pt_izg_cnt p + ?i = length (pt_zone_vector p) - 1 - n"
    using assms len by simp
  finally have "zn_number (pt_zone_vector p ! (length (pt_zone_vector p) - 1 - n)) = last_zones p ! ?i"
    using n by (simp add: zone_nos_def)
  moreover have "?i < length (last_zones p)" using assms by (simp add: last_zones_def)
  ultimately show "zn_number (pt_zone_vector p ! (length (pt_zone_vector p) - 1 - n)) \<in> set (last_zones p)"
    by simp
qed

text \<open>Taking \<open>m\<close> zones from the pool.\<close>

lemma alloc_loop:
  assumes "pool_rep nz k (wd_pool w)" "k + m \<le> nz"
  shows "\<exists>pool'. efor 0 m (\<lambda>_. alloc_or_exit) (p, w) =
     Inr (p\<lparr>pt_zone_vector := pt_zone_vector p @ map new_Zone [k..<k + m]\<rparr>, w\<lparr>wd_pool := pool'\<rparr>) \<and> pool_rep nz (k + m) pool'"
proof -
  let ?P = "\<lambda>i (t::'a pw). \<exists>pool'. t = (p\<lparr>pt_zone_vector := pt_zone_vector p @ map new_Zone [k..<k + i]\<rparr>, w\<lparr>wd_pool := pool'\<rparr>)
     \<and> pool_rep nz (k + i) pool'"
  have "\<exists>t. efor 0 m (\<lambda>_. alloc_or_exit) (p, w) = Inr t \<and> ?P (0 + m) t"
  proof (rule efor_rule [of ?P])
    show "?P 0 (p, w)" using assms(1) by (intro exI [of _ "wd_pool w"]) simp
    fix i t assume i: "i < 0 + m" and t: "?P i t"
    then obtain pool' where t': "t = (p\<lparr>pt_zone_vector := pt_zone_vector p @ map new_Zone [k..<k + i]\<rparr>, w\<lparr>wd_pool := pool'\<rparr>)"
      "pool_rep nz (k + i) pool'" by blast
    from alloc_zone_pool(1) [OF t'(2), of "p\<lparr>pt_zone_vector := pt_zone_vector p @ map new_Zone [k..<k + i]\<rparr>"] i assms(2)
    obtain q where
      q: "alloc_zone (p\<lparr>pt_zone_vector := pt_zone_vector p @ map new_Zone [k..<k + i]\<rparr>, pool') =
         Inr (0, p\<lparr>pt_zone_vector := pt_zone_vector p @ map new_Zone [k..<k + Suc i]\<rparr>, q)" "pool_rep nz (k + Suc i) q"
      by auto
    show "\<exists>t'. alloc_or_exit t = Inr t' \<and> ?P (Suc i) t'"
      using q by (simp add: t'(1) alloc_or_exit_def) blast
  qed
  then show ?thesis by auto
qed

lemma zone_nos_alloc:
  "zone_nos (p\<lparr>pt_zone_vector := pt_zone_vector p @ map new_Zone [k..<m]\<rparr>) = zone_nos p @ [k..<m]"
  by (simp add: zone_nos_def new_Zone_def comp_def)

text \<open>Counting the full zones of the last stripe: all or none.\<close>

lemma count_full_level:
  assumes sync: "dev_sync hwp zsz nz (wd_c w)" and len: "pt_izg_cnt p \<le> length (zone_nos p)"
    and nz: "\<forall>z \<in> set (last_zones p). z < nz" and lv: "equal_fill (wd_c w) zsz (last_zones p) d"
  shows "count_full (p, w) (pt_izg_cnt p) = Inr (if d = zsz then pt_izg_cnt p else 0)"
proof -
  let ?f = "\<lambda>i cnt. ebind (zone_back p i) (\<lambda>z. ebind (Zone_full (wd_c w) z) (\<lambda>full. Inr (if full then cnt + 1 else cnt)))"
  have "\<exists>c. efor 0 (pt_izg_cnt p) ?f 0 = Inr c \<and> c = (if d = zsz then 0 + pt_izg_cnt p else 0)"
  proof (rule efor_rule [of "\<lambda>i c. c = (if d = zsz then i else 0)"])
    fix i and c :: nat assume i: "i < 0 + pt_izg_cnt p" and c: "c = (if d = zsz then i else 0)"
    let ?z = "pt_zone_vector p ! (length (pt_zone_vector p) - 1 - i)"
    have z: "zone_back p i = Inr ?z" "zn_number ?z \<in> set (last_zones p)" using zone_back_last [OF _ len] i by simp_all
    have "Zone_full (wd_c w) ?z = Inr (d = zsz)"
      using zns_full_zone_ok [OF sync, of "zn_number ?z"] z(2) nz lv by (auto simp: Zone_full_def equal_fill_def)
    then show "\<exists>c'. ?f i c = Inr c' \<and> c' = (if d = zsz then Suc i else 0)" using z(1) c by simp
  qed simp
  then show ?thesis by (simp add: count_full_def)
qed

text \<open>After the first part of \<^verbatim>\<open>_write\<close> the last stripe of zones has room for one more unit each.\<close>

lemma prepare_zones_ok:
  assumes sync: "dev_sync hwp zsz nz (wd_c w)" and pool: "pool_rep nz k (wd_pool w)"
    and part: "part_ok (wd_c w) zsz k p" and fr: "fresh (wd_c w) zsz nz k"
    and zsz: "IO_BLOCKS dvd zsz" and nz: "k + pt_izg_cnt p \<le> nz"
  shows "\<exists>pool' k' d. prepare_zones (pt_izg_cnt p) (p, w) =
       Inr (p\<lparr>pt_zone_vector := pt_zone_vector p @ map new_Zone [k..<k']\<rparr>, w\<lparr>wd_pool := pool'\<rparr>)
     \<and> pool_rep nz k' pool' \<and> k \<le> k' \<and> k' \<le> nz \<and> k' \<le> k + pt_izg_cnt p \<and> pt_izg_cnt p \<le> length (zone_nos p @ [k..<k'])
     \<and> distinct (zone_nos p @ [k..<k']) \<and> (\<forall>z \<in> set (zone_nos p @ [k..<k']). z < k')
     \<and> d + IO_BLOCKS \<le> zsz \<and> IO_BLOCKS dvd d
     \<and> equal_fill (wd_c w) zsz (drop (length (zone_nos p @ [k..<k']) - pt_izg_cnt p) (zone_nos p @ [k..<k'])) d"
proof -
  let ?izg = "pt_izg_cnt p"
  have izg: "0 < ?izg" and dist: "distinct (zone_nos p)" and lt: "\<forall>z \<in> set (zone_nos p). z < k"
    using part by (auto simp: part_ok_def)
  have z0: "0 < zsz" using sync by (simp add: dev_sync_def)
  have room: "d + IO_BLOCKS \<le> zsz" if "IO_BLOCKS dvd d" "d < zsz" for d
  proof -
    from zsz that obtain a b where ab: "zsz = IO_BLOCKS * a" "d = IO_BLOCKS * b" by (auto simp: dvd_def)
    then have "Suc b \<le> a" using that(2) by simp
    then have "IO_BLOCKS * Suc b \<le> IO_BLOCKS * a" by (rule mult_le_mono2)
    then show ?thesis using ab by simp
  qed
  have new: "equal_fill (wd_c w) zsz [k..<k + ?izg] 0" using fr nz by (auto simp: equal_fill_def fresh_def)
  note loop = alloc_loop [OF pool nz, of p]
  have fin: ?thesis if "prepare_zones ?izg (p, w) = efor 0 ?izg (\<lambda>_. alloc_or_exit) (p, w)"
  proof -
    from loop obtain pool' where l: "efor 0 ?izg (\<lambda>_. alloc_or_exit) (p, w) =
       Inr (p\<lparr>pt_zone_vector := pt_zone_vector p @ map new_Zone [k..<k + ?izg]\<rparr>, w\<lparr>wd_pool := pool'\<rparr>)"
      "pool_rep nz (k + ?izg) pool'" by blast
    note that [unfolded l(1)] l(2)
    moreover have "drop (length (zone_nos p @ [k..<k + ?izg]) - ?izg) (zone_nos p @ [k..<k + ?izg]) = [k..<k + ?izg]"
      by simp
    moreover have "distinct (zone_nos p @ [k..<k + ?izg])" "\<forall>z \<in> set (zone_nos p @ [k..<k + ?izg]). z < k + ?izg"
      using dist lt by fastforce+
    ultimately show ?thesis
      using new room [of 0] z0 nz by (intro exI [of _ pool'] exI [of _ "k + ?izg"] exI [of _ "0::nat"]) simp
  qed
  consider "zone_nos p = []" | d where "?izg \<le> length (zone_nos p)" "d \<le> zsz" "IO_BLOCKS dvd d"
      "equal_fill (wd_c w) zsz (last_zones p) d" "zone_nos p \<noteq> []"
    using part by (auto simp: part_ok_def)
  then show ?thesis
  proof cases
    case 1
    then show ?thesis by (intro fin) (simp add: prepare_zones_def zone_empty_def zone_nos_def)
  next
    case 2
    have "\<forall>z \<in> set (last_zones p). z < nz"
      using lt nz by (auto simp: last_zones_def dest!: in_set_dropD)
    from count_full_level [OF sync 2(1) this 2(4)]
    have run: "prepare_zones ?izg (p, w) = efor 0 (if d = zsz then ?izg else 0) (\<lambda>_. alloc_or_exit) (p, w)"
      using 2(1,5) by (simp add: prepare_zones_def zone_empty_def zone_size_def zone_nos_def)
    show ?thesis
    proof (cases "d = zsz")
      case True
      then show ?thesis using run by (intro fin) simp
    next
      case False
      then show ?thesis
        using run pool 2 room [of d] dist lt nz unfolding last_zones_def
        by (intro exI [of _ "wd_pool w"] exI [of _ k] exI [of _ d]) simp
    qed
  qed
qed

section \<open>The passes over the last zones\<close>

lemma back_pass_rule:
  assumes "P 0 s"
    and "\<And>n t. n < target \<Longrightarrow> P n t \<Longrightarrow> \<exists>z t'. zone_back (fst (view t)) n = Inr z
       \<and> Zone_full (wd_c (snd (view t))) z = Inr False \<and> body z n t = Inr t' \<and> P (Suc n) t'"
  shows "\<exists>t. back_pass target body view s = Inr t \<and> P target t"
proof -
  let ?Q = "\<lambda>(i, n, t). i = n \<and> n \<le> target \<and> P n t"
  let ?f = "\<lambda>(i, n, s). ebind (zone_back (fst (view s)) n) (\<lambda>z. ebind (Zone_full (wd_c (snd (view s))) z) (\<lambda>full.
     if full then Inr (i + 2, n + 1, s) else ebind (body z n s) (\<lambda>s. Inr (i + 1, n + 1, s))))"
  have "\<exists>s'. ewhile target ''_write'' (\<lambda>(i, n, s). i < target) ?f (0, 0, s) = Inr s' \<and> ?Q s'
     \<and> \<not> (case s' of (i, n, s) \<Rightarrow> i < target)"
  proof (rule ewhile_rule [where m = "\<lambda>(i, n, s). target - i"])
    fix x assume "?Q x" and lt: "case x of (i, n, s) \<Rightarrow> i < target"
    then obtain n t where x: "x = (n, n, t)" "n < target" "P n t" by auto
    from assms(2) [OF x(2,3)] obtain z t' where "zone_back (fst (view t)) n = Inr z"
      "Zone_full (wd_c (snd (view t))) z = Inr False" "body z n t = Inr t'" "P (Suc n) t'" by blast
    then show "\<exists>x'. ?f x = Inr x' \<and> ?Q x' \<and> (case x' of (i, n, s) \<Rightarrow> target - i) < (case x of (i, n, s) \<Rightarrow> target - i)"
      using x by simp
  qed (use assms(1) in simp_all)
  then obtain i n t where "ewhile target ''_write'' (\<lambda>(i, n, s). i < target) ?f (0, 0, s) = Inr (i, n, t)"
    "i = n" "n \<le> target" "P n t" "\<not> i < target" by auto
  then show ?thesis by (auto simp: back_pass_def)
qed

lemma free_sizes_level:
  assumes sync: "dev_sync hwp zsz nz (wd_c w)" and len: "pt_izg_cnt p \<le> length (zone_nos p)"
    and nz: "\<forall>z \<in> set (last_zones p). z < nz" and lv: "equal_fill (wd_c w) zsz (last_zones p) d" and d: "d < zsz"
    and ts: "0 \<le> ts" "ts < 2147483648" "pt_izg_cnt p * zsz < 2147483648"
  shows "free_sizes (pt_izg_cnt p) ts (p, w) =
     Inr (ts - int (pt_izg_cnt p * (zsz - d)), replicate (pt_izg_cnt p) (zsz - d))"
proof -
  let ?izg = "pt_izg_cnt p" and ?f = "zsz - d"
  let ?body = "\<lambda>z (_::nat) (ts, ws). ebind (Zone_get_free_size (wd_c w) z) (\<lambda>free_size.
      Inr (s32 (ts - int free_size), ws @ [free_size]))"
  let ?P = "\<lambda>n (x::int \<times> nat list). x = (ts - int (n * ?f), replicate n ?f)"
  have "\<exists>t. back_pass ?izg ?body (\<lambda>_. (p, w)) (ts, []) = Inr t \<and> ?P ?izg t"
  proof (rule back_pass_rule [of ?P])
    fix n x assume n: "n < ?izg" and x: "?P n x"
    let ?z = "pt_zone_vector p ! (length (pt_zone_vector p) - 1 - n)"
    have z: "zone_back p n = Inr ?z" "zn_number ?z < nz" "wps (wd_c w) (zn_number ?z) = zn_number ?z * zsz + d"
      using zone_back_last [OF n len] nz lv by (simp_all add: equal_fill_def)
    note zd = dev_syncD [OF sync z(2)]
    have nf: "Zone_full (wd_c w) ?z = Inr False"
      using zns_full_zone_ok [OF sync z(2)] z(3) d by (simp add: Zone_full_def)
    have fs: "Zone_get_free_size (wd_c w) ?z = Inr ?f"
      using zns_get_start_lba_ok [OF sync z(2)] zns_get_wp_ok [OF sync z(2)] zns_get_zone_size_ok [OF sync]
        z(3) d zd(6,9) by (simp add: Zone_get_free_size_def u32_simps)
    have "Suc n * ?f \<le> ?izg * zsz" using n by (intro mult_le_mono) simp_all
    then have "int (Suc n * ?f) < 2147483648" using ts(3) by (simp only: of_nat_less_numeral_iff)
    moreover have e: "ts - int (n * ?f) - int ?f = ts - int (Suc n * ?f)" by simp
    ultimately have "s32 (ts - int (n * ?f) - int ?f) = ts - int (Suc n * ?f)"
      unfolding e using ts by (intro s32_id) linarith+
    then show "\<exists>z x'. zone_back (fst (p, w)) n = Inr z \<and> Zone_full (wd_c (snd (p, w))) z = Inr False
       \<and> ?body z n x = Inr x' \<and> ?P (Suc n) x'"
      using z(1) nf fs x by (simp add: replicate_append_same)
  qed simp
  then show ?thesis by (simp add: free_sizes_def)
qed

lemma more_zones_none: "ts \<le> 0 \<Longrightarrow> more_zones n izg ts ws pw = Inr (izg, ws, pw)"
  by (cases n) (simp_all add: more_zones_def)

definition back_interval :: "'d ctrl \<Rightarrow> nat list \<Rightarrow> nat \<Rightarrow> nat \<Rightarrow> Interval" where
  "back_interval c zs sid n = (let z = zs ! (length zs - 1 - n) in new_Interval z sid (wps c z) (wps c z))"

lemma new_intervals_level:
  assumes sync: "dev_sync hwp zsz nz (wd_c w)" and len: "pt_izg_cnt p \<le> length (zone_nos p)"
    and nz: "\<forall>z \<in> set (last_zones p). z < nz" and lv: "equal_fill (wd_c w) zsz (last_zones p) d" and d: "d < zsz"
  shows "\<exists>zv. new_intervals (pt_izg_cnt p) sid (p, w) =
       Inr ([length (wd_iv w)..<length (wd_iv w) + pt_izg_cnt p], p\<lparr>pt_zone_vector := zv\<rparr>,
            w\<lparr>wd_iv := wd_iv w @ map (back_interval (wd_c w) (zone_nos p) sid) [0..<pt_izg_cnt p]\<rparr>)
     \<and> map zn_number zv = zone_nos p"
proof -
  let ?izg = "pt_izg_cnt p" and ?L = "length (wd_iv w)" and ?bi = "back_interval (wd_c w) (zone_nos p) sid"
  let ?body = "\<lambda>z n (l, p, w). ebind (Zone_get_wp (wd_c w) z) (\<lambda>wp.
         let q = length (wd_iv w) in
         Inr (l @ [q],
              p\<lparr>pt_zone_vector := (pt_zone_vector p)[length (pt_zone_vector p) - 1 - n := Zone_insert_interval z q]\<rparr>,
              w\<lparr>wd_iv := wd_iv w @ [new_Interval (zn_number z) sid wp wp]\<rparr>))"
  let ?P = "\<lambda>n (x::nat list \<times> 'a pw). \<exists>zv. x = ([?L..<?L + n], p\<lparr>pt_zone_vector := zv\<rparr>,
       w\<lparr>wd_iv := wd_iv w @ map ?bi [0..<n]\<rparr>) \<and> map zn_number zv = zone_nos p"
  have "\<exists>t. back_pass ?izg ?body snd ([], p, w) = Inr t \<and> ?P ?izg t"
  proof (rule back_pass_rule [of ?P])
    show "?P 0 ([], p, w)" by (intro exI [of _ "pt_zone_vector p"]) (simp add: zone_nos_def)
    fix n x assume n: "n < ?izg" and "?P n x"
    then obtain zv where x: "x = ([?L..<?L + n], p\<lparr>pt_zone_vector := zv\<rparr>, w\<lparr>wd_iv := wd_iv w @ map ?bi [0..<n]\<rparr>)"
      and zv: "map zn_number zv = zone_nos p" by blast
    let ?p = "p\<lparr>pt_zone_vector := zv\<rparr>"
    let ?i = "length zv - 1 - n"
    have zn: "zone_nos ?p = zone_nos p" "last_zones ?p = last_zones p" using zv by (simp_all add: zone_nos_def last_zones_def)
    have lz: "length zv = length (zone_nos p)" using zv by (metis length_map)
    have i: "?i < length zv" using n len lz by simp
    have z: "zone_back ?p n = Inr (zv ! ?i)" "zn_number (zv ! ?i) < nz"
      "wps (wd_c w) (zn_number (zv ! ?i)) = zn_number (zv ! ?i) * zsz + d"
      using zone_back_last [of n ?p] n len nz lv unfolding zn by (simp_all add: equal_fill_def)
    have num: "zn_number (zv ! ?i) = zone_nos p ! ?i" using i zv by (metis nth_map)
    have nf: "Zone_full (wd_c w) (zv ! ?i) = Inr False"
      using zns_full_zone_ok [OF sync z(2)] z(3) d by (simp add: Zone_full_def)
    have "map zn_number (zv[?i := Zone_insert_interval (zv ! ?i) q]) = zone_nos p" for q
      using zv i by (simp add: map_update Zone_insert_interval_def) (metis list_update_id nth_map)
    then show "\<exists>z x'. zone_back (fst (snd x)) n = Inr z \<and> Zone_full (wd_c (snd (snd x))) z = Inr False
       \<and> ?body z n x = Inr x' \<and> ?P (Suc n) x'"
      using z(1) nf num lz zns_get_wp_ok [OF sync z(2)]
      by (simp add: x Zone_get_wp_def Let_def back_interval_def) blast
  qed
  then show ?thesis by (auto simp: new_intervals_def)
qed

section \<open>What a write keeps\<close>

text \<open>
  Later operations add intervals and write at the write pointers; what an interval says of
  its place on the device, and the data below the write pointers, stay.
\<close>

definition same_place :: "Interval \<Rightarrow> Interval \<Rightarrow> bool" where
  "same_place t t' \<longleftrightarrow> iv_zone_number t = iv_zone_number t' \<and> iv_start t = iv_start t' \<and> iv_end t = iv_end t'"

definition kept ::
  "('d \<Rightarrow> nat \<Rightarrow> byte) \<Rightarrow> nat \<Rightarrow> nat \<Rightarrow> 'd world \<Rightarrow> 'd world \<Rightarrow> bool" where
  "kept media zsz nz w w' \<longleftrightarrow>
     length (wd_iv w) \<le> length (wd_iv w') \<and> (\<forall>q < length (wd_iv w). same_place (wd_iv w' ! q) (wd_iv w ! q))
     \<and> (\<forall>z < nz. wps (wd_c w) z \<le> wps (wd_c w') z
          \<and> (\<forall>a. z * zsz * BLOCK_SIZE \<le> a \<and> a < wps (wd_c w) z * BLOCK_SIZE \<longrightarrow>
               media (c_dev (wd_c w')) a = media (c_dev (wd_c w)) a))"

definition placed :: "nat \<Rightarrow> nat \<Rightarrow> 'd world \<Rightarrow> Segment list \<Rightarrow> bool" where
  "placed zsz nz w segs \<longleftrightarrow>
     (\<forall>s \<in> set segs. \<forall>q \<in> set (sg_interval_vector s). q < length (wd_iv w)
        \<and> iv_zone_number (wd_iv w ! q) < nz
        \<and> iv_zone_number (wd_iv w ! q) * zsz \<le> iv_start (wd_iv w ! q)
        \<and> iv_end (wd_iv w ! q) \<le> wps (wd_c w) (iv_zone_number (wd_iv w ! q)))"

lemma kept_refl [simp]: "kept media zsz nz w w"
  by (simp add: kept_def same_place_def)

lemma keptD:
  assumes "kept media zsz nz w w'"
  shows "length (wd_iv w) \<le> length (wd_iv w')" "q < length (wd_iv w) \<Longrightarrow> same_place (wd_iv w' ! q) (wd_iv w ! q)"
    "z < nz \<Longrightarrow> wps (wd_c w) z \<le> wps (wd_c w') z"
    "z < nz \<Longrightarrow> z * zsz * BLOCK_SIZE \<le> a \<Longrightarrow> a < wps (wd_c w) z * BLOCK_SIZE \<Longrightarrow>
       media (c_dev (wd_c w')) a = media (c_dev (wd_c w)) a"
  using assms by (simp_all add: kept_def)

lemma kept_trans:
  assumes k: "kept media zsz nz w w'" "kept media zsz nz w' w''"
  shows "kept media zsz nz w w''"
  unfolding kept_def
proof (intro conjI allI impI)
  show "length (wd_iv w) \<le> length (wd_iv w'')" using keptD(1) [OF k(1)] keptD(1) [OF k(2)] by linarith
  show "same_place (wd_iv w'' ! q) (wd_iv w ! q)" if "q < length (wd_iv w)" for q
    using keptD(1) [OF k(1)] keptD(2) [OF k(1) that] keptD(2) [OF k(2), of q] that by (simp add: same_place_def)
  fix z assume z: "z < nz"
  show "wps (wd_c w) z \<le> wps (wd_c w'') z" using keptD(3) [OF k(1) z] keptD(3) [OF k(2) z] by linarith
  fix a assume a: "z * zsz * BLOCK_SIZE \<le> a \<and> a < wps (wd_c w) z * BLOCK_SIZE"
  have "wps (wd_c w) z * BLOCK_SIZE \<le> wps (wd_c w') z * BLOCK_SIZE"
    using keptD(3) [OF k(1) z] by (rule mult_le_mono1)
  then have "a < wps (wd_c w') z * BLOCK_SIZE" using a by linarith
  then show "media (c_dev (wd_c w'')) a = media (c_dev (wd_c w)) a"
    using keptD(4) [OF k(1) z, of a] keptD(4) [OF k(2) z, of a] a by simp
qed

lemma placed_kept:
  assumes "placed zsz nz w segs" "kept media zsz nz w w'"
  shows "placed zsz nz w' segs"
  unfolding placed_def
proof (intro ballI)
  fix s q assume "s \<in> set segs" "q \<in> set (sg_interval_vector s)"
  then have p: "q < length (wd_iv w)" "iv_zone_number (wd_iv w ! q) < nz"
    "iv_zone_number (wd_iv w ! q) * zsz \<le> iv_start (wd_iv w ! q)"
    "iv_end (wd_iv w ! q) \<le> wps (wd_c w) (iv_zone_number (wd_iv w ! q))"
    using assms(1) unfolding placed_def by blast+
  then show "q < length (wd_iv w') \<and> iv_zone_number (wd_iv w' ! q) < nz
      \<and> iv_zone_number (wd_iv w' ! q) * zsz \<le> iv_start (wd_iv w' ! q)
      \<and> iv_end (wd_iv w' ! q) \<le> wps (wd_c w') (iv_zone_number (wd_iv w' ! q))"
    using keptD(1) [OF assms(2)] keptD(2) [OF assms(2) p(1)] keptD(3) [OF assms(2) p(2)]
    by (simp add: same_place_def)
qed

text \<open>Data in intervals below the write pointers survives.\<close>

lemma striped_kept:
  assumes st: "striped (media (c_dev (wd_c w))) lim (wd_iv w) (sg_interval_vector s) izg n data"
    and pl: "placed zsz nz w [s]" and kp: "kept media zsz nz w w'"
  shows "striped (media (c_dev (wd_c w'))) lim (wd_iv w') (sg_interval_vector s) izg n data"
  unfolding striped_def
proof (intro conjI allI impI)
  note sd = stripedD [OF st]
  let ?il = "sg_interval_vector s"
  show "0 < izg" "0 < n" "length ?il = izg" "length data = n * izg * IO_SIZE"
    "n * izg * IO_SIZE < 2 ^ 32" "lim < 2 ^ 32" using sd by simp_all
  fix k assume k: "k < izg"
  then have q: "?il ! k \<in> set ?il" using sd(3) by simp
  let ?t = "wd_iv w ! (?il ! k)"
  have p: "?il ! k < length (wd_iv w)" "iv_zone_number ?t < nz" "iv_zone_number ?t * zsz \<le> iv_start ?t"
    "iv_end ?t \<le> wps (wd_c w) (iv_zone_number ?t)" using pl q by (simp_all add: placed_def)
  have t: "iv_start (wd_iv w' ! (?il ! k)) = iv_start ?t" "iv_end (wd_iv w' ! (?il ! k)) = iv_end ?t"
    using keptD(2) [OF kp p(1)] by (simp_all add: same_place_def)
  show "?il ! k < length (wd_iv w')" using kp p(1) by (simp add: kept_def)
  show "iv_end (wd_iv w' ! (?il ! k)) = iv_start (wd_iv w' ! (?il ! k)) + n * IO_BLOCKS"
    "iv_end (wd_iv w' ! (?il ! k)) \<le> lim" using sd(8,9) [OF k] t by simp_all
  fix r assume r: "r < n"
  let ?a = "(iv_start ?t + r * IO_BLOCKS) * BLOCK_SIZE"
  have "Suc r * IO_BLOCKS \<le> n * IO_BLOCKS" using r by (intro mult_le_mono1) simp
  then have "iv_start ?t + Suc r * IO_BLOCKS \<le> wps (wd_c w) (iv_zone_number ?t)" using sd(8) [OF k] p(4) by linarith
  then have "(iv_start ?t + Suc r * IO_BLOCKS) * BLOCK_SIZE \<le> wps (wd_c w) (iv_zone_number ?t) * BLOCK_SIZE"
    by (rule mult_le_mono1)
  moreover have "?a + IO_SIZE = (iv_start ?t + Suc r * IO_BLOCKS) * BLOCK_SIZE"
    by (simp add: IO_SIZE_blocks algebra_simps)
  ultimately have hi: "?a + IO_SIZE \<le> wps (wd_c w) (iv_zone_number ?t) * BLOCK_SIZE" by (simp only:)
  have lo: "iv_zone_number ?t * zsz * BLOCK_SIZE \<le> ?a" using p(3) by (intro mult_le_mono1) simp
  have "range_of (media (c_dev (wd_c w'))) ?a IO_SIZE = range_of (media (c_dev (wd_c w))) ?a IO_SIZE"
    unfolding range_of_def
  proof (rule map_cong [OF refl])
    fix a assume "a \<in> set [?a..<?a + IO_SIZE]"
    then have "iv_zone_number ?t * zsz * BLOCK_SIZE \<le> a" "a < wps (wd_c w) (iv_zone_number ?t) * BLOCK_SIZE"
      using lo hi unfolding set_upt atLeastLessThan_iff by linarith+
    then show "media (c_dev (wd_c w')) a = media (c_dev (wd_c w)) a"
      using kp p(2) unfolding kept_def by blast
  qed
  then show "range_of (media (c_dev (wd_c w'))) ((iv_start (wd_iv w' ! (?il ! k)) + r * IO_BLOCKS) * BLOCK_SIZE) IO_SIZE
      = chunk IO_SIZE data (r * izg + k)"
    using sd(10) [OF k r] t by simp
qed

lemma stored_kept:
  assumes st: "stored (media (c_dev (wd_c w))) lim (wd_iv w) izg xs segs"
    and pl: "placed zsz nz w segs" and kp: "kept media zsz nz w w'"
  shows "stored (media (c_dev (wd_c w'))) lim (wd_iv w') izg xs segs"
proof -
  note sd = storedD [OF st]
  have "striped (media (c_dev (wd_c w'))) lim (wd_iv w') (sg_interval_vector (segs ! i)) izg 1 (xs ! i)"
    if i: "i < length xs" for i
  proof (rule striped_kept [OF sd(5) [OF i] _ kp])
    have "segs ! i \<in> set segs" using i sd(1) by simp
    then show "placed zsz nz w [segs ! i]" using pl by (simp add: placed_def)
  qed
  then show ?thesis using sd unfolding stored_def by simp
qed

section \<open>Writing one stripe\<close>

text \<open>The world between two writes: host and device agree, \<open>k\<close> zones are taken, the others are empty.\<close>

definition world_ok ::
  "'d nvme_ops \<Rightarrow> ('d \<Rightarrow> nat \<Rightarrow> byte) \<Rightarrow> ('d \<Rightarrow> nat \<Rightarrow> nat) \<Rightarrow> nat \<Rightarrow> nat \<Rightarrow> nat \<Rightarrow> 'd world \<Rightarrow> bool" where
  "world_ok ops media hwp zsz nz k w \<longleftrightarrow>
     nvme_ok ops media hwp zsz nz \<and> dev_sync hwp zsz nz (wd_c w) \<and> pool_rep nz k (wd_pool w)
     \<and> fresh (wd_c w) zsz nz k \<and> IO_BLOCKS dvd zsz"

text \<open>The write as the setting of the striping theorem.\<close>

definition stripe_of ::
  "'d nvme_ops \<Rightarrow> ('d \<Rightarrow> nat \<Rightarrow> byte) \<Rightarrow> ('d \<Rightarrow> nat \<Rightarrow> nat) \<Rightarrow> nat \<Rightarrow> nat \<Rightarrow> byte list \<Rightarrow> nat \<Rightarrow> nat list \<Rightarrow> nat
    \<Rightarrow> 'd world \<Rightarrow> 'd stripe" where
  "stripe_of ops media hwp zsz nz data izg zs sid w =
     \<lparr>sp_ops = ops, sp_media = media, sp_hwp = hwp, sp_zsz = zsz, sp_nz = nz, sp_buf = data, sp_izg = izg,
      sp_n = 1, sp_il = rev [length (wd_iv w)..<length (wd_iv w) + izg], sp_c0 = wd_c w,
      sp_iv0 = wd_iv w @ map (back_interval (wd_c w) zs sid) [0..<izg]\<rparr>"

lemma stripe_of_sel [simp]:
  fixes ops media hwp zsz nz data izg zs sid w
  defines "S \<equiv> stripe_of ops media hwp zsz nz data izg zs sid w"
  shows "sp_ops S = ops" "sp_media S = media" "sp_hwp S = hwp" "sp_zsz S = zsz" "sp_nz S = nz" "sp_buf S = data"
    "sp_izg S = izg" "sp_n S = 1" "sp_il S = rev [length (wd_iv w)..<length (wd_iv w) + izg]" "sp_c0 S = wd_c w"
    "sp_iv0 S = wd_iv w @ map (back_interval (wd_c w) zs sid) [0..<izg]"
  by (simp_all add: S_def stripe_of_def)

lemma stripe_of_il:
  assumes "j < izg"
  shows "rev [L..<L + izg] ! j = L + (izg - 1 - j)"
  using assms by (simp add: rev_nth)

lemma stripe_of_zone:
  assumes "j < izg" "izg \<le> length zs"
  shows "sp_zone (stripe_of ops media hwp zsz nz data izg zs sid w) j = drop (length zs - izg) zs ! j"
    "iv_start (sp_iv0 (stripe_of ops media hwp zsz nz data izg zs sid w) !
       (sp_il (stripe_of ops media hwp zsz nz data izg zs sid w) ! j))
     = sp_base (stripe_of ops media hwp zsz nz data izg zs sid w) j"
proof -
  have "length zs - 1 - (izg - 1 - j) = length zs - izg + j" using assms by simp
  moreover have "drop (length zs - izg) zs ! j = zs ! (length zs - izg + j)" using assms by (intro nth_drop) simp
  ultimately have e: "(wd_iv w @ map (back_interval (wd_c w) zs sid) [0..<izg]) ! (length (wd_iv w) + (izg - 1 - j))
      = (let z = drop (length zs - izg) zs ! j in new_Interval z sid (wps (wd_c w) z) (wps (wd_c w) z))"
    using assms by (simp add: nth_append back_interval_def)
  show z: "sp_zone (stripe_of ops media hwp zsz nz data izg zs sid w) j = drop (length zs - izg) zs ! j"
    using e by (simp add: sp_zone_def stripe_of_il [OF assms(1)] Let_def new_Interval_def)
  show "iv_start (sp_iv0 (stripe_of ops media hwp zsz nz data izg zs sid w) !
       (sp_il (stripe_of ops media hwp zsz nz data izg zs sid w) ! j))
     = sp_base (stripe_of ops media hwp zsz nz data izg zs sid w) j"
    using e z by (simp add: sp_base_def stripe_of_il [OF assms(1)] Let_def new_Interval_def)
qed

lemma stripe_of_ok:
  assumes ok: "nvme_ok ops media hwp zsz nz" "dev_sync hwp zsz nz (wd_c w)"
    and izg: "0 < izg" "izg \<le> 512" "izg \<le> length zs" and zs: "distinct zs" "\<forall>z \<in> set zs. z < nz"
    and lv: "equal_fill (wd_c w) zsz (drop (length zs - izg) zs) d" "d + IO_BLOCKS \<le> zsz"
    and data: "length data = izg * IO_SIZE"
  shows "stripe_ok (stripe_of ops media hwp zsz nz data izg zs sid w)"
proof -
  let ?S = "stripe_of ops media hwp zsz nz data izg zs sid w"
  let ?ls = "drop (length zs - izg) zs"
  have len: "length ?ls = izg" using izg by simp
  have zn: "sp_zone ?S j = ?ls ! j" if "j < izg" for j using stripe_of_zone(1) [OF that izg(3)] .
  have mem: "?ls ! j \<in> set ?ls" if "j < izg" for j using that len by (intro nth_mem) (simp only:)
  have "izg * IO_SIZE \<le> 512 * IO_SIZE" using izg(2) by (rule mult_le_mono1)
  then have b: "izg * IO_SIZE < 2 ^ 32" by (simp add: IO_SIZE_def)
  have "sp_zone ?S j < nz \<and> sp_base ?S j + IO_BLOCKS \<le> (sp_zone ?S j + 1) * zsz" if j: "j < izg" for j
  proof -
    have "?ls ! j < nz" using mem [OF j] zs(2) by (auto dest: in_set_dropD)
    moreover have "wps (wd_c w) (?ls ! j) = ?ls ! j * zsz + d" using mem [OF j] lv(1) by (simp add: equal_fill_def)
    ultimately show ?thesis using lv(2) by (simp add: sp_base_def zn [OF j])
  qed
  moreover have "sp_zone ?S j \<noteq> sp_zone ?S l" if "j < izg" "l < izg" "j \<noteq> l" for j l
    using that zn zs(1) len by (simp add: nth_eq_iff_index_eq distinct_drop)
  moreover have "rev [length (wd_iv w)..<length (wd_iv w) + izg] ! j < length (wd_iv w) + izg" if "j < izg" for j
    using that by (simp add: stripe_of_il)
  ultimately show ?thesis
    using ok izg data b by (simp add: stripe_ok_def)
qed

text \<open>The write pointers after a stripe has been written.\<close>

lemma stripe_of_wps:
  fixes zs izg
  defines "ls \<equiv> drop (length zs - izg) zs"
  assumes inv: "stripe_inv (stripe_of ops media hwp zsz nz data izg zs sid w) (\<lambda>_. 1) c iv ws" and izg: "izg \<le> length zs"
  shows "\<And>j. j < izg \<Longrightarrow> sp_zone (stripe_of ops media hwp zsz nz data izg zs sid w) j = ls ! j"
    and "\<And>j. j < izg \<Longrightarrow> sp_base (stripe_of ops media hwp zsz nz data izg zs sid w) j = wps (wd_c w) (ls ! j)"
    and "\<And>j. j < izg \<Longrightarrow> wps c (ls ! j) = wps (wd_c w) (ls ! j) + IO_BLOCKS"
    and "\<And>z. z \<notin> set ls \<Longrightarrow> wps c z = wps (wd_c w) z" and "\<And>z. wps (wd_c w) z \<le> wps c z" and "length ls = izg"
proof -
  let ?S = "stripe_of ops media hwp zsz nz data izg zs sid w"
  show zn: "sp_zone ?S j = ls ! j" if "j < izg" for j using stripe_of_zone(1) [OF that izg] by (simp add: ls_def)
  show len: "length ls = izg" using izg by (simp add: ls_def)
  show base: "sp_base ?S j = wps (wd_c w) (ls ! j)" if "j < izg" for j by (simp add: sp_base_def zn [OF that])
  have D: "zone_done ?S j 1 c iv ws" if "j < izg" for j using inv that by (simp add: stripe_inv_def)
  show wpc: "wps c (ls ! j) = wps (wd_c w) (ls ! j) + IO_BLOCKS" if "j < izg" for j
    using D [OF that] base [OF that] zn [OF that] by (simp add: zone_done_def)
  show out: "wps c z = wps (wd_c w) z" if "z \<notin> set ls" for z
  proof -
    have "\<forall>j < izg. z \<noteq> sp_zone ?S j" using that zn len by (metis nth_mem)
    then show ?thesis using inv by (simp add: stripe_inv_def)
  qed
  show "wps (wd_c w) z \<le> wps c z" for z
  proof (cases "z \<in> set ls")
    case True
    then show ?thesis using wpc len by (auto simp: in_set_conv_nth)
  qed (simp add: out)
qed

text \<open>What was below the write pointers stays on the media.\<close>

lemma stripe_of_media:
  fixes zs izg
  defines "ls \<equiv> drop (length zs - izg) zs"
  assumes S: "stripe_ok (stripe_of ops media hwp zsz nz data izg zs sid w)"
    and inv: "stripe_inv (stripe_of ops media hwp zsz nz data izg zs sid w) (\<lambda>_. 1) c iv ws" and izg: "izg \<le> length zs"
    and z: "z < nz" "z * zsz * BLOCK_SIZE \<le> a" "a < wps (wd_c w) z * BLOCK_SIZE"
  shows "media (c_dev c) a = media (c_dev (wd_c w)) a"
proof -
  let ?S = "stripe_of ops media hwp zsz nz data izg zs sid w"
  note W = stripe_of_wps [OF inv izg, folded ls_def]
  have sync: "dev_sync hwp zsz nz (wd_c w)" using stripe_okD(2) [OF S] by simp
  have "\<not> in_region ?S j a" if j: "j < izg" for j
  proof (cases "z = ls ! j")
    case True
    then show ?thesis using z(3) by (simp add: in_region_def W(2) [OF j])
  next
    case False
    note dz = dev_syncD [OF sync z(1)]
    have zl: "ls ! j < nz" using stripe_okD(9) [OF S, of j] j W(1) [OF j] by simp
    note dl = dev_syncD [OF sync zl]
    have hi: "wps (wd_c w) (ls ! j) + IO_BLOCKS \<le> (ls ! j + 1) * zsz"
      using stripe_okD(10) [OF S, of j] j W(2) [OF j] W(1) [OF j] by simp
    from False consider "z + 1 \<le> ls ! j" | "ls ! j + 1 \<le> z" by linarith
    then show ?thesis
    proof cases
      case 1
      then have "(z + 1) * zsz \<le> ls ! j * zsz" by (rule mult_le_mono1)
      then have "wps (wd_c w) z \<le> wps (wd_c w) (ls ! j)" using dz(5) dl(4) by linarith
      then have "wps (wd_c w) z * BLOCK_SIZE \<le> wps (wd_c w) (ls ! j) * BLOCK_SIZE" by (rule mult_le_mono1)
      then show ?thesis using z(3) unfolding in_region_def W(2) [OF j] by linarith
    next
      case 2
      then have "(ls ! j + 1) * zsz \<le> z * zsz" by (rule mult_le_mono1)
      then have "wps (wd_c w) (ls ! j) + IO_BLOCKS \<le> z * zsz" using hi by linarith
      then have "(wps (wd_c w) (ls ! j) + IO_BLOCKS) * BLOCK_SIZE \<le> z * zsz * BLOCK_SIZE" by (rule mult_le_mono1)
      then show ?thesis using z(2) unfolding in_region_def W(2) [OF j] stripe_of_sel mult_1 by linarith
    qed
  qed
  then show ?thesis using inv by (simp add: stripe_inv_def)
qed

text \<open>What the striped write does to the world, in terms of the zones it uses.\<close>

lemma stripe_of_result:
  fixes zs izg
  defines "ls \<equiv> drop (length zs - izg) zs"
  assumes S: "stripe_ok (stripe_of ops media hwp zsz nz data izg zs sid w)"
    and inv: "stripe_inv (stripe_of ops media hwp zsz nz data izg zs sid w) (\<lambda>_. 1) c iv ws"
    and izg: "izg \<le> length zs" and w': "wd_c w' = c" "wd_iv w' = iv"
    and lv: "equal_fill (wd_c w) zsz ls d"
    and il: "sg_interval_vector s = rev [length (wd_iv w)..<length (wd_iv w) + izg]"
  shows "kept media zsz nz w w'" "equal_fill c zsz ls (d + IO_BLOCKS)" "\<And>z. z \<notin> set ls \<Longrightarrow> wps c z = wps (wd_c w) z"
    "striped (media (c_dev c)) (nz * zsz) iv (sg_interval_vector s) izg 1 data" "placed zsz nz w' [s]"
proof -
  let ?S = "stripe_of ops media hwp zsz nz data izg zs sid w"
  let ?il = "rev [length (wd_iv w)..<length (wd_iv w) + izg]"
  note W = stripe_of_wps [OF inv izg, folded ls_def]
  have sync: "dev_sync hwp zsz nz (wd_c w)" using stripe_okD(2) [OF S] by simp
  have D: "zone_done ?S j 1 c iv ws" if "j < izg" for j using inv that by (simp add: stripe_inv_def)
  show "wps c z = wps (wd_c w) z" if "z \<notin> set ls" for z by (rule W(4) [OF that])
  show "equal_fill c zsz ls (d + IO_BLOCKS)"
    using W(3,6) lv unfolding equal_fill_def by (metis (no_types, lifting) add.assoc in_set_conv_nth)
  show "striped (media (c_dev c)) (nz * zsz) iv (sg_interval_vector s) izg 1 data"
  proof -
    have "stripe_inv ?S (\<lambda>_. sp_n ?S) c iv ws" using inv by simp
    from stripe_inv_striped [OF S this] stripe_of_zone(2) [OF _ izg, of _ ops media hwp zsz nz data sid w]
    show ?thesis by (simp add: il)
  qed
  have ivl: "length iv = length (wd_iv w) + izg" using inv by (simp add: stripe_inv_def)
  have iv_old: "iv ! q = wd_iv w ! q" if "q < length (wd_iv w)" for q
    using inv that by (auto simp: stripe_inv_def nth_append)
  show "kept media zsz nz w w'"
    unfolding kept_def using ivl iv_old W(5) stripe_of_media [OF S inv izg] by (simp add: w' same_place_def)
  show "placed zsz nz w' [s]"
    unfolding placed_def
  proof (intro ballI)
    fix t q assume "t \<in> set [s]" "q \<in> set (sg_interval_vector t)"
    then have "q \<in> set ?il" using il by simp
    then obtain j where j: "j < izg" "q = ?il ! j" by (metis in_set_conv_nth length_rev length_upt add_diff_cancel_left')
    have q: "iv ! q = (sp_iv0 ?S ! q)\<lparr>iv_end := wps (wd_c w) (ls ! j) + IO_BLOCKS\<rparr>" "q < length iv"
      using D [OF j(1)] j(2) W(2) [OF j(1)] stripe_of_il [OF j(1), of "length (wd_iv w)"] ivl j(1)
      by (simp_all add: zone_done_def)
    have "iv_zone_number (iv ! q) = ls ! j" using q W(1) [OF j(1)] j(2) by (simp add: sp_zone_def)
    moreover have "iv_start (iv ! q) = wps (wd_c w) (ls ! j)"
      using q stripe_of_zone(2) [OF j(1) izg, of ops media hwp zsz nz data sid w] W(2) [OF j(1)] j(2) by simp
    moreover have "ls ! j < nz" using stripe_okD(9) [OF S, of j] j(1) W(1) [OF j(1)] by simp
    moreover note dev_syncD(4) [OF sync calculation(3)]
    ultimately show "q < length (wd_iv w') \<and> iv_zone_number (wd_iv w' ! q) < nz
      \<and> iv_zone_number (wd_iv w' ! q) * zsz \<le> iv_start (wd_iv w' ! q)
      \<and> iv_end (wd_iv w' ! q) \<le> wps (wd_c w') (iv_zone_number (wd_iv w' ! q))"
      using q W(3) [OF j(1)] by (simp add: w')
  qed
qed

lemma write_one_segment:
  assumes W: "world_ok ops media hwp zsz nz k w" and P: "part_ok (wd_c w) zsz k p"
    and izg: "pt_izg_cnt p \<le> 512" "pt_izg_cnt p * zsz < 2147483648" "k + pt_izg_cnt p \<le> nz"
    and data: "length data = pt_izg_cnt p * IO_SIZE" and past: "\<exists>x \<in> set past. x \<noteq> 1"
  shows "\<exists>il zv w' k'. Userdata__write ops past s data (pt_izg_cnt p * IO_BLOCKS) (p, w) =
       Inr (0, set_interval_list il s, p\<lparr>pt_zone_vector := zv\<rparr>, w')
     \<and> world_ok ops media hwp zsz nz k' w' \<and> k \<le> k' \<and> map zn_number zv = zone_nos p @ [k..<k']
     \<and> part_ok (wd_c w') zsz k' (p\<lparr>pt_zone_vector := zv\<rparr>)
     \<and> (\<forall>z. z \<notin> set (zone_nos p @ [k..<k']) \<longrightarrow> wps (wd_c w') z = wps (wd_c w) z)
     \<and> kept media zsz nz w w' \<and> placed zsz nz w' [set_interval_list il s]
     \<and> striped (media (c_dev (wd_c w'))) (nz * zsz) (wd_iv w') il (pt_izg_cnt p) 1 data
     \<and> k' \<le> k + pt_izg_cnt p"
proof -
  let ?izg = "pt_izg_cnt p"
  have w: "nvme_ok ops media hwp zsz nz" "dev_sync hwp zsz nz (wd_c w)" "pool_rep nz k (wd_pool w)"
    "fresh (wd_c w) zsz nz k" "IO_BLOCKS dvd zsz" using W by (simp_all add: world_ok_def)
  have izg0: "0 < ?izg" using P by (simp add: part_ok_def)
  from prepare_zones_ok [OF w(2,3) P w(4,5) izg(3)] obtain pool' k' d where
    prep: "prepare_zones ?izg (p, w) =
       Inr (p\<lparr>pt_zone_vector := pt_zone_vector p @ map new_Zone [k..<k']\<rparr>, w\<lparr>wd_pool := pool'\<rparr>)"
    and pool': "pool_rep nz k' pool'" "k \<le> k'" "k' \<le> nz" "k' \<le> k + ?izg"
    and zs0: "?izg \<le> length (zone_nos p @ [k..<k'])" "distinct (zone_nos p @ [k..<k'])"
      "\<forall>z \<in> set (zone_nos p @ [k..<k']). z < k'"
    and d: "d + IO_BLOCKS \<le> zsz" "IO_BLOCKS dvd d"
    and lv0: "equal_fill (wd_c w) zsz (drop (length (zone_nos p @ [k..<k']) - ?izg) (zone_nos p @ [k..<k'])) d" by blast
  define zs where "zs = zone_nos p @ [k..<k']"
  define ls where "ls = drop (length zs - ?izg) zs"
  define p1 where "p1 = p\<lparr>pt_zone_vector := pt_zone_vector p @ map new_Zone [k..<k']\<rparr>"
  define w1 where "w1 = w\<lparr>wd_pool := pool'\<rparr>"
  note zs = zs0 [folded zs_def] and lv = lv0 [folded zs_def, folded ls_def]
  have w1: "wd_c w1 = wd_c w" "wd_iv w1 = wd_iv w" "wd_pool w1 = pool'" by (simp_all add: w1_def)
  have p1: "zone_nos p1 = zs" "pt_izg_cnt p1 = ?izg" "last_zones p1 = ls"
    by (simp_all add: p1_def zone_nos_alloc zs_def ls_def last_zones_def)
  have sub: "z \<in> set ls \<Longrightarrow> z \<in> set zs" for z unfolding ls_def by (rule in_set_dropD)
  have lsnz: "\<forall>z \<in> set ls. z < nz" using sub zs(3) pool'(3) by (metis order_less_le_trans)
  have d1: "d < zsz" using d(1) io_pos(2) by linarith
  have "?izg * IO_BLOCKS \<le> 512 * IO_BLOCKS" using izg(1) by (rule mult_le_mono1)
  then have b: "int (?izg * IO_BLOCKS) < 2147483648" by (simp add: IO_BLOCKS_def)
  have s32: "s32 (int (?izg * IO_BLOCKS)) = int (?izg * IO_BLOCKS)" using b by (intro s32_id) linarith+
  have free: "free_sizes ?izg (int (?izg * IO_BLOCKS)) (p1, w1) =
      Inr (int (?izg * IO_BLOCKS) - int (?izg * (zsz - d)), replicate ?izg (zsz - d))"
    using free_sizes_level [of hwp zsz nz w1 p1 d "int (?izg * IO_BLOCKS)"] w(2) zs(1) lsnz lv d1 b izg(2)
    unfolding p1 w1 by linarith
  have "?izg * IO_BLOCKS \<le> ?izg * (zsz - d)" using d(1) by (intro mult_le_mono2) linarith
  then have ts: "int (?izg * IO_BLOCKS) - int (?izg * (zsz - d)) \<le> 0" by (simp only: of_nat_le_iff diff_le_0_iff_le)
  define L where "L = length (wd_iv w)"
  obtain zv where ni: "new_intervals ?izg (sg_id s) (p1, w1) = Inr ([L..<L + ?izg], p1\<lparr>pt_zone_vector := zv\<rparr>,
       w1\<lparr>wd_iv := wd_iv w1 @ map (back_interval (wd_c w1) zs (sg_id s)) [0..<?izg]\<rparr>)" "map zn_number zv = zs"
    using new_intervals_level [of hwp zsz nz w1 p1 d "sg_id s"] w(2) zs(1) lsnz lv d1 unfolding p1 w1 L_def by auto
  define il where "il = rev [L..<L + ?izg]"
  define S where "S = stripe_of ops media hwp zsz nz data ?izg zs (sg_id s) w1"
  have S: "stripe_ok S"
    unfolding S_def using w(1,2) izg0 izg(1) zs pool'(3) lv d(1) data unfolding ls_def
    by (intro stripe_of_ok [of _ _ _ _ _ _ _ _ d]) (auto simp: w1)
  from izg_write_stripe [OF S, of past "replicate ?izg (zsz - d)"] past
  obtain c iv ws where run: "izg_write ops past data ?izg ?izg il (replicate ?izg (zsz - d)) (?izg * IO_BLOCKS)
      (wd_c w1, wd_iv w1 @ map (back_interval (wd_c w1) zs (sg_id s)) [0..<?izg]) = Inr (0, c, iv)"
    and inv: "stripe_inv S (\<lambda>_. 1) c iv ws" by (auto simp: S_def il_def L_def w1)
  define w' where "w' = w1\<lparr>wd_c := c, wd_iv := iv\<rparr>"
  have w': "wd_c w' = c" "wd_iv w' = iv" "wd_pool w' = pool'" by (simp_all add: w'_def w1)
  have il: "sg_interval_vector (set_interval_list il s) = rev [length (wd_iv w1)..<length (wd_iv w1) + ?izg]"
    by (simp add: set_interval_list_def il_def L_def w1)
  note res = stripe_of_result [OF S [unfolded S_def] inv [unfolded S_def] zs(1) w'(1,2), of d "set_interval_list il s"]
  have kp: "kept media zsz nz w w'" and lv': "equal_fill c zsz ls (d + IO_BLOCKS)"
    and out: "z \<notin> set ls \<Longrightarrow> wps c z = wps (wd_c w) z"
    and st: "striped (media (c_dev c)) (nz * zsz) iv il ?izg 1 data" and pl: "placed zsz nz w' [set_interval_list il s]" for z
    using res lv il unfolding ls_def by (simp_all add: w1 kept_def set_interval_list_def)
  have "dev_sync hwp zsz nz c" using inv by (simp add: stripe_inv_def S_def)
  moreover have "fresh c zsz nz k'" using w(4) out sub zs(3) pool'(2) unfolding fresh_def by (metis leD le_trans)
  ultimately have W': "world_ok ops media hwp zsz nz k' w'" using w(1,5) pool'(1) by (simp add: world_ok_def w')
  have P': "part_ok (wd_c w') zsz k' (p\<lparr>pt_zone_vector := zv\<rparr>)"
    using izg0 zs ni(2) lv' d w(5) unfolding part_ok_def last_zones_def zone_nos_def ls_def
    by (auto simp: w' intro!: exI [of _ "d + IO_BLOCKS"])
  have "Userdata__write ops past s data (?izg * IO_BLOCKS) (p, w) =
      Inr (0, set_interval_list il s, p\<lparr>pt_zone_vector := zv\<rparr>, w')"
    using prep [folded p1_def w1_def] free more_zones_none [OF ts, of "?izg * IO_BLOCKS" ?izg "replicate ?izg (zsz - d)" "(p1, w1)"] ni(1) run s32
    by (simp add: Userdata__write_def Let_def il_def [symmetric] w'_def) (simp add: p1_def)
  then show ?thesis using W' P' pool'(2,4) ni(2) kp pl st out sub unfolding zs_def w'
    by (intro exI [of _ il] exI [of _ zv] exI [of _ w'] exI [of _ k']) (simp add: w', blast)
qed

section \<open>Appending a stripe to user data\<close>

text \<open>The user data holds the stripes \<open>xs\<close>.\<close>

definition holds ::
  "('d \<Rightarrow> nat \<Rightarrow> byte) \<Rightarrow> nat \<Rightarrow> nat \<Rightarrow> nat \<Rightarrow> 'd world \<Rightarrow> Userdata \<Rightarrow> byte list list \<Rightarrow> bool" where
  "holds media zsz nz izg w u xs \<longleftrightarrow>
     stored (media (c_dev (wd_c w))) (nz * zsz) (wd_iv w) izg xs (ud_file_segment u)
     \<and> placed zsz nz w (ud_file_segment u) \<and> ud_size u = length xs * (izg * IO_BLOCKS)
     \<and> \<not> ud_write_lock u \<and> ud_remain_write_req u = 0"

lemma holds_kept: "holds media zsz nz izg w u xs \<Longrightarrow> kept media zsz nz w w' \<Longrightarrow> holds media zsz nz izg w' u xs"
  unfolding holds_def using stored_kept placed_kept by blast

lemma holds_new: "nz * zsz < 2 ^ 32 \<Longrightarrow> holds media zsz nz izg w (new_Userdata s0 i) []"
  by (simp add: holds_def stored_def placed_def new_Userdata_def)

lemma insert_segment_last:
  "(\<And>s. s \<in> set segs \<Longrightarrow> sg_offset s \<le> sg_offset seg) \<Longrightarrow> insert_segment segs seg = segs @ [seg]"
  unfolding insert_segment_def by (subst takeWhile_eq_all_conv [THEN iffD2], force)+ force

lemma append_stripe:
  assumes W: "world_ok ops media hwp zsz nz k w" and P: "part_ok (wd_c w) zsz k p"
    and izg: "pt_izg_cnt p \<le> 512" "pt_izg_cnt p * zsz < 2147483648" "k + pt_izg_cnt p \<le> nz"
    and H: "holds media zsz nz (pt_izg_cnt p) w u xs"
    and data: "length data = pt_izg_cnt p * IO_SIZE" "(length xs + 1) * (pt_izg_cnt p * IO_SIZE) < 2 ^ 32"
    and past: "\<exists>x \<in> set past. x \<noteq> 1"
  shows "\<exists>u' zv w' k'. Append ops past data (pt_izg_cnt p * IO_SIZE) (u, p, w) =
       Inr (0, u', p\<lparr>pt_zone_vector := zv\<rparr>, w')
     \<and> holds media zsz nz (pt_izg_cnt p) w' u' (xs @ [data]) \<and> ud_partition u' = ud_partition u
     \<and> world_ok ops media hwp zsz nz k' w' \<and> k \<le> k' \<and> k' \<le> k + pt_izg_cnt p \<and> kept media zsz nz w w'
     \<and> map zn_number zv = zone_nos p @ [k..<k'] \<and> part_ok (wd_c w') zsz k' (p\<lparr>pt_zone_vector := zv\<rparr>)
     \<and> (\<forall>z. z \<notin> set (zone_nos p @ [k..<k']) \<longrightarrow> wps (wd_c w') z = wps (wd_c w) z)"
proof -
  let ?izg = "pt_izg_cnt p" and ?segs = "ud_file_segment u"
  have st: "stored (media (c_dev (wd_c w))) (nz * zsz) (wd_iv w) ?izg xs ?segs" and pl: "placed zsz nz w ?segs"
    and u: "ud_size u = length xs * (?izg * IO_BLOCKS)" "\<not> ud_write_lock u" "ud_remain_write_req u = 0"
    using H by (simp_all add: holds_def)
  note sd = storedD [OF st]
  let ?off = "length xs * (?izg * IO_BLOCKS)"
  let ?seg = "new_Segment (ud_next_segment_id u) ?off (?izg * IO_BLOCKS)"
  have "(length xs + 1) * (?izg * IO_BLOCKS) \<le> (length xs + 1) * (?izg * IO_SIZE)"
    by (intro mult_le_mono2) (simp add: IO_SIZE_def IO_BLOCKS_def)
  then have b: "?off + ?izg * IO_BLOCKS < 4294967296" using data(2) by simp
  have off: "(if ?segs = [] then 0 else get_next_offset (last ?segs)) = ?off"
  proof (cases "?segs = []")
    case False
    then have "0 < length xs" using sd(1) by (metis length_greater_0_conv)
    then have i: "length xs - 1 < length xs" by simp
    have "last ?segs = ?segs ! (length xs - 1)" using False sd(1) by (simp add: last_conv_nth)
    moreover have "(length xs - 1) * (?izg * IO_BLOCKS) + ?izg * IO_BLOCKS = ?off"
      using i by (cases "length xs") simp_all
    ultimately show ?thesis using False sd(3,4) [OF i] b by (simp add: get_next_offset_def u32_simps)
  qed (use sd(1) in simp)
  have ins: "insert_segment ?segs (set_interval_list il ?seg) = ?segs @ [set_interval_list il ?seg]" for il
  proof (rule insert_segment_last)
    fix s assume "s \<in> set ?segs"
    then obtain i where "i < length xs" "s = ?segs ! i" using sd(1) by (metis in_set_conv_nth)
    then show "sg_offset s \<le> sg_offset (set_interval_list il ?seg)"
      using sd(3) by (simp add: set_interval_list_def new_Segment_def)
  qed
  from write_one_segment [OF W P izg data(1) past, of ?seg] obtain il zv w' k' where
    run: "Userdata__write ops past ?seg data (?izg * IO_BLOCKS) (p, w) =
       Inr (0, set_interval_list il ?seg, p\<lparr>pt_zone_vector := zv\<rparr>, w')"
    and r: "world_ok ops media hwp zsz nz k' w'" "k \<le> k'" "map zn_number zv = zone_nos p @ [k..<k']"
      "part_ok (wd_c w') zsz k' (p\<lparr>pt_zone_vector := zv\<rparr>)"
      "\<forall>z. z \<notin> set (zone_nos p @ [k..<k']) \<longrightarrow> wps (wd_c w') z = wps (wd_c w) z"
      "kept media zsz nz w w'" "placed zsz nz w' [set_interval_list il ?seg]"
      "striped (media (c_dev (wd_c w'))) (nz * zsz) (wd_iv w') il ?izg 1 data" "k' \<le> k + ?izg" by blast
  let ?u' = "u\<lparr>ud_write_lock := False, ud_remain_write_req := 0, ud_next_segment_id := u32 (ud_next_segment_id u + 1),
     ud_file_segment := ?segs @ [set_interval_list il ?seg], ud_size := ?off + ?izg * IO_BLOCKS\<rparr>"
  have "Append ops past data (?izg * IO_SIZE) (u, p, w) = Inr (0, ?u', p\<lparr>pt_zone_vector := zv\<rparr>, w')"
    using run b off ins u by (simp add: Append_def Let_def acquire_def release_def blocks_of_stripe u32_simps split del: if_split cong: if_cong)
  moreover have "holds media zsz nz ?izg w' ?u' (xs @ [data])"
  proof -
    have "stored (media (c_dev (wd_c w'))) (nz * zsz) (wd_iv w') ?izg xs ?segs" by (rule stored_kept [OF st pl r(6)])
    then have "stored (media (c_dev (wd_c w'))) (nz * zsz) (wd_iv w') ?izg (xs @ [data]) (?segs @ [set_interval_list il ?seg])"
      using r(8) data(2) unfolding stored_def
      by (auto simp: nth_append less_Suc_eq set_interval_list_def new_Segment_def)
    moreover have "placed zsz nz w' (?segs @ [set_interval_list il ?seg])"
      using placed_kept [OF pl r(6)] r(7) by (simp add: placed_def ball_Un)
    ultimately show ?thesis using u by (simp add: holds_def)
  qed
  ultimately show ?thesis
    using r by (intro exI [of _ ?u'] exI [of _ zv] exI [of _ w'] exI [of _ k']) simp
qed

section \<open>The property\<close>

definition emu_pool :: "nat \<Rightarrow> pool" where
  "emu_pool nz = empty_pool\<lparr>
     pl_izgs := map (\<lambda>i. new_IZG (filter (\<lambda>z. z mod IZG_DISTANCE = i) [0..<nz])) [0..<IZG_DISTANCE],
     pl_inactive := [0..<IZG_DISTANCE]\<rparr>"

definition emu_world :: "nat \<Rightarrow> nat \<Rightarrow> emu world" where
  "emu_world zsz nz = \<lparr>wd_c = emu_ctrl zsz nz, wd_pool = emu_pool nz, wd_iv = []\<rparr>"

lemma emu_world_ok:
  assumes "0 < zsz" "IO_BLOCKS dvd zsz" "(nz + 1) * zsz < 2 ^ 32"
  shows "world_ok (emu_ops zsz nz) fst snd zsz nz 0 (emu_world zsz nz)"
proof -
  have "IO_BLOCKS \<le> zsz" using assms(1,2) by (simp add: dvd_imp_le)
  then have "nz * IO_BLOCKS \<le> (nz + 1) * zsz" by (intro mult_le_mono) simp_all
  then have "nz < 2 ^ 31" using assms(3) by (simp add: IO_BLOCKS_def)
  then have "pool_rep nz 0 (emu_pool nz)" by (simp add: pool_rep_def emu_pool_def new_IZG_def)
  moreover have "fresh (emu_ctrl zsz nz) zsz nz 0" using emu_wps [OF _ assms(3,1)] by (simp add: fresh_def)
  ultimately show ?thesis
    using emu_ok [OF assms(1)] emu_sync [OF assms(1,3)] assms(2) by (simp add: world_ok_def emu_world_def)
qed

lemma new_part_ok: "0 < izg \<Longrightarrow> part_ok c zsz k (new_Partition raw i name izg f)"
  by (simp add: part_ok_def zone_nos_def new_Partition_def)

text \<open>
  C3: appending a stripe to user data that holds the stripes \<open>xs\<close> succeeds, and a
  read of up to one stripe anywhere in the data, old and new, then returns its bytes: the
  append adds the stripe at the end and damages nothing that was there.
\<close>

theorem append_read:
  assumes "world_ok ops media hwp zsz nz k w" and "part_ok (wd_c w) zsz k p"
    and "pt_izg_cnt p \<le> 512" and "pt_izg_cnt p * zsz < 2147483648" and "k + pt_izg_cnt p \<le> nz"
    and "holds media zsz nz (pt_izg_cnt p) w u xs"
    and "length data = pt_izg_cnt p * IO_SIZE" and "(length xs + 1) * (pt_izg_cnt p * IO_SIZE) < 2 ^ 32"
    and "\<exists>x \<in> set past. x \<noteq> 1" and "length (pt_read_buf p) = pt_izg_cnt p * IO_SIZE"
    and "0 < n" and "n \<le> pt_izg_cnt p * IO_SIZE" and "off + n \<le> (length xs + 1) * (pt_izg_cnt p * IO_SIZE)"
    and "buf + pt_izg_cnt p * IO_SIZE \<le> length mem"
  shows "\<exists>u' p' w'. Append ops past data (pt_izg_cnt p * IO_SIZE) (u, p, w) = Inr (0, u', p', w')
     \<and> (\<exists>p'' mem'. Read ops buf off n u' (p', w') mem = Inr (0, p'', mem')
          \<and> take n (drop buf mem') = take n (drop off (concat xs @ data)))"
proof -
  from append_stripe [OF assms(1-9)] obtain u' zv w' k' where
    a: "Append ops past data (pt_izg_cnt p * IO_SIZE) (u, p, w) = Inr (0, u', p\<lparr>pt_zone_vector := zv\<rparr>, w')"
    and h: "holds media zsz nz (pt_izg_cnt p) w' u' (xs @ [data])" and wo: "world_ok ops media hwp zsz nz k' w'" by blast
  let ?p = "p\<lparr>pt_zone_vector := zv\<rparr>"
  have rd: "readable ops media hwp zsz nz (pt_izg_cnt p) w' (xs @ [data]) (ud_file_segment u')"
    and u': "ud_size u' = length (xs @ [data]) * (pt_izg_cnt p * IO_BLOCKS)" "\<not> ud_write_lock u'"
    using h wo assms(3) by (simp_all add: readable_def holds_def world_ok_def)
  have len: "off + n \<le> length (xs @ [data]) * (pt_izg_cnt p * IO_SIZE)" using assms(13) by simp
  from read_stored [OF rd, of ?p, OF _ u' _ assms(11,12) len assms(14)] assms(10)
  obtain rb ys where r: "Read ops buf off n u' (?p, w') mem = Inr (0, ?p\<lparr>pt_read_buf := rb\<rparr>, patch mem buf ys)"
    "length ys \<le> pt_izg_cnt p * IO_SIZE" "n \<le> length ys" "take n ys = take n (drop off (concat (xs @ [data])))" by auto
  have "buf + length ys \<le> length mem" using r(2) assms(14) by linarith
  from a r patch_at [OF this r(3)] show ?thesis by auto
qed

theorem append_read_witness:
  "\<exists>u' p' w'. Append (emu_ops (2 * IO_BLOCKS) 2) [0] (replicate IO_SIZE 5) IO_SIZE
       (new_Userdata 0 0, marked_part, emu_world (2 * IO_BLOCKS) 2) = Inr (0, u', p', w')
   \<and> (\<exists>p'' mem'. Read (emu_ops (2 * IO_BLOCKS) 2) 0 7 3 u' (p', w') (replicate IO_SIZE 9) = Inr (0, p'', mem')
        \<and> take 3 mem' = take 3 (drop 7 (replicate IO_SIZE 5)))"
proof -
  have z: "0 < 2 * IO_BLOCKS" "IO_BLOCKS dvd 2 * IO_BLOCKS" "(2 + 1) * (2 * IO_BLOCKS) < 2 ^ 32"
    by (simp_all add: IO_BLOCKS_def)
  have p: "part_ok (wd_c (emu_world (2 * IO_BLOCKS) 2)) (2 * IO_BLOCKS) 0 marked_part"
    unfolding marked_part_def by (rule new_part_ok) simp
  show ?thesis
    using append_read [OF emu_world_ok [OF z] p, of "new_Userdata 0 0" "[]" "replicate IO_SIZE 5" "[0]" 3 7 0 "replicate IO_SIZE 9"]
      holds_new [of 2 "2 * IO_BLOCKS" fst 1 "emu_world (2 * IO_BLOCKS) 2" 0 0]
    by (simp add: marked_sel) (simp add: IO_SIZE_def IO_BLOCKS_def)
qed

section \<open>Deleting\<close>

text \<open>Deleting marks the intervals of the segments invalid, and only these.\<close>

lemma Interval_invalid_idem: "Interval_invalid (Interval_invalid t) = Interval_invalid t"
  by (simp add: Interval_invalid_def)

lemma invalid_segment_ok:
  assumes "\<forall>q \<in> set (sg_interval_vector s). q < length iv"
  shows "invalid_segment s iv =
     Inr (map (\<lambda>q. if q \<in> set (sg_interval_vector s) then Interval_invalid (iv ! q) else iv ! q) [0..<length iv])"
proof -
  let ?v = "sg_interval_vector s"
  let ?m = "\<lambda>j. map (\<lambda>q. if q \<in> set (take j ?v) then Interval_invalid (iv ! q) else iv ! q) [0..<length iv]"
  let ?f = "\<lambda>i iv. ebind (vec_at ?v i) (\<lambda>q. ebind (vec_at iv q) (\<lambda>t. Inr (iv[q := Interval_invalid t])))"
  have "\<exists>t. efor 0 (length ?v) ?f iv = Inr t \<and> t = ?m (0 + length ?v)"
  proof (rule efor_rule [of "\<lambda>j t. t = ?m j"])
    show "iv = ?m 0" by (simp add: map_nth)
    fix j t assume j: "j < 0 + length ?v" and t: "t = ?m j"
    have q: "?v ! j < length iv" using assms j by simp
    have "(?m j)[?v ! j := Interval_invalid (?m j ! (?v ! j))] = ?m (Suc j)"
      using j q by (intro nth_equalityI)
        (auto simp: nth_list_update take_Suc_conv_app_nth Interval_invalid_idem)
    then show "\<exists>t'. ?f j t = Inr t' \<and> t' = ?m (Suc j)" using j q t by simp
  qed
  then show ?thesis by (simp add: invalid_segment_def)
qed

lemma invalid_segments_ok:
  assumes "\<forall>s \<in> set segs. \<forall>q \<in> set (sg_interval_vector s). q < length iv"
  shows "invalid_segments segs iv =
     Inr (map (\<lambda>q. if \<exists>s \<in> set segs. q \<in> set (sg_interval_vector s) then Interval_invalid (iv ! q) else iv ! q) [0..<length iv])"
  using assms
proof (induction segs arbitrary: iv)
  case Nil
  then show ?case by (simp add: map_nth)
next
  case (Cons s segs)
  let ?iv = "map (\<lambda>q. if q \<in> set (sg_interval_vector s) then Interval_invalid (iv ! q) else iv ! q) [0..<length iv]"
  have "invalid_segment s iv = Inr ?iv" using Cons.prems by (intro invalid_segment_ok) simp
  moreover have "invalid_segments segs ?iv = Inr (map (\<lambda>q. if \<exists>s \<in> set segs. q \<in> set (sg_interval_vector s)
      then Interval_invalid (?iv ! q) else ?iv ! q) [0..<length ?iv])"
    using Cons.prems by (intro Cons.IH) simp
  ultimately show ?case by (auto simp: Interval_invalid_idem)
qed

text \<open>
  C30: deleting user data succeeds when its lock is free; it marks every interval of
  every segment invalid, leaves all other intervals as they are, and changes neither the
  controller nor the pool: no zone is reset or given back.
\<close>

theorem delete_invalidates:
  assumes "\<forall>s \<in> set (ud_file_segment u). \<forall>q \<in> set (sg_interval_vector s). q < length (wd_iv w)"
    and "\<not> ud_write_lock u"
  shows "Delete u w = Inr (0, u, w\<lparr>wd_iv := map (\<lambda>q.
     if \<exists>s \<in> set (ud_file_segment u). q \<in> set (sg_interval_vector s) then (wd_iv w ! q)\<lparr>iv_valid := False\<rparr>
     else wd_iv w ! q) [0..<length (wd_iv w)]\<rparr>)"
  using invalid_segments_ok [OF assms(1)] assms(2)
  by (simp add: Delete_def acquire_def release_def Interval_invalid_def)

theorem delete_invalidates_witness:
  "Delete (marked_user 1) (marked_world 1) =
     Inr (0, marked_user 1, (marked_world 1)\<lparr>wd_iv := [(new_Interval 0 0 0 IO_BLOCKS)\<lparr>iv_valid := False\<rparr>]\<rparr>)"
  using delete_invalidates [of "marked_user 1" "marked_world 1"]
  by (simp add: marked_sel) (simp add: marked_user_def marked_world_def set_interval_list_def)

end
