(* ===== verification/Zoad_Worker.thy ===== *)
theory Zoad_Worker
  imports Userdata_Write
begin

text \<open>
  The state of the ZoAD library as a whole and the worker thread of a partition
  (\<^verbatim>\<open>src/util/zoad/IO_request.cpp\<close>): one iteration of its loop, any number of iterations,
  and the loop that empties the queue once the partition is closed. Partitions and user
  data are objects in heaps; \<open>None\<close> in the heap of user data is a freed object.
\<close>

section \<open>The state of the library\<close>

record 'd zoad =
  zs_world :: "'d world"
  zs_users :: "Userdata option list"
  zs_parts :: "Partition list"
  zs_next_partition_id :: nat
  zs_user_map :: "nat \<rightharpoonup> nat list"
  zs_open_list :: "nat \<rightharpoonup> nat list"
  zs_lock :: bool
  zs_mem :: "byte list"

text \<open>
  What the model is parametric in: the device, the memory behind the vector of sorted
  sizes, the contents of fresh memory, the uninitialised first segment id.
\<close>

record 'd params =
  pm_ops :: "'d nvme_ops"
  pm_past :: "nat list"
  pm_raw :: "nat \<Rightarrow> byte"
  pm_seg0 :: nat

definition get_user :: "'d zoad \<Rightarrow> nat \<Rightarrow> Userdata res" where
  "get_user z u = ebind (vec_at (zs_users z) u) (\<lambda>x.
     case x of None \<Rightarrow> Inl (UseAfterFree ''Userdata'') | Some d \<Rightarrow> Inr d)"

definition set_user :: "nat \<Rightarrow> Userdata option \<Rightarrow> 'd zoad \<Rightarrow> 'd zoad" where
  "set_user u x z = z\<lparr>zs_users := (zs_users z)[u := x]\<rparr>"

definition set_part :: "nat \<Rightarrow> Partition \<Rightarrow> 'd zoad \<Rightarrow> 'd zoad" where
  "set_part i p z = z\<lparr>zs_parts := (zs_parts z)[i := p]\<rparr>"

section \<open>Calls on user data through pointers\<close>

definition user_append :: "'d params \<Rightarrow> nat \<Rightarrow> byte list \<Rightarrow> nat \<Rightarrow> 'd zoad \<Rightarrow> 'd zoad res" where
  "user_append pm u buf n z =
     ebind (get_user z u) (\<lambda>d.
     ebind (vec_at (zs_parts z) (ud_partition d)) (\<lambda>p.
     ebind (Append (pm_ops pm) (pm_past pm) buf n (d, p, zs_world z)) (\<lambda>(_, d', p', w').
       Inr (set_user u (Some d') (set_part (ud_partition d) p' (z\<lparr>zs_world := w'\<rparr>))))))"

definition user_read_all :: "'d params \<Rightarrow> nat \<Rightarrow> nat \<Rightarrow> nat \<Rightarrow> 'd zoad \<Rightarrow> 'd zoad res" where
  "user_read_all pm u buf n z =
     ebind (get_user z u) (\<lambda>d.
     ebind (vec_at (zs_parts z) (ud_partition d)) (\<lambda>p.
     ebind (Read_all (pm_ops pm) buf n d (p, zs_world z) (zs_mem z)) (\<lambda>(_, mem).
       Inr (z\<lparr>zs_mem := mem\<rparr>))))"

definition user_read :: "'d params \<Rightarrow> nat \<Rightarrow> nat \<Rightarrow> nat \<Rightarrow> nat \<Rightarrow> 'd zoad \<Rightarrow> 'd zoad res" where
  "user_read pm u buf offset n z =
     ebind (get_user z u) (\<lambda>d.
     ebind (vec_at (zs_parts z) (ud_partition d)) (\<lambda>p.
     ebind (Read (pm_ops pm) buf offset n d (p, zs_world z) (zs_mem z)) (\<lambda>(_, p', mem).
       Inr (set_part (ud_partition d) p' (z\<lparr>zs_mem := mem\<rparr>)))))"

definition user_delete :: "nat \<Rightarrow> 'd zoad \<Rightarrow> 'd zoad res" where
  "user_delete u z =
     ebind (get_user z u) (\<lambda>d.
     ebind (Delete d (zs_world z)) (\<lambda>(_, _, w'). Inr (set_user u None (z\<lparr>zs_world := w'\<rparr>))))"

section \<open>The worker\<close>

text \<open>
  The body both loops have for a request. A request is freed, or its \<^verbatim>\<open>read_complete\<close> is set for
  the client to see; neither is visible in the rest of the state.
\<close>

definition serve :: "'d params \<Rightarrow> string \<Rightarrow> IO_request \<Rightarrow> 'd zoad \<Rightarrow> 'd zoad res" where
  "serve pm unknown req z =
     (if ir_rw req = WRITE then user_append pm (ir_data req) (ir_w_buf req) (ir_size req) z
      else if ir_rw req = READ then user_read_all pm (ir_data req) (ir_r_buf req) (ir_size req) z
      else if ir_rw req = READ_RANDOM then user_read pm (ir_data req) (ir_r_buf req) (ir_offset req) (ir_size req) z
      else if ir_rw req = DELETE then user_delete (ir_data req) z
      else Inl (Exit unknown))"

text \<open>\<open>io_queue_lock\<close>, held by this thread or not.\<close>

fun unlock_queue :: "bool \<Rightarrow> bool res" where
  "unlock_queue True = Inr False"
| "unlock_queue False = Inl (BadUnlock ''io_queue_lock'')"

text \<open>
  One iteration of the main loop: at most one request is taken and served; the result says
  whether the partition is closed.
\<close>

definition worker_iter :: "'d params \<Rightarrow> nat \<Rightarrow> 'd zoad \<Rightarrow> (bool \<times> 'd zoad) res" where
  "worker_iter pm i z =
     ebind (vec_at (zs_parts z) i) (\<lambda>p.
     ebind (alive p) (\<lambda>_.
     ebind (if q_empty (pt_io_queue p) then ebind (unlock_queue True) (\<lambda>_. Inr z)
            else
              ebind (q_front (pt_io_queue p)) (\<lambda>req.
              ebind (unlock_queue True) (\<lambda>_.
                serve pm ''WHAT??'' req (set_part i (p\<lparr>pt_io_queue := q_pop (pt_io_queue p)\<rparr>) z)))) (\<lambda>z.
     ebind (vec_at (zs_parts z) i) (\<lambda>p.
     ebind (get_status p) (\<lambda>st. Inr (st = CLOSE, z))))))"

text \<open>
  The main loop runs until the partition is closed; \<open>n\<close> bounds the iterations looked at, and
  the flag says whether the loop was left.
\<close>

fun worker_main :: "'d params \<Rightarrow> nat \<Rightarrow> nat \<Rightarrow> 'd zoad \<Rightarrow> (bool \<times> 'd zoad) res" where
  "worker_main pm i 0 z = Inr (False, z)"
| "worker_main pm i (Suc n) z =
     ebind (worker_iter pm i z) (\<lambda>(closed, z). if closed then Inr (True, z) else worker_main pm i n z)"

text \<open>
  The loop after the partition is closed. The lock is taken once before the loop and
  released in every round and once more after it. Each round takes one request, so the
  length of the queue bounds the rounds.
\<close>

definition drain_round :: "'d params \<Rightarrow> nat \<Rightarrow> bool \<times> 'd zoad \<Rightarrow> (bool \<times> 'd zoad) res" where
  "drain_round pm i = (\<lambda>(locked, z).
     ebind (vec_at (zs_parts z) i) (\<lambda>p.
     ebind (q_front (pt_io_queue p)) (\<lambda>req.
     ebind (unlock_queue locked) (\<lambda>locked.
     ebind (serve pm ''Wrong request type'' req (set_part i (p\<lparr>pt_io_queue := q_pop (pt_io_queue p)\<rparr>) z)) (\<lambda>z.
       Inr (locked, z))))))"

definition queue_len :: "nat \<Rightarrow> 'd zoad \<Rightarrow> nat" where
  "queue_len i z = (if i < length (zs_parts z) then length (pt_io_queue (zs_parts z ! i)) else 0)"

definition worker_drain :: "'d params \<Rightarrow> nat \<Rightarrow> 'd zoad \<Rightarrow> 'd zoad res" where
  "worker_drain pm i z =
     ebind (ewhile (queue_len i z) ''worker_job'' (\<lambda>(locked, z). 0 < queue_len i z)
              (drain_round pm i) (True, z)) (\<lambda>(locked, z).
     ebind (unlock_queue locked) (\<lambda>_. Inr z))"

definition worker_job :: "'d params \<Rightarrow> nat \<Rightarrow> nat \<Rightarrow> 'd zoad \<Rightarrow> (bool \<times> 'd zoad) res" where
  "worker_job pm i n z =
     ebind (worker_main pm i n z) (\<lambda>(closed, z).
       if closed then ebind (worker_drain pm i z) (\<lambda>z. Inr (True, z)) else Inr (False, z))"

section \<open>The invariant of the library\<close>

definition part_sys :: "'d ctrl \<Rightarrow> nat \<Rightarrow> nat \<Rightarrow> Partition \<Rightarrow> bool" where
  "part_sys c zsz k p \<longleftrightarrow>
     part_ok c zsz k p \<and> pt_izg_cnt p \<le> 512 \<and> pt_izg_cnt p * zsz < 2147483648
     \<and> length (pt_read_buf p) = pt_izg_cnt p * IO_SIZE"

text \<open>
  \<open>xss\<close> is the abstract store: the stripes of every user data object. The partitions use
  disjoint sets of zones, and every live object holds its stripes.
\<close>

definition sys_ok ::
  "'d params \<Rightarrow> ('d \<Rightarrow> nat \<Rightarrow> byte) \<Rightarrow> ('d \<Rightarrow> nat \<Rightarrow> nat) \<Rightarrow> nat \<Rightarrow> nat \<Rightarrow> nat \<Rightarrow> 'd zoad \<Rightarrow> byte list list list \<Rightarrow> bool" where
  "sys_ok pm media hwp zsz nz k z xss \<longleftrightarrow>
     world_ok (pm_ops pm) media hwp zsz nz k (zs_world z) \<and> (\<exists>x \<in> set (pm_past pm). x \<noteq> 1)
     \<and> (\<forall>i < length (zs_parts z). part_sys (wd_c (zs_world z)) zsz k (zs_parts z ! i))
     \<and> (\<forall>i < length (zs_parts z). \<forall>j < length (zs_parts z). i \<noteq> j \<longrightarrow>
          set (zone_nos (zs_parts z ! i)) \<inter> set (zone_nos (zs_parts z ! j)) = {})
     \<and> length xss = length (zs_users z)
     \<and> (\<forall>u < length (zs_users z). \<forall>d. zs_users z ! u = Some d \<longrightarrow> ud_partition d < length (zs_parts z)
          \<and> holds media zsz nz (pt_izg_cnt (zs_parts z ! ud_partition d)) (zs_world z) d (xss ! u))"

lemma sys_okD:
  assumes "sys_ok pm media hwp zsz nz k z xss"
  shows "world_ok (pm_ops pm) media hwp zsz nz k (zs_world z)" "\<exists>x \<in> set (pm_past pm). x \<noteq> 1"
    "i < length (zs_parts z) \<Longrightarrow> part_sys (wd_c (zs_world z)) zsz k (zs_parts z ! i)"
    "i < length (zs_parts z) \<Longrightarrow> j < length (zs_parts z) \<Longrightarrow> i \<noteq> j \<Longrightarrow>
       set (zone_nos (zs_parts z ! i)) \<inter> set (zone_nos (zs_parts z ! j)) = {}"
    "length xss = length (zs_users z)"
    "u < length (zs_users z) \<Longrightarrow> zs_users z ! u = Some d \<Longrightarrow> ud_partition d < length (zs_parts z)"
    "u < length (zs_users z) \<Longrightarrow> zs_users z ! u = Some d \<Longrightarrow>
       holds media zsz nz (pt_izg_cnt (zs_parts z ! ud_partition d)) (zs_world z) d (xss ! u)"
  using assms unfolding sys_ok_def by blast+

lemma part_sysD:
  assumes "part_sys c zsz k p"
  shows "part_ok c zsz k p" "pt_izg_cnt p \<le> 512" "pt_izg_cnt p * zsz < 2147483648"
    "length (pt_read_buf p) = pt_izg_cnt p * IO_SIZE" "0 < pt_izg_cnt p"
  using assms by (simp_all add: part_sys_def part_ok_def)

text \<open>A partition whose zones are left alone stays well formed.\<close>

lemma part_sys_frame:
  assumes "part_sys c zsz k p" "k \<le> k'" "\<And>z. z \<in> set (zone_nos p) \<Longrightarrow> wps c' z = wps c z"
  shows "part_sys c' zsz k' p"
proof -
  have "equal_fill c' zsz (last_zones p) d" if "equal_fill c zsz (last_zones p) d" for d
    using that assms(3) unfolding equal_fill_def last_zones_def by (metis in_set_dropD)
  then show ?thesis using assms(1,2) unfolding part_sys_def part_ok_def by (meson order_less_le_trans)
qed

text \<open>Changes of a partition outside its zones, and of the caller's memory, do not matter.\<close>

lemma sys_ok_set_part:
  assumes S: "sys_ok pm media hwp zsz nz k z xss" and i: "i < length (zs_parts z)"
    and p': "pt_zone_vector p' = pt_zone_vector (zs_parts z ! i)" "pt_izg_cnt p' = pt_izg_cnt (zs_parts z ! i)"
      "length (pt_read_buf p') = length (pt_read_buf (zs_parts z ! i))"
  shows "sys_ok pm media hwp zsz nz k (set_part i p' z) xss"
proof -
  have zn: "zone_nos p' = zone_nos (zs_parts z ! i)" "last_zones p' = last_zones (zs_parts z ! i)"
    using p' by (simp_all add: zone_nos_def last_zones_def)
  have "zone_nos ((zs_parts z)[i := p'] ! j) = zone_nos (zs_parts z ! j)"
    "pt_izg_cnt ((zs_parts z)[i := p'] ! j) = pt_izg_cnt (zs_parts z ! j)" for j
    using zn p' i by (cases "j = i"; simp)+
  moreover have "part_sys (wd_c (zs_world z)) zsz k p'"
    using sys_okD(3) [OF S i] p' zn by (simp add: part_sys_def part_ok_def)
  then have "part_sys (wd_c (zs_world z)) zsz k ((zs_parts z)[i := p'] ! j)" if "j < length (zs_parts z)" for j
    using sys_okD(3) [OF S that] i by (cases "j = i") simp_all
  ultimately show ?thesis using S unfolding sys_ok_def by (simp add: set_part_def)
qed

lemma sys_ok_mem: "sys_ok pm media hwp zsz nz k (z\<lparr>zs_mem := m\<rparr>) xss = sys_ok pm media hwp zsz nz k z xss"
  by (simp add: sys_ok_def)

section \<open>Operations on user data keep the invariant\<close>

lemma user_append_ok:
  assumes S: "sys_ok pm media hwp zsz nz k z xss" and u: "u < length (zs_users z)" "zs_users z ! u = Some d"
    and p: "p = zs_parts z ! ud_partition d" and room: "k + pt_izg_cnt p \<le> nz"
    and data: "length data = pt_izg_cnt p * IO_SIZE" "(length (xss ! u) + 1) * (pt_izg_cnt p * IO_SIZE) < 2 ^ 32"
  shows "\<exists>d' zv w' k'. user_append pm u data (pt_izg_cnt p * IO_SIZE) z =
       Inr (set_user u (Some d') (set_part (ud_partition d) (p\<lparr>pt_zone_vector := zv\<rparr>) (z\<lparr>zs_world := w'\<rparr>)))
     \<and> ud_partition d' = ud_partition d \<and> k \<le> k' \<and> k' \<le> k + pt_izg_cnt p
     \<and> sys_ok pm media hwp zsz nz k'
         (set_user u (Some d') (set_part (ud_partition d) (p\<lparr>pt_zone_vector := zv\<rparr>) (z\<lparr>zs_world := w'\<rparr>)))
         (xss[u := xss ! u @ [data]])"
proof -
  let ?i = "ud_partition d"
  have i: "?i < length (zs_parts z)" by (rule sys_okD(6) [OF S u])
  note P = part_sysD [OF sys_okD(3) [OF S i], folded p]
  have H: "holds media zsz nz (pt_izg_cnt p) (zs_world z) d (xss ! u)" using sys_okD(7) [OF S u] p by simp
  from append_stripe [OF sys_okD(1) [OF S] P(1-3) room H data sys_okD(2) [OF S]] obtain d' zv w' k' where
    run: "Append (pm_ops pm) (pm_past pm) data (pt_izg_cnt p * IO_SIZE) (d, p, zs_world z) =
       Inr (0, d', p\<lparr>pt_zone_vector := zv\<rparr>, w')"
    and r: "holds media zsz nz (pt_izg_cnt p) w' d' (xss ! u @ [data])" "ud_partition d' = ?i"
      "world_ok (pm_ops pm) media hwp zsz nz k' w'" "k \<le> k'" "k' \<le> k + pt_izg_cnt p" "kept media zsz nz (zs_world z) w'"
      "map zn_number zv = zone_nos p @ [k..<k']" "part_ok (wd_c w') zsz k' (p\<lparr>pt_zone_vector := zv\<rparr>)"
      "\<forall>y. y \<notin> set (zone_nos p @ [k..<k']) \<longrightarrow> wps (wd_c w') y = wps (wd_c (zs_world z)) y" by blast
  let ?p' = "p\<lparr>pt_zone_vector := zv\<rparr>"
  let ?z' = "set_user u (Some d') (set_part ?i ?p' (z\<lparr>zs_world := w'\<rparr>))"
  have zn: "zone_nos ?p' = zone_nos p @ [k..<k']" using r(7) by (simp add: zone_nos_def)
  have lt: "y < k" if "j < length (zs_parts z)" "y \<in> set (zone_nos (zs_parts z ! j))" for j y
    using part_sysD(1) [OF sys_okD(3) [OF S that(1)]] that(2) by (simp add: part_ok_def)
  have other: "set (zone_nos (zs_parts z ! j)) \<inter> set (zone_nos ?p') = {}" if "j < length (zs_parts z)" "j \<noteq> ?i" for j
    using sys_okD(4) [OF S that(1) i that(2)] lt [OF that(1)] p unfolding zn by fastforce
  have parts: "part_sys (wd_c w') zsz k' ((zs_parts z)[?i := ?p'] ! j)" if j: "j < length (zs_parts z)" for j
  proof (cases "j = ?i")
    case True
    then show ?thesis using i r(8) P by (simp add: part_sys_def)
  next
    case False
    have "wps (wd_c w') y = wps (wd_c (zs_world z)) y" if "y \<in> set (zone_nos (zs_parts z ! j))" for y
      using other [OF j False] that r(9) unfolding zn by blast
    from part_sys_frame [OF sys_okD(3) [OF S j] r(4) this] show ?thesis using False by simp
  qed
  have users: "ud_partition d2 < length (zs_parts z) \<and>
      holds media zsz nz (pt_izg_cnt ((zs_parts z)[?i := ?p'] ! ud_partition d2)) w' d2 ((xss[u := xss ! u @ [data]]) ! v)"
    if v: "v < length (zs_users z)" "(zs_users z)[u := Some d'] ! v = Some d2" for v d2
  proof (cases "v = u")
    case True
    then show ?thesis using v u(1) r(1,2) i sys_okD(5) [OF S] by simp
  next
    case False
    then have d2: "zs_users z ! v = Some d2" using v(2) by simp
    have "pt_izg_cnt ((zs_parts z)[?i := ?p'] ! ud_partition d2) = pt_izg_cnt (zs_parts z ! ud_partition d2)"
      using p i by (cases "ud_partition d2 = ?i") simp_all
    then show ?thesis
      using False holds_kept [OF sys_okD(7) [OF S v(1) d2] r(6)] sys_okD(6) [OF S v(1) d2] by simp
  qed
  have "set (zone_nos ((zs_parts z)[?i := ?p'] ! j)) \<inter> set (zone_nos ((zs_parts z)[?i := ?p'] ! l)) = {}"
    if jl: "j < length (zs_parts z)" "l < length (zs_parts z)" "j \<noteq> l" for j l
    using other [OF jl(1)] other [OF jl(2)] sys_okD(4) [OF S jl] jl i by (auto simp: nth_list_update)
  then have "sys_ok pm media hwp zsz nz k' ?z' (xss[u := xss ! u @ [data]])"
    using r(3) sys_okD(2,5) [OF S] parts users by (simp add: sys_ok_def set_user_def set_part_def)
  moreover have "user_append pm u data (pt_izg_cnt p * IO_SIZE) z = Inr ?z'"
    using run u i p by (simp add: user_append_def get_user_def)
  ultimately show ?thesis using r(2,4,5) by blast
qed

text \<open>Reading at an offset changes only the caller's memory and the partition's read buffer.\<close>

text \<open>The data of an object can be read.\<close>

lemma user_readable:
  assumes S: "sys_ok pm media hwp zsz nz k z xss" and u: "u < length (zs_users z)" "zs_users z ! u = Some d"
    and p: "p = zs_parts z ! ud_partition d"
  shows "readable (pm_ops pm) media hwp zsz nz (pt_izg_cnt p) (zs_world z) (xss ! u) (ud_file_segment d)"
    "ud_size d = length (xss ! u) * (pt_izg_cnt p * IO_BLOCKS)" "\<not> ud_write_lock d"
    "ud_partition d < length (zs_parts z)" "length (pt_read_buf p) = pt_izg_cnt p * IO_SIZE"
proof -
  show i: "ud_partition d < length (zs_parts z)" by (rule sys_okD(6) [OF S u])
  note P = part_sysD [OF sys_okD(3) [OF S i], folded p]
  show "length (pt_read_buf p) = pt_izg_cnt p * IO_SIZE" by (rule P(4))
  have "holds media zsz nz (pt_izg_cnt p) (zs_world z) d (xss ! u)" using sys_okD(7) [OF S u] p by simp
  then show "readable (pm_ops pm) media hwp zsz nz (pt_izg_cnt p) (zs_world z) (xss ! u) (ud_file_segment d)"
    "ud_size d = length (xss ! u) * (pt_izg_cnt p * IO_BLOCKS)" "\<not> ud_write_lock d"
    using sys_okD(1) [OF S] P(2) by (simp_all add: readable_def holds_def world_ok_def)
qed

lemma user_read_ok:
  assumes S: "sys_ok pm media hwp zsz nz k z xss" and u: "u < length (zs_users z)" "zs_users z ! u = Some d"
    and p: "p = zs_parts z ! ud_partition d"
    and n: "0 < n" "n \<le> pt_izg_cnt p * IO_SIZE" "off + n \<le> length (xss ! u) * (pt_izg_cnt p * IO_SIZE)"
    and fit: "buf + pt_izg_cnt p * IO_SIZE \<le> length (zs_mem z)"
  shows "\<exists>rb ys. user_read pm u buf off n z =
       Inr (set_part (ud_partition d) (p\<lparr>pt_read_buf := rb\<rparr>) (z\<lparr>zs_mem := patch (zs_mem z) buf ys\<rparr>))
     \<and> length ys \<le> pt_izg_cnt p * IO_SIZE \<and> n \<le> length ys \<and> take n ys = take n (drop off (concat (xss ! u)))
     \<and> sys_ok pm media hwp zsz nz k
         (set_part (ud_partition d) (p\<lparr>pt_read_buf := rb\<rparr>) (z\<lparr>zs_mem := patch (zs_mem z) buf ys\<rparr>)) xss"
proof -
  let ?i = "ud_partition d"
  note U = user_readable [OF S u p] and i = user_readable(4) [OF S u p]
  from read_stored [OF U(1) refl U(2,3,5) n fit] obtain rb ys where
    r: "Read (pm_ops pm) buf off n d (p, zs_world z) (zs_mem z) = Inr (0, p\<lparr>pt_read_buf := rb\<rparr>, patch (zs_mem z) buf ys)"
      "length rb = pt_izg_cnt p * IO_SIZE" "length ys \<le> pt_izg_cnt p * IO_SIZE" "n \<le> length ys"
      "take n ys = take n (drop off (concat (xss ! u)))" by blast
  let ?p' = "p\<lparr>pt_read_buf := rb\<rparr>"
  let ?z' = "set_part ?i ?p' (z\<lparr>zs_mem := patch (zs_mem z) buf ys\<rparr>)"
  have "sys_ok pm media hwp zsz nz k (z\<lparr>zs_mem := patch (zs_mem z) buf ys\<rparr>) xss" using S by (simp add: sys_ok_mem)
  from sys_ok_set_part [OF this, of ?i ?p'] have "sys_ok pm media hwp zsz nz k ?z' xss" using i p r(2) U(5) by simp
  moreover have "user_read pm u buf off n z = Inr ?z'"
    using r(1) u i p by (simp add: user_read_def get_user_def)
  ultimately show ?thesis using r(3-5) by blast
qed

lemma user_read_overruns:
  assumes S: "sys_ok pm media hwp zsz nz k z xss" and u: "u < length (zs_users z)" "zs_users z ! u = Some d"
    and p: "p = zs_parts z ! ud_partition d"
    and n: "n \<le> pt_izg_cnt p * IO_SIZE" "off < length (xss ! u) * (pt_izg_cnt p * IO_SIZE)"
      "length (xss ! u) * (pt_izg_cnt p * IO_SIZE) < off + n"
    and fit: "buf + pt_izg_cnt p * IO_SIZE \<le> length (zs_mem z)"
  shows "user_read pm u buf off n z = Inl (Exit ''Read size error'')"
proof -
  note U = user_readable [OF S u p]
  from read_overruns [OF U(1) refl U(2,3,5) n fit] u U(4) p show ?thesis by (simp add: user_read_def get_user_def)
qed

text \<open>Deleting frees the object; the data of the others stays.\<close>

lemma user_delete_ok:
  assumes S: "sys_ok pm media hwp zsz nz k z xss" and u: "u < length (zs_users z)" "zs_users z ! u = Some d"
  shows "\<exists>w'. user_delete u z = Inr (set_user u None (z\<lparr>zs_world := w'\<rparr>))
     \<and> sys_ok pm media hwp zsz nz k (set_user u None (z\<lparr>zs_world := w'\<rparr>)) xss"
proof -
  let ?w = "zs_world z"
  have H: "placed zsz nz ?w (ud_file_segment d)" "\<not> ud_write_lock d" using sys_okD(7) [OF S u] by (simp_all add: holds_def)
  then have "\<forall>s \<in> set (ud_file_segment d). \<forall>q \<in> set (sg_interval_vector s). q < length (wd_iv ?w)"
    by (simp add: placed_def)
  note inv = invalid_segments_ok [OF this]
  define w' where "w' = ?w\<lparr>wd_iv := map (\<lambda>q. if \<exists>s \<in> set (ud_file_segment d). q \<in> set (sg_interval_vector s)
     then Interval_invalid (wd_iv ?w ! q) else wd_iv ?w ! q) [0..<length (wd_iv ?w)]\<rparr>"
  have "user_delete u z = Inr (set_user u None (z\<lparr>zs_world := w'\<rparr>))"
    using u H(2) inv by (simp add: user_delete_def get_user_def Delete_def acquire_def w'_def)
  moreover have kp: "kept media zsz nz ?w w'"
    by (simp add: kept_def w'_def same_place_def Interval_invalid_def)
  moreover have "world_ok (pm_ops pm) media hwp zsz nz k w'" "wd_c w' = wd_c ?w"
    using sys_okD(1) [OF S] by (simp_all add: world_ok_def w'_def)
  moreover have "ud_partition d2 < length (zs_parts z)
      \<and> holds media zsz nz (pt_izg_cnt (zs_parts z ! ud_partition d2)) w' d2 (xss ! v)"
    if "v < length (zs_users z)" "(zs_users z)[u := None] ! v = Some d2" for v d2
  proof -
    have "zs_users z ! v = Some d2" using that by (cases "v = u") simp_all
    then show ?thesis using sys_okD(6) [OF S that(1)] holds_kept [OF sys_okD(7) [OF S that(1)] kp] by simp
  qed
  ultimately show ?thesis
    using S unfolding sys_ok_def by (intro exI [of _ w']) (simp add: set_user_def)
qed

section \<open>The worker as a server of the abstract store\<close>

text \<open>The effect of a write request on the abstract store.\<close>

definition abs_write :: "byte list list list \<Rightarrow> IO_request \<Rightarrow> byte list list list" where
  "abs_write xss r = xss[ir_data r := xss ! ir_data r @ [ir_w_buf r]]"

text \<open>A write request of one stripe for a live object of partition \<open>i\<close>.\<close>

definition stripe_req :: "nat \<Rightarrow> nat \<Rightarrow> 'd zoad \<Rightarrow> IO_request \<Rightarrow> bool" where
  "stripe_req i izg z r \<longleftrightarrow>
     ir_rw r = WRITE \<and> ir_data r < length (zs_users z)
     \<and> (\<exists>d. zs_users z ! ir_data r = Some d \<and> ud_partition d = i)
     \<and> length (ir_w_buf r) = izg * IO_SIZE \<and> ir_size r = izg * IO_SIZE"

lemma worker_iter_write:
  assumes S: "sys_ok pm media hwp zsz nz k z xss" and i: "i < length (zs_parts z)" and p: "p = zs_parts z ! i"
    and q: "pt_io_queue p = r # rs" and st: "\<not> pt_deleted p" "pt_status p = OPEN"
    and r: "stripe_req i (pt_izg_cnt p) z r"
    and room: "k + pt_izg_cnt p \<le> nz" "(length (xss ! ir_data r) + 1) * (pt_izg_cnt p * IO_SIZE) < 2 ^ 32"
  shows "\<exists>z' k' p'. worker_iter pm i z = Inr (False, z') \<and> sys_ok pm media hwp zsz nz k' z' (abs_write xss r)
     \<and> k' \<le> k + pt_izg_cnt p \<and> zs_parts z' = (zs_parts z)[i := p'] \<and> pt_io_queue p' = rs
     \<and> \<not> pt_deleted p' \<and> pt_status p' = OPEN \<and> pt_izg_cnt p' = pt_izg_cnt p \<and> zs_mem z' = zs_mem z
     \<and> (\<forall>r'. stripe_req i (pt_izg_cnt p) z r' \<longrightarrow> stripe_req i (pt_izg_cnt p) z' r')"
proof -
  let ?p1 = "p\<lparr>pt_io_queue := rs\<rparr>"
  let ?z1 = "set_part i ?p1 z"
  have S1: "sys_ok pm media hwp zsz nz k ?z1 xss" using sys_ok_set_part [OF S i, of ?p1] p by simp
  obtain d where d: "zs_users z ! ir_data r = Some d" "ud_partition d = i" and rr: "ir_rw r = WRITE" "ir_data r < length (zs_users z)"
    "length (ir_w_buf r) = pt_izg_cnt p * IO_SIZE" "ir_size r = pt_izg_cnt p * IO_SIZE" using r by (auto simp: stripe_req_def)
  have p1: "?p1 = zs_parts ?z1 ! ud_partition d" using i d(2) by (simp add: set_part_def)
  have u1: "ir_data r < length (zs_users ?z1)" "zs_users ?z1 ! ir_data r = Some d" using rr d by (simp_all add: set_part_def)
  from user_append_ok [OF S1 u1 p1, of "ir_w_buf r"] rr room d obtain d' zv w' k' where
    run: "user_append pm (ir_data r) (ir_w_buf r) (pt_izg_cnt p * IO_SIZE) ?z1 =
       Inr (set_user (ir_data r) (Some d') (set_part i (?p1\<lparr>pt_zone_vector := zv\<rparr>) (?z1\<lparr>zs_world := w'\<rparr>)))"
    and f: "ud_partition d' = i" "k' \<le> k + pt_izg_cnt p"
      "sys_ok pm media hwp zsz nz k' (set_user (ir_data r) (Some d') (set_part i (?p1\<lparr>pt_zone_vector := zv\<rparr>) (?z1\<lparr>zs_world := w'\<rparr>)))
         (xss[ir_data r := xss ! ir_data r @ [ir_w_buf r]])" by auto
  let ?p2 = "?p1\<lparr>pt_zone_vector := zv\<rparr>"
  let ?z2 = "set_user (ir_data r) (Some d') (set_part i ?p2 (?z1\<lparr>zs_world := w'\<rparr>))"
  have parts: "zs_parts ?z2 = (zs_parts z)[i := ?p2]" by (simp add: set_user_def set_part_def)
  have "worker_iter pm i z = Inr (False, ?z2)"
    using i p q st rr run parts unfolding worker_iter_def serve_def
    by (simp add: alive_def get_status_def q_empty_def q_front_def q_pop_def status_defs)
  moreover have "stripe_req i (pt_izg_cnt p) ?z2 r'" if "stripe_req i (pt_izg_cnt p) z r'" for r'
    using that f(1) rr(2) by (cases "ir_data r' = ir_data r") (auto simp: stripe_req_def set_user_def set_part_def)
  moreover have "zs_mem ?z2 = zs_mem z" by (simp add: set_user_def set_part_def)
  ultimately show ?thesis
    using f(2,3) parts st by (intro exI [of _ ?z2] exI [of _ k'] exI [of _ ?p2]) (simp add: abs_write_def)
qed

lemma worker_main_idle:
  assumes "i < length (zs_parts z)" "pt_io_queue (zs_parts z ! i) = []" "\<not> pt_deleted (zs_parts z ! i)"
    "pt_status (zs_parts z ! i) = OPEN"
  shows "worker_main pm i n z = Inr (False, z)"
proof -
  have "worker_iter pm i z = Inr (False, z)"
    using assms by (simp add: worker_iter_def alive_def get_status_def q_empty_def status_defs)
  then show ?thesis by (induction n) simp_all
qed

lemma worker_main_serves:
  assumes "sys_ok pm media hwp zsz nz k z xss" "i < length (zs_parts z)" "p = zs_parts z ! i"
    "pt_io_queue p = rs" "\<not> pt_deleted p" "pt_status p = OPEN" "\<forall>r \<in> set rs. stripe_req i (pt_izg_cnt p) z r"
    "k + length rs * pt_izg_cnt p \<le> nz" "\<forall>r \<in> set rs. (length (xss ! ir_data r) + length rs) * (pt_izg_cnt p * IO_SIZE) < 2 ^ 32"
    "length rs \<le> n"
  shows "\<exists>z' k' p'. worker_main pm i n z = Inr (False, z') \<and> sys_ok pm media hwp zsz nz k' z' (foldl abs_write xss rs)
     \<and> zs_parts z' = (zs_parts z)[i := p'] \<and> pt_io_queue p' = [] \<and> \<not> pt_deleted p' \<and> pt_status p' = OPEN
     \<and> pt_izg_cnt p' = pt_izg_cnt p \<and> zs_mem z' = zs_mem z \<and> k' \<le> k + length rs * pt_izg_cnt p
     \<and> (\<forall>r'. stripe_req i (pt_izg_cnt p) z r' \<longrightarrow> stripe_req i (pt_izg_cnt p) z' r')"
  using assms
proof (induction rs arbitrary: n k z xss p)
  case Nil
  then have "(zs_parts z)[i := p] = zs_parts z" by simp
  then show ?case using Nil worker_main_idle [of i z pm n] by (intro exI [of _ z] exI [of _ k] exI [of _ p]) simp
next
  case (Cons r rs)
  obtain m where m: "n = Suc m" using Cons.prems(10) by (cases n) simp_all
  have r: "stripe_req i (pt_izg_cnt p) z r" using Cons.prems(7) by simp
  have u: "ir_data r < length xss" using r sys_okD(5) [OF Cons.prems(1)] by (simp add: stripe_req_def)
  have "(length (xss ! ir_data r) + 1) * (pt_izg_cnt p * IO_SIZE) \<le> (length (xss ! ir_data r) + length (r # rs)) * (pt_izg_cnt p * IO_SIZE)"
    by (intro mult_le_mono1) simp
  also have "\<dots> < 2 ^ 32" using Cons.prems(9) list.set_intros(1) [of r rs] by blast
  finally have one: "(length (xss ! ir_data r) + 1) * (pt_izg_cnt p * IO_SIZE) < 2 ^ 32" .
  have "k + pt_izg_cnt p \<le> nz" using Cons.prems(8) by simp
  from worker_iter_write [OF Cons.prems(1-6) r this one] obtain z1 k1 p1 where
    it: "worker_iter pm i z = Inr (False, z1)" and S1: "sys_ok pm media hwp zsz nz k1 z1 (abs_write xss r)"
    and f: "k1 \<le> k + pt_izg_cnt p" "zs_parts z1 = (zs_parts z)[i := p1]" "pt_io_queue p1 = rs" "\<not> pt_deleted p1"
      "pt_status p1 = OPEN" "pt_izg_cnt p1 = pt_izg_cnt p" "zs_mem z1 = zs_mem z"
      "\<forall>r'. stripe_req i (pt_izg_cnt p) z r' \<longrightarrow> stripe_req i (pt_izg_cnt p) z1 r'" by blast
  have grow: "(length (abs_write xss r ! v) + length rs) * (pt_izg_cnt p1 * IO_SIZE) < 2 ^ 32"
    if "r' \<in> set rs" "v = ir_data r'" for r' v
  proof -
    have "length (abs_write xss r ! v) + length rs \<le> length (xss ! v) + length (r # rs)"
      using u by (cases "v = ir_data r") (simp_all add: abs_write_def)
    then have "(length (abs_write xss r ! v) + length rs) * (pt_izg_cnt p * IO_SIZE)
       \<le> (length (xss ! v) + length (r # rs)) * (pt_izg_cnt p * IO_SIZE)" by (rule mult_le_mono1)
    also have "\<dots> < 2 ^ 32" using Cons.prems(9) list.set_intros(2) [OF that(1)] that(2) by blast
    finally show ?thesis unfolding f(6) .
  qed
  have i1: "i < length (zs_parts z1)" "p1 = zs_parts z1 ! i" using f(2) Cons.prems(2) by simp_all
  have "\<exists>z' k' p'. worker_main pm i m z1 = Inr (False, z') \<and> sys_ok pm media hwp zsz nz k' z' (foldl abs_write (abs_write xss r) rs)
     \<and> zs_parts z' = (zs_parts z1)[i := p'] \<and> pt_io_queue p' = [] \<and> \<not> pt_deleted p' \<and> pt_status p' = OPEN
     \<and> pt_izg_cnt p' = pt_izg_cnt p1 \<and> zs_mem z' = zs_mem z1 \<and> k' \<le> k1 + length rs * pt_izg_cnt p1
     \<and> (\<forall>r'. stripe_req i (pt_izg_cnt p1) z1 r' \<longrightarrow> stripe_req i (pt_izg_cnt p1) z' r')"
  proof (rule Cons.IH [OF S1 i1 f(3-5)])
    show "\<forall>r \<in> set rs. stripe_req i (pt_izg_cnt p1) z1 r" using Cons.prems(7) f(6,8) by simp
    show "k1 + length rs * pt_izg_cnt p1 \<le> nz" using Cons.prems(8) f(1,6) by simp
    show "\<forall>r' \<in> set rs. (length (abs_write xss r ! ir_data r') + length rs) * (pt_izg_cnt p1 * IO_SIZE) < 2 ^ 32"
      using grow by blast
    show "length rs \<le> m" using Cons.prems(10) m by simp
  qed
  then obtain z' k' p' where "worker_main pm i m z1 = Inr (False, z')"
    "sys_ok pm media hwp zsz nz k' z' (foldl abs_write (abs_write xss r) rs)" "zs_parts z' = (zs_parts z1)[i := p']"
    "pt_io_queue p' = []" "\<not> pt_deleted p'" "pt_status p' = OPEN" "pt_izg_cnt p' = pt_izg_cnt p1" "zs_mem z' = zs_mem z1"
    "k' \<le> k1 + length rs * pt_izg_cnt p1" "\<forall>r'. stripe_req i (pt_izg_cnt p1) z1 r' \<longrightarrow> stripe_req i (pt_izg_cnt p1) z' r'" by blast
  then show ?case using it m f
    by (intro exI [of _ z'] exI [of _ k'] exI [of _ p']) simp
qed

text \<open>For the witnesses: an emulated device, one open partition of one zone per stripe, one object.\<close>

definition emu_params :: "nat \<Rightarrow> nat \<Rightarrow> emu params" where
  "emu_params zsz nz = \<lparr>pm_ops = emu_ops zsz nz, pm_past = [0], pm_raw = \<lambda>_. 0, pm_seg0 = 0\<rparr>"

definition emu_zoad :: "nat \<Rightarrow> nat \<Rightarrow> IO_request list \<Rightarrow> emu zoad" where
  "emu_zoad zsz nz rs =
     \<lparr>zs_world = emu_world zsz nz, zs_users = [Some (new_Userdata 0 0)],
      zs_parts = [marked_part\<lparr>pt_status := OPEN, pt_thread := True, pt_io_queue := rs\<rparr>],
      zs_next_partition_id = 2, zs_user_map = [0 \<mapsto> [0]], zs_open_list = [MAX_PARTITION \<mapsto> [], QOS_PARTITION \<mapsto> [0]],
      zs_lock = False, zs_mem = replicate IO_SIZE 9\<rparr>"

lemma emu_zoad_ok:
  assumes "0 < zsz" "IO_BLOCKS dvd zsz" "(nz + 1) * zsz < 2 ^ 32" "zsz < 2147483648"
  shows "sys_ok (emu_params zsz nz) fst snd zsz nz 0 (emu_zoad zsz nz rs) [[]]"
proof -
  have "nz * zsz < 2 ^ 32" using assms(3) by simp
  from holds_new [OF this] have "holds fst zsz nz 1 (emu_world zsz nz) (new_Userdata 0 0) []" .
  moreover have "part_sys (wd_c (emu_world zsz nz)) zsz 0 (marked_part\<lparr>pt_status := OPEN, pt_thread := True, pt_io_queue := rs\<rparr>)"
    using assms(4) marked_sel(1,2)
    by (simp add: part_sys_def part_ok_def zone_nos_def marked_part_def new_Partition_def)
  ultimately show ?thesis
    using emu_world_ok [OF assms(1-3)] marked_sel(1)
    by (simp add: sys_ok_def emu_zoad_def emu_params_def new_Userdata_def)
qed

text \<open>
  C5: on an open partition the worker serves the queue in the order of submission. When
  the queue holds write requests of one stripe each for live objects of the partition, and
  there are zones for them, as many iterations as there are requests (and any number after
  that) leave the queue empty and every object with the stripes submitted for it appended in
  that order; the data of all objects of all partitions stays readable.
\<close>

theorem worker_serves_in_order:
  assumes "sys_ok pm media hwp zsz nz k z xss" and "i < length (zs_parts z)"
    and "\<not> pt_deleted (zs_parts z ! i)" and "pt_status (zs_parts z ! i) = OPEN"
    and "pt_io_queue (zs_parts z ! i) = rs" and "\<forall>r \<in> set rs. stripe_req i (pt_izg_cnt (zs_parts z ! i)) z r"
    and "k + length rs * pt_izg_cnt (zs_parts z ! i) \<le> nz"
    and "\<forall>r \<in> set rs. (length (xss ! ir_data r) + length rs) * (pt_izg_cnt (zs_parts z ! i) * IO_SIZE) < 2 ^ 32"
    and "length rs \<le> n"
  shows "\<exists>z' k'. worker_main pm i n z = Inr (False, z') \<and> pt_io_queue (zs_parts z' ! i) = []
     \<and> sys_ok pm media hwp zsz nz k' z' (foldl (\<lambda>xss r. xss[ir_data r := xss ! ir_data r @ [ir_w_buf r]]) xss rs)"
proof -
  from worker_main_serves [OF assms(1,2) refl assms(5,3,4,6-9)] obtain z' k' p' where
    "worker_main pm i n z = Inr (False, z')" "sys_ok pm media hwp zsz nz k' z' (foldl abs_write xss rs)"
    "zs_parts z' = (zs_parts z)[i := p']" "pt_io_queue p' = []" by blast
  moreover have "foldl abs_write xss rs = foldl (\<lambda>xss r. xss[ir_data r := xss ! ir_data r @ [ir_w_buf r]]) xss rs"
    by (simp add: abs_write_def [abs_def])
  ultimately show ?thesis using assms(2) by auto
qed

theorem worker_serves_in_order_witness:
  "\<exists>z' k'. worker_main (emu_params (2 * IO_BLOCKS) 2) 0 1 (emu_zoad (2 * IO_BLOCKS) 2
        [new_IO_request_write WRITE (replicate IO_SIZE 5) IO_SIZE 0]) = Inr (False, z')
     \<and> sys_ok (emu_params (2 * IO_BLOCKS) 2) fst snd (2 * IO_BLOCKS) 2 k' z' [[replicate IO_SIZE 5]]"
proof -
  let ?r = "new_IO_request_write WRITE (replicate IO_SIZE 5) IO_SIZE 0"
  have z: "0 < 2 * IO_BLOCKS" "IO_BLOCKS dvd 2 * IO_BLOCKS" "(2 + 1) * (2 * IO_BLOCKS) < 2 ^ 32" "2 * IO_BLOCKS < 2147483648"
    by (simp_all add: IO_BLOCKS_def)
  define z where "z = emu_zoad (2 * IO_BLOCKS) 2 [?r]"
  have f: "length (zs_parts z) = 1" "\<not> pt_deleted (zs_parts z ! 0)" "pt_status (zs_parts z ! 0) = OPEN"
    "pt_io_queue (zs_parts z ! 0) = [?r]" "pt_izg_cnt (zs_parts z ! 0) = 1" "ir_data ?r = 0" "ir_w_buf ?r = replicate IO_SIZE 5"
    using marked_sel(1) by (simp_all add: z_def emu_zoad_def marked_part_def new_Partition_def new_IO_request_write_def)
  have r: "stripe_req 0 1 z ?r"
    by (simp add: z_def stripe_req_def emu_zoad_def new_IO_request_write_def new_Userdata_def)
  have "\<exists>z' k'. worker_main (emu_params (2 * IO_BLOCKS) 2) 0 1 z = Inr (False, z') \<and> pt_io_queue (zs_parts z' ! 0) = []
     \<and> sys_ok (emu_params (2 * IO_BLOCKS) 2) fst snd (2 * IO_BLOCKS) 2 k' z'
          (foldl (\<lambda>xss r. xss[ir_data r := xss ! ir_data r @ [ir_w_buf r]]) [[]] [?r])"
    by (rule worker_serves_in_order [OF emu_zoad_ok [OF z, of "[?r]", folded z_def]]) (simp_all add: f r [simplified], simp add: IO_SIZE_def)
  then show ?thesis unfolding z_def [symmetric] by (auto simp: f)
qed

section \<open>The worker after the close\<close>

text \<open>What a request changes of a partition: its zones and its read buffer, never its queue.\<close>

definition pt_core :: "Partition \<Rightarrow> Partition" where
  "pt_core p = p\<lparr>pt_zone_vector := [], pt_read_buf := []\<rparr>"

lemma pt_core_upd [simp]:
  "pt_core (p\<lparr>pt_zone_vector := v\<rparr>) = pt_core p" "pt_core (p\<lparr>pt_read_buf := b\<rparr>) = pt_core p"
  by (simp_all add: pt_core_def)

lemma pt_coreD: "pt_core p = pt_core q \<Longrightarrow> pt_io_queue p = pt_io_queue q"
  by (cases p; cases q) (simp add: pt_core_def)

lemma back_pass_keeps:
  assumes step: "\<And>z m t t'. P t \<Longrightarrow> body z m t = Inr t' \<Longrightarrow> P t'"
    and run: "back_pass n body view s = Inr s'" and P: "P s"
  shows "P s'"
proof -
  define f where "f = (\<lambda>(i::nat, n, s). ebind (zone_back (fst (view s)) n) (\<lambda>z. ebind (Zone_full (wd_c (snd (view s))) z) (\<lambda>full.
         if full then Inr (i + 2, n + 1, s) else ebind (body z n s) (\<lambda>s. Inr (i + 1, n + 1, s)))))"
  have f: "P (snd (snd t'))" if "P (snd (snd t))" "f t = Inr t'" for t t'
  proof -
    obtain i m u where t: "t = (i, m, u)" by (cases t)
    from that(2) consider "snd (snd t') = u" | z where "body z m u = Inr (snd (snd t'))"
      by (auto simp: t f_def fault_simps split: if_splits)
    then show ?thesis using that(1) step by cases (auto simp: t)
  qed
  obtain i j where w: "ewhile n ''_write'' (\<lambda>(i, m, s). i < n) f (0, 0, s) = Inr (i, j, s')"
    using run unfolding back_pass_def f_def [symmetric] by (auto simp: fault_simps)
  have "P (snd (snd (i, j, s')))" by (rule ewhile_keeps [where P = "\<lambda>t. P (snd (snd t))", OF _ w]) (use f P in auto)
  then show ?thesis by simp
qed

definition pw_core :: "'d pw \<Rightarrow> Partition \<times> nat" where
  "pw_core pw = (pt_core (fst pw), pl_available_izg_cnt (wd_pool (snd pw)))"

lemma take_zone_available: "take_zone p = Inr (z, p') \<Longrightarrow> pl_available_izg_cnt p' = pl_available_izg_cnt p"
  by (auto simp: take_zone_def IZG_get_next_zone_def fault_simps split: if_splits)

lemma alloc_core: "alloc_or_exit pw = Inr pw' \<Longrightarrow> pw_core pw' = pw_core pw"
  by (auto simp: alloc_or_exit_def alloc_zone_def pw_core_def fault_simps split: if_splits prod.splits dest!: take_zone_available)

lemma prepare_core:
  assumes "prepare_zones n pw = Inr pw'"
  shows "pw_core pw' = pw_core pw"
proof -
  obtain p w where pw: "pw = (p, w)" by (cases pw)
  have A: "pw_core t = pw_core pw" if "efor 0 k (\<lambda>_. alloc_or_exit) pw = Inr t" for k t
    by (rule efor_keeps [OF _ that]) (auto dest!: alloc_core)
  have B: "pw_core (snd t) = pw_core pw"
    if "ewhile k m b (\<lambda>(i, pw). ebind (alloc_or_exit pw) (\<lambda>pw. Inr (i + 1, pw))) (0, pw) = Inr t" for k m b and t :: "nat \<times> 'a pw"
    by (rule ewhile_keeps [OF _ that]) (auto simp: fault_simps dest!: alloc_core)
  show ?thesis
  proof (cases "zone_empty p")
    case True
    then show ?thesis using assms A unfolding pw prepare_zones_def by simp
  next
    case False
    then show ?thesis
      using assms A [unfolded pw] B [unfolded pw] unfolding pw prepare_zones_def
      by (cases "zone_size p < n"; cases pw') (simp_all add: fault_simps, auto)
  qed
qed

lemma more_core:
  assumes "more_zones sz n ts ws pw = Inr (tz, ws', pw')"
  shows "pw_core pw' = pw_core pw"
proof -
  define body where "body = (\<lambda>(_::nat) (ts, ws, pw). ebind (alloc_or_exit pw) (\<lambda>pw::'a pw.
     let zs = zns_get_zone_size (wd_c (snd pw)) in Inr (s32 (ts - int zs), ws @ [zs], pw)))"
  define f where "f = (\<lambda>(ts, tz, ws, pw). ebind (efor 0 n body (ts, ws, pw)) (\<lambda>(ts, ws, pw). Inr (ts, u32 (tz + n), ws, pw)))"
  have one: "pw_core (snd (snd t)) = pw_core pw"
    if "efor 0 n body s = Inr t" "pw_core (snd (snd s)) = pw_core pw" for s t
    by (rule efor_keeps [OF _ that(1)], auto simp: body_def fault_simps Let_def dest!: alloc_core) (rule that(2))
  have two: "pw_core (snd (snd (snd t'))) = pw_core pw"
    if t: "pw_core (snd (snd (snd t))) = pw_core pw" and ft: "f t = Inr t'" for t t'
  proof -
    obtain s where "efor 0 n body (fst t, snd (snd t)) = Inr s" "snd (snd s) = snd (snd (snd t'))"
      using ft by (auto simp: f_def fault_simps split: prod.splits)
    then show ?thesis using one t by (metis snd_conv)
  qed
  obtain a where "ewhile sz ''_write'' (\<lambda>(ts, tz, ws, pw). 0 < ts) f (ts, n, ws, pw) = Inr (a, tz, ws', pw')"
    using assms unfolding more_zones_def body_def [symmetric] f_def [symmetric] by (auto simp: fault_simps)
  from ewhile_keeps [of "\<lambda>t. pw_core (snd (snd (snd t))) = pw_core pw", OF two this]
  show ?thesis by simp
qed

lemma intervals_core:
  assumes "new_intervals tz sid pw = Inr (l, pw')"
  shows "pw_core pw' = pw_core pw"
proof -
  have "(\<lambda>(l, q). pw_core q = pw_core pw) (l, pw')"
    using assms unfolding new_intervals_def
    by (rule back_pass_keeps [where P = "\<lambda>(l, q). pw_core q = pw_core pw", rotated]) (auto simp: pw_core_def fault_simps Let_def)
  then show ?thesis by simp
qed

lemma write_core:
  assumes "Userdata__write ops past sg b m pw = Inr (r, sg', q)"
  shows "pw_core q = pw_core pw"
proof -
  obtain pw1 tz ws pw2 l pw3 ts ws0 where "prepare_zones (pt_izg_cnt (fst pw)) pw = Inr pw1"
    "more_zones m (pt_izg_cnt (fst pw)) ts (rev ws0) pw1 = Inr (tz, ws, pw2)"
    "new_intervals tz (sg_id sg) pw2 = Inr (l, pw3)" "pw_core pw3 = pw_core q"
    using assms unfolding Userdata__write_def Let_def by (fastforce simp: fault_simps pw_core_def)
  then show ?thesis using prepare_core more_core intervals_core by metis
qed

lemma append_core:
  assumes "Append ops past b n (u, pw) = Inr (r, u', pw')"
  shows "pw_core pw' = pw_core pw"
  using assms by (auto simp: Append_def Let_def fault_simps split: if_splits dest!: write_core)

lemma read_core: "Read ops q a n u pw mem = Inr (r, p', mem') \<Longrightarrow> pt_core p' = pt_core (fst pw)"
  by (auto simp: Read_def Let_def fault_simps split: if_splits)

lemma part_core_upd:
  "pt_core p' = pt_core (ps ! j) \<Longrightarrow> map pt_core (ps[j := p']) = map pt_core ps"
  by (metis list_update_id map_update)

lemma append_coreD:
  assumes "Append ops past b n (u, p, w) = Inr (r, u', p', w')"
  shows "pt_core p' = pt_core p" "pl_available_izg_cnt (wd_pool w') = pl_available_izg_cnt (wd_pool w)"
  using append_core [OF assms] by (simp_all add: pw_core_def)

lemma serve_core: "serve pm msg r z = Inr z' \<Longrightarrow> map pt_core (zs_parts z') = map pt_core (zs_parts z)"
  by (auto simp: serve_def user_append_def user_read_all_def user_read_def user_delete_def set_user_def set_part_def
      vec_at_def fault_simps split: if_splits dest!: append_coreD(1) read_core intro!: part_core_upd)

lemma serve_queue:
  assumes "serve pm msg r z = Inr z'" "i < length (zs_parts z)"
  shows "i < length (zs_parts z')" "pt_io_queue (zs_parts z' ! i) = pt_io_queue (zs_parts z ! i)"
proof -
  have m: "map pt_core (zs_parts z') = map pt_core (zs_parts z)" using assms(1) by (rule serve_core)
  then show l: "i < length (zs_parts z')" using assms(2) by (metis length_map)
  have "pt_core (zs_parts z' ! i) = pt_core (zs_parts z ! i)" using m l assms(2) by (metis nth_map)
  then show "pt_io_queue (zs_parts z' ! i) = pt_io_queue (zs_parts z ! i)" by (rule pt_coreD)
qed

text \<open>
  C34: once the partition is closed, the worker releases its queue lock in every round of
  the loop that empties the queue, although it takes the lock only once: as soon as one
  request is left and is served, the worker releases a mutex it does not hold.
\<close>

theorem worker_drain_bad_unlock:
  assumes "i < length (zs_parts z)" and "pt_io_queue (zs_parts z ! i) = r # rs"
    and "serve pm ''Wrong request type'' r (set_part i ((zs_parts z ! i)\<lparr>pt_io_queue := rs\<rparr>) z) = Inr z1"
  shows "worker_drain pm i z = Inl (BadUnlock ''io_queue_lock'')"
proof -
  have len: "queue_len i z = Suc (length rs)" using assms(1,2) by (simp add: queue_len_def)
  have i1: "i < length (zs_parts z1)" "pt_io_queue (zs_parts z1 ! i) = rs"
    using serve_queue [OF assms(3), of i] assms(1) by (simp_all add: set_part_def)
  have one: "drain_round pm i (True, z) = Inr (False, z1)"
    using assms by (simp add: drain_round_def q_front_def q_pop_def)
  have two: "drain_round pm i (False, z1) = Inl (BadUnlock ''io_queue_lock'')" if "rs \<noteq> []"
    using that i1 by (cases rs) (simp_all add: drain_round_def q_front_def)
  have "queue_len i z1 = length rs" using i1 by (simp add: queue_len_def)
  then show ?thesis
    using len one two by (cases rs) (simp_all add: worker_drain_def)
qed

theorem worker_drain_bad_unlock_witness:
  "worker_drain (emu_params (2 * IO_BLOCKS) 2) 0 (emu_zoad (2 * IO_BLOCKS) 2 [new_IO_request_delete DELETE 0])
   = Inl (BadUnlock ''io_queue_lock'')"
proof -
  let ?r = "new_IO_request_delete DELETE 0"
  define z where "z = emu_zoad (2 * IO_BLOCKS) 2 [?r]"
  obtain z1 where "serve (emu_params (2 * IO_BLOCKS) 2) ''Wrong request type'' ?r (set_part 0 ((zs_parts z ! 0)\<lparr>pt_io_queue := []\<rparr>) z) = Inr z1"
    by (simp add: serve_def user_delete_def get_user_def set_part_def z_def emu_zoad_def new_Userdata_def Delete_def acquire_def
        new_IO_request_delete_def WRITE_def READ_def READ_RANDOM_def DELETE_def)
  then show ?thesis
    unfolding z_def [symmetric]
    by (intro worker_drain_bad_unlock [of 0 z ?r "[]"]) (simp_all add: z_def emu_zoad_def)
qed

end
