(* ===== verification/Zoad_API.thy ===== *)
theory Zoad_API
  imports Zoad_Worker
begin

text \<open>
  \<^verbatim>\<open>src/util/zoad/zoad.cpp\<close>: the calls an application makes. The global mutex is \<open>zs_lock\<close>;
  every call starts by taking it. The messages the calls print are left out.
\<close>

section \<open>The global lock and the lookup of a partition\<close>

definition lock_all :: "'d zoad \<Rightarrow> 'd zoad res" where
  "lock_all z = (if zs_lock z then Inl (Deadlock ''partition_lock'') else Inr (z\<lparr>zs_lock := True\<rparr>))"

definition unlock_all :: "'d zoad \<Rightarrow> 'd zoad res" where
  "unlock_all z = (if zs_lock z then Inr (z\<lparr>zs_lock := False\<rparr>) else Inl (BadUnlock ''partition_lock''))"

text \<open>The first partition of a list with a given property of its object.\<close>

fun first_part :: "'d zoad \<Rightarrow> (Partition \<Rightarrow> bool) \<Rightarrow> nat list \<Rightarrow> nat option res" where
  "first_part z f [] = Inr None"
| "first_part z f (i # is) =
     ebind (vec_at (zs_parts z) i) (\<lambda>p. if f p then Inr (Some i) else first_part z f is)"

text \<open>
  The frame of the calls on one partition: the global lock is released before the partition
  is used. \<open>clears\<close> says whether the call clears its flag \<^verbatim>\<open>locked\<close> when the user is
  unknown; a call that does not releases the lock a second time.
\<close>

definition on_partition ::
  "bool \<Rightarrow> nat \<Rightarrow> nat \<Rightarrow> (nat \<Rightarrow> 'd zoad \<Rightarrow> (int \<times> 'd zoad) res) \<Rightarrow> 'd zoad \<Rightarrow> (int \<times> 'd zoad) res" where
  "on_partition clears uid lp_id f z =
     ebind (lock_all z) (\<lambda>z.
       case zs_user_map z uid of
         None \<Rightarrow>
           ebind (unlock_all z) (\<lambda>z.
             if clears then Inr (-1, z) else ebind (unlock_all z) (\<lambda>z. Inr (-1, z)))
       | Some partition_list \<Rightarrow>
           ebind (first_part z (\<lambda>p. pt_id p = lp_id) partition_list) (\<lambda>x.
             case x of
               None \<Rightarrow> ebind (unlock_all z) (\<lambda>z. Inr (-1, z))
             | Some i \<Rightarrow> ebind (unlock_all z) (f i)))"

section \<open>Flush\<close>

definition z_flush_on ::
  "'d params \<Rightarrow> string \<Rightarrow> byte list \<Rightarrow> nat \<Rightarrow> nat \<Rightarrow> nat \<Rightarrow> 'd zoad \<Rightarrow> (int \<times> 'd zoad) res" where
  "z_flush_on pm data_name buf n flag i z =
     ebind (mem_read buf 0 n) (\<lambda>req_buf.
     ebind (vec_at (zs_parts z) i) (\<lambda>p.
     ebind (lock_partition p) (\<lambda>p.
     ebind (get_status p) (\<lambda>st.
     let ret = (if st \<noteq> OPEN then -1 else 0) in
     ebind (if userdata_exist data_name p then ebind (get_userdata data_name p) (\<lambda>u. Inr (u, p, z))
            else
              let u = length (zs_users z)
              in Inr (u, new_userdata data_name u p,
                      z\<lparr>zs_users := zs_users z @ [Some (new_Userdata (pm_seg0 pm) i)]\<rparr>)) (\<lambda>(u, p, z).
     ebind (new_request (new_IO_request_write WRITE req_buf n u) p) (\<lambda>p.
     ebind (unlock_partition p) (\<lambda>p. Inr (ret, set_part i p z))))))))"

definition z_flush ::
  "'d params \<Rightarrow> nat \<Rightarrow> nat \<Rightarrow> string \<Rightarrow> byte list \<Rightarrow> nat \<Rightarrow> nat \<Rightarrow> 'd zoad \<Rightarrow> (int \<times> 'd zoad) res" where
  "z_flush pm uid lp_id data_name buf n flag =
     on_partition True uid lp_id (z_flush_on pm data_name buf n flag)"

section \<open>Load\<close>

definition with_userdata ::
  "string \<Rightarrow> (nat \<Rightarrow> 'd zoad \<Rightarrow> 'd zoad res) \<Rightarrow> nat \<Rightarrow> 'd zoad \<Rightarrow> (int \<times> 'd zoad) res" where
  "with_userdata data_name f i z =
     ebind (vec_at (zs_parts z) i) (\<lambda>p.
     ebind (lock_partition p) (\<lambda>p.
     ebind (get_status p) (\<lambda>st.
     let ret = (if st \<noteq> OPEN then -1 else 0) in
     if userdata_exist data_name p then
       ebind (get_userdata data_name p) (\<lambda>u.
       ebind (unlock_partition p) (\<lambda>p.
       ebind (f u (set_part i p z)) (\<lambda>z. Inr (ret, z))))
     else ebind (unlock_partition p) (\<lambda>p. Inr (-1, set_part i p z)))))"

definition z_load_all_on :: "'d params \<Rightarrow> string \<Rightarrow> nat \<Rightarrow> nat \<Rightarrow> nat \<Rightarrow> 'd zoad \<Rightarrow> (int \<times> 'd zoad) res" where
  "z_load_all_on pm data_name buf n = with_userdata data_name (\<lambda>u. user_read_all pm u buf n)"

definition z_load_on ::
  "'d params \<Rightarrow> string \<Rightarrow> nat \<Rightarrow> nat \<Rightarrow> nat \<Rightarrow> nat \<Rightarrow> 'd zoad \<Rightarrow> (int \<times> 'd zoad) res" where
  "z_load_on pm data_name buf offset n = with_userdata data_name (\<lambda>u. user_read pm u buf offset n)"

definition z_load_all ::
  "'d params \<Rightarrow> nat \<Rightarrow> nat \<Rightarrow> string \<Rightarrow> nat \<Rightarrow> nat \<Rightarrow> 'd zoad \<Rightarrow> (int \<times> 'd zoad) res" where
  "z_load_all pm uid lp_id data_name buf n = on_partition True uid lp_id (z_load_all_on pm data_name buf n)"

definition z_load ::
  "'d params \<Rightarrow> nat \<Rightarrow> nat \<Rightarrow> string \<Rightarrow> nat \<Rightarrow> nat \<Rightarrow> nat \<Rightarrow> 'd zoad \<Rightarrow> (int \<times> 'd zoad) res" where
  "z_load pm uid lp_id data_name buf offset n =
     on_partition True uid lp_id (z_load_on pm data_name buf offset n)"

section \<open>Sync and delete\<close>

definition user_sync :: "nat \<Rightarrow> 'd zoad \<Rightarrow> 'd zoad res" where
  "user_sync u z = ebind (get_user z u) (\<lambda>d. ebind (Sync d) (\<lambda>(_, d). Inr (set_user u (Some d) z)))"

definition z_sync_on :: "string \<Rightarrow> nat \<Rightarrow> 'd zoad \<Rightarrow> (int \<times> 'd zoad) res" where
  "z_sync_on data_name i z =
     ebind (vec_at (zs_parts z) i) (\<lambda>p.
     ebind (lock_partition p) (\<lambda>p.
     ebind (get_status p) (\<lambda>st.
     let ret = (if st \<noteq> OPEN then -1 else 0) in
     if userdata_exist data_name p then
       ebind (unlock_partition p) (\<lambda>p.
       ebind (get_userdata data_name p) (\<lambda>u.
       ebind (user_sync u (set_part i p z)) (\<lambda>z. Inr (ret, z))))
     else ebind (unlock_partition p) (\<lambda>p. Inr (-1, set_part i p z)))))"

definition z_sync :: "nat \<Rightarrow> nat \<Rightarrow> string \<Rightarrow> 'd zoad \<Rightarrow> (int \<times> 'd zoad) res" where
  "z_sync uid lp_id data_name = on_partition False uid lp_id (z_sync_on data_name)"

definition z_del_on :: "string \<Rightarrow> nat \<Rightarrow> 'd zoad \<Rightarrow> (int \<times> 'd zoad) res" where
  "z_del_on data_name i z =
     ebind (vec_at (zs_parts z) i) (\<lambda>p.
     ebind (lock_partition p) (\<lambda>p.
     ebind (get_status p) (\<lambda>st.
     ebind (if userdata_exist data_name p then
              ebind (get_userdata data_name p) (\<lambda>u.
              ebind (new_request (new_IO_request_delete DELETE u) (invalid_userdata data_name p)) (\<lambda>p.
                Inr (if st \<noteq> OPEN then -1 else 0, p)))
            else Inr (-1, p)) (\<lambda>(ret, p).
     ebind (unlock_partition p) (\<lambda>p. Inr (ret, set_part i p z))))))"

definition z_del :: "nat \<Rightarrow> nat \<Rightarrow> string \<Rightarrow> 'd zoad \<Rightarrow> (int \<times> 'd zoad) res" where
  "z_del uid lp_id data_name = on_partition False uid lp_id (z_del_on data_name)"

section \<open>Opening, closing and deleting partitions\<close>

text \<open>Erase the first entry with the id from the list of open partitions of the kind.\<close>

fun erase_id :: "'d zoad \<Rightarrow> nat \<Rightarrow> nat list \<Rightarrow> nat list res" where
  "erase_id z lp_id [] = Inr []"
| "erase_id z lp_id (i # is) =
     ebind (vec_at (zs_parts z) i) (\<lambda>p.
       if pt_id p = lp_id then Inr is else ebind (erase_id z lp_id is) (\<lambda>js. Inr (i # js)))"

definition drop_open :: "nat \<Rightarrow> nat \<Rightarrow> 'd zoad \<Rightarrow> 'd zoad res" where
  "drop_open mk_flag lp_id z =
     (case zs_open_list z mk_flag of
        None \<Rightarrow> Inl (Undefined ''open_partition_list'')
      | Some l \<Rightarrow> ebind (erase_id z lp_id l) (\<lambda>l. Inr (z\<lparr>zs_open_list := (zs_open_list z)(mk_flag \<mapsto> l)\<rparr>)))"

definition end_lp :: "(Partition \<Rightarrow> Partition res) \<Rightarrow> nat \<Rightarrow> nat \<Rightarrow> 'd zoad \<Rightarrow> (int \<times> 'd zoad) res" where
  "end_lp f uid lp_id z =
     ebind (lock_all z) (\<lambda>z.
     ebind (case zs_user_map z uid of
              None \<Rightarrow> Inr (-1, z)
            | Some partition_list \<Rightarrow>
                ebind (first_part z (\<lambda>p. pt_id p = lp_id) partition_list) (\<lambda>x.
                  case x of
                    None \<Rightarrow> Inr (-1, z)
                  | Some i \<Rightarrow>
                      ebind (vec_at (zs_parts z) i) (\<lambda>p.
                      ebind (drop_open (pt_mk_flag p) lp_id z) (\<lambda>z.
                      ebind (lock_partition p) (\<lambda>p'.
                      ebind (f p') (\<lambda>p'.
                      ebind (unlock_partition p') (\<lambda>p'.
                        Inr (s32 (int (pt_id p)), set_part i p' z)))))))) (\<lambda>(ret, z).
     ebind (unlock_all z) (\<lambda>z. Inr (ret, z))))"

definition z_closelp :: "nat \<Rightarrow> nat \<Rightarrow> 'd zoad \<Rightarrow> (int \<times> 'd zoad) res" where
  "z_closelp uid lp_id = end_lp Partition_close uid lp_id"

definition z_dellp :: "nat \<Rightarrow> nat \<Rightarrow> 'd zoad \<Rightarrow> (int \<times> 'd zoad) res" where
  "z_dellp uid lp_id = end_lp Partition_del uid lp_id"

definition z_openlp :: "nat \<Rightarrow> string \<Rightarrow> nat \<Rightarrow> 'd zoad \<Rightarrow> (int \<times> 'd zoad) res" where
  "z_openlp uid lp_name flags z =
     ebind (lock_all z) (\<lambda>z.
     ebind (case zs_user_map z uid of
              None \<Rightarrow> Inr (-1, z)
            | Some partition_list \<Rightarrow>
                ebind (first_part z (\<lambda>p. pt_name p = lp_name) partition_list) (\<lambda>x.
                  case x of
                    None \<Rightarrow> Inr (-1, z)
                  | Some i \<Rightarrow>
                      ebind (vec_at (zs_parts z) i) (\<lambda>p.
                      ebind (Partition_open flags p) (\<lambda>p.
                        case zs_open_list z (pt_mk_flag p) of
                          None \<Rightarrow> Inl (Undefined ''open_partition_list'')
                        | Some l \<Rightarrow>
                            Inr (s32 (int (pt_id p)),
                                 set_part i p (z\<lparr>zs_open_list := (zs_open_list z)(pt_mk_flag p \<mapsto> l @ [i])\<rparr>)))))) (\<lambda>(ret, z).
     ebind (unlock_all z) (\<lambda>z. Inr (ret, z))))"

section \<open>Making partitions\<close>

text \<open>The pointer to the new partition, if the IZGs suffice.\<close>

definition mklp :: "'d params \<Rightarrow> string \<Rightarrow> nat \<Rightarrow> nat \<Rightarrow> 'd zoad \<Rightarrow> nat option \<times> 'd zoad" where
  "mklp pm lp_name flags iolevel z =
     (case alloc_izg flags iolevel (wd_pool (zs_world z)) of (izg_cnt, pool) \<Rightarrow>
        let z = z\<lparr>zs_world := (zs_world z)\<lparr>wd_pool := pool\<rparr>\<rparr> in
        if izg_cnt < 0 then (None, z)
        else (Some (length (zs_parts z)),
              z\<lparr>zs_parts := zs_parts z @ [new_Partition (pm_raw pm) (zs_next_partition_id z) lp_name (nat izg_cnt) flags],
                zs_next_partition_id := u32 (zs_next_partition_id z + 1)\<rparr>))"

definition add_part :: "nat \<Rightarrow> nat list \<Rightarrow> nat option \<times> 'd zoad \<Rightarrow> (int \<times> 'd zoad) res" where
  "add_part uid partition_list = (\<lambda>(x, z).
     case x of
       None \<Rightarrow> Inr (-1, z)
     | Some i \<Rightarrow>
         ebind (vec_at (zs_parts z) i) (\<lambda>p.
           Inr (s32 (int (pt_id p)), z\<lparr>zs_user_map := (zs_user_map z)(uid \<mapsto> partition_list @ [i])\<rparr>)))"

definition z_mklp ::
  "'d params \<Rightarrow> nat \<Rightarrow> string \<Rightarrow> string \<Rightarrow> nat \<Rightarrow> nat \<Rightarrow> 'd zoad \<Rightarrow> (int \<times> 'd zoad) res" where
  "z_mklp pm uid dev_name lp_name flags iolevel z =
     ebind (lock_all z) (\<lambda>z.
     ebind (case zs_user_map z uid of
              None \<Rightarrow> add_part uid [] (mklp pm lp_name flags iolevel z)
            | Some partition_list \<Rightarrow>
                ebind (first_part z (\<lambda>p. pt_name p = lp_name) partition_list) (\<lambda>x.
                  case x of
                    Some _ \<Rightarrow> Inr (-1, z)
                  | None \<Rightarrow> add_part uid partition_list (mklp pm lp_name flags iolevel z))) (\<lambda>(ret, z).
     ebind (unlock_all z) (\<lambda>z. Inr (ret, z))))"

text \<open>\<^verbatim>\<open>z_rmlp\<close> has no effect; its result is \<open>-1\<close> as an unsigned number.\<close>

definition z_rmlp :: "nat \<Rightarrow> string \<Rightarrow> nat \<Rightarrow> 'd zoad \<Rightarrow> (nat \<times> 'd zoad) res" where
  "z_rmlp uid dev_name lp_id z =
     ebind (lock_all z) (\<lambda>z. ebind (unlock_all z) (\<lambda>z. Inr (2 ^ 32 - 1, z)))"

section \<open>Start of the library\<close>

definition zoad_init :: "'d params \<Rightarrow> byte list \<Rightarrow> 'd \<Rightarrow> 'd zoad res" where
  "zoad_init pm mem d =
     ebind (Identify_HW (pm_ops pm) ''/dev/nvme0n1'' d) (\<lambda>(_, c).
     ebind (Identify_IZG (pm_ops pm) (c, empty_pool)) (\<lambda>(_, c, pool).
       Inr \<lparr>zs_world = \<lparr>wd_c = c, wd_pool = pool, wd_iv = []\<rparr>, zs_users = [], zs_parts = [],
            zs_next_partition_id = 1, zs_user_map = Map.empty,
            zs_open_list = [MAX_PARTITION \<mapsto> [], QOS_PARTITION \<mapsto> []], zs_lock = False, zs_mem = mem\<rparr>))"

end
