(* ===== verification/Zoad_Registry.thy ===== *)
theory Zoad_Registry
  imports Zoad_API
begin

text \<open>
  What the calls of \<^verbatim>\<open>src/util/zoad/zoad.cpp\<close> and the workers keep: the registry of users,
  partitions and user data. The calls and the iterations of the workers are the steps of a
  transition system; the invariant \<open>lib_ok\<close> holds in every state it reaches.
\<close>

section \<open>The invariant of the registry\<close>

text \<open>
  A queue is safe when no request follows the deletion of its object. \<open>own\<close> gives the
  partition of every live object of user data, \<open>None\<close> for a freed one.
\<close>

fun queue_safe :: "IO_request list \<Rightarrow> bool" where
  "queue_safe [] = True"
| "queue_safe (r # rs) = ((ir_rw r = DELETE \<longrightarrow> ir_data r \<notin> ir_data ` set rs) \<and> queue_safe rs)"

definition deleted_in :: "IO_request list \<Rightarrow> nat set" where
  "deleted_in q = ir_data ` {r \<in> set q. ir_rw r = DELETE}"

definition live :: "nat option list \<Rightarrow> nat \<Rightarrow> nat \<Rightarrow> bool" where
  "live own i u \<longleftrightarrow> u < length own \<and> own ! u = Some i"

definition owners :: "'d zoad \<Rightarrow> nat option list" where
  "owners z = map (map_option ud_partition) (zs_users z)"

definition part_reg :: "nat option list \<Rightarrow> nat \<Rightarrow> Partition \<Rightarrow> bool" where
  "part_reg own i p \<longleftrightarrow>
     \<not> pt_locked p \<and> pt_id p = u32 (i + 1) \<and> (pt_mk_flag p = MAX_PARTITION \<or> pt_mk_flag p = QOS_PARTITION)
     \<and> queue_safe (pt_io_queue p) \<and> (\<forall>r \<in> set (pt_io_queue p). live own i (ir_data r))
     \<and> (\<forall>nm u. pt_userdata_map p nm = Some u \<longrightarrow> live own i u \<and> u \<notin> deleted_in (pt_io_queue p))
     \<and> inj_on (pt_userdata_map p) (dom (pt_userdata_map p))"

definition users_reg :: "Partition list \<Rightarrow> (nat \<rightharpoonup> nat list) \<Rightarrow> bool" where
  "users_reg ps m \<longleftrightarrow>
     (\<forall>uid l. m uid = Some l \<longrightarrow> (\<forall>i \<in> set l. i < length ps) \<and> distinct (map (\<lambda>i. pt_name (ps ! i)) l))
     \<and> (\<forall>uid uid' l l' i. m uid = Some l \<longrightarrow> m uid' = Some l' \<longrightarrow> i \<in> set l \<longrightarrow> i \<in> set l' \<longrightarrow> uid = uid')"

definition opens_reg :: "Partition list \<Rightarrow> (nat \<rightharpoonup> nat list) \<Rightarrow> bool" where
  "opens_reg ps m \<longleftrightarrow> dom m = {MAX_PARTITION, QOS_PARTITION} \<and> (\<forall>f l. m f = Some l \<longrightarrow> (\<forall>i \<in> set l. i < length ps))"

text \<open>The IZGs of the partitions with a quality of service.\<close>

definition qos_izgs :: "Partition list \<Rightarrow> nat" where
  "qos_izgs ps = sum_list (map pt_izg_cnt (filter (\<lambda>p. pt_mk_flag p = QOS_PARTITION) ps))"

abbreviation available_izgs :: "'d zoad \<Rightarrow> nat" where
  "available_izgs z \<equiv> pl_available_izg_cnt (wd_pool (zs_world z))"

definition lib_ok :: "'d zoad \<Rightarrow> bool" where
  "lib_ok z \<longleftrightarrow>
     \<not> zs_lock z \<and> zs_next_partition_id z = u32 (length (zs_parts z) + 1)
     \<and> (\<forall>i < length (zs_parts z). part_reg (owners z) i (zs_parts z ! i))
     \<and> users_reg (zs_parts z) (zs_user_map z) \<and> opens_reg (zs_parts z) (zs_open_list z)
     \<and> qos_izgs (zs_parts z) + available_izgs z = IZG_DISTANCE"

lemma lib_okD:
  assumes "lib_ok z"
  shows "\<not> zs_lock z" "zs_next_partition_id z = u32 (length (zs_parts z) + 1)"
    "i < length (zs_parts z) \<Longrightarrow> part_reg (owners z) i (zs_parts z ! i)"
    "users_reg (zs_parts z) (zs_user_map z)" "opens_reg (zs_parts z) (zs_open_list z)"
    "qos_izgs (zs_parts z) + available_izgs z = IZG_DISTANCE"
  using assms by (simp_all add: lib_ok_def)

lemma part_regD:
  assumes "part_reg own i p"
  shows "\<not> pt_locked p" "pt_id p = u32 (i + 1)" "pt_mk_flag p = MAX_PARTITION \<or> pt_mk_flag p = QOS_PARTITION"
    "queue_safe (pt_io_queue p)" "r \<in> set (pt_io_queue p) \<Longrightarrow> live own i (ir_data r)"
    "pt_userdata_map p nm = Some u \<Longrightarrow> live own i u"
    "pt_userdata_map p nm = Some u \<Longrightarrow> u \<notin> deleted_in (pt_io_queue p)"
    "inj_on (pt_userdata_map p) (dom (pt_userdata_map p))"
  using assms by (auto simp: part_reg_def)

lemma deleted_in_snoc: "deleted_in (q @ [r]) = (if ir_rw r = DELETE then insert (ir_data r) (deleted_in q) else deleted_in q)"
  by (auto simp: deleted_in_def)

lemma deleted_in_Cons: "deleted_in (r # q) = (if ir_rw r = DELETE then insert (ir_data r) (deleted_in q) else deleted_in q)"
  by (auto simp: deleted_in_def)

lemma deleted_in_Nil [simp]: "deleted_in [] = {}"
  by (simp add: deleted_in_def)

lemma queue_safe_snoc: "queue_safe (q @ [r]) \<longleftrightarrow> queue_safe q \<and> ir_data r \<notin> deleted_in q"
  by (induction q) (auto simp: deleted_in_Cons)

text \<open>Only the shape of partitions and objects counts.\<close>

lemma pt_core_sel [simp]:
  "pt_locked (pt_core p) = pt_locked p" "pt_id (pt_core p) = pt_id p" "pt_name (pt_core p) = pt_name p"
  "pt_mk_flag (pt_core p) = pt_mk_flag p" "pt_io_queue (pt_core p) = pt_io_queue p"
  "pt_userdata_map (pt_core p) = pt_userdata_map p" "pt_izg_cnt (pt_core p) = pt_izg_cnt p"
  by (simp_all add: pt_core_def)

lemma part_reg_core: "part_reg own i (pt_core p) = part_reg own i p"
  by (simp add: part_reg_def)

lemma qos_izgs_core: "qos_izgs (map pt_core ps) = qos_izgs ps"
  by (induction ps) (simp_all add: qos_izgs_def)

lemma qos_izgs_upd:
  "pt_izg_cnt p' = pt_izg_cnt (ps ! i) \<Longrightarrow> pt_mk_flag p' = pt_mk_flag (ps ! i) \<Longrightarrow> qos_izgs (ps[i := p']) = qos_izgs ps"
  by (induction ps arbitrary: i) (auto simp: qos_izgs_def split: nat.splits)

lemma lib_ok_shape:
  assumes ok: "lib_ok z" and parts: "map pt_core (zs_parts z') = map pt_core (zs_parts z)"
    and same: "owners z' = owners z" "zs_lock z' = zs_lock z" "zs_next_partition_id z' = zs_next_partition_id z"
      "zs_user_map z' = zs_user_map z" "zs_open_list z' = zs_open_list z" "available_izgs z' = available_izgs z"
  shows "lib_ok z'"
proof -
  have len: "length (zs_parts z') = length (zs_parts z)" using parts by (metis length_map)
  have core: "pt_core (zs_parts z' ! i) = pt_core (zs_parts z ! i)" if "i < length (zs_parts z)" for i
    using parts that len by (metis nth_map)
  then have "part_reg (owners z') i (zs_parts z' ! i)" if "i < length (zs_parts z)" for i
    using lib_okD(3) [OF ok that] that same(1) part_reg_core by metis
  moreover have "pt_name (zs_parts z' ! i) = pt_name (zs_parts z ! i)" if "i < length (zs_parts z)" for i
    using core [OF that] pt_core_sel(3) by metis
  then have "map (\<lambda>i. pt_name (zs_parts z' ! i)) l = map (\<lambda>i. pt_name (zs_parts z ! i)) l"
    if "\<forall>i \<in> set l. i < length (zs_parts z)" for l using that by simp
  then have "users_reg (zs_parts z') (zs_user_map z)"
    using lib_okD(4) [OF ok] unfolding users_reg_def len by metis
  ultimately show ?thesis
    using ok same len qos_izgs_core [of "zs_parts z"] qos_izgs_core [of "zs_parts z'"] parts
    unfolding lib_ok_def opens_reg_def by simp
qed

lemma users_reg_set_part:
  assumes "users_reg ps m" "pt_name p' = pt_name (ps ! i)"
  shows "users_reg (ps[i := p']) m"
proof -
  have "pt_name (ps[i := p'] ! j) = pt_name (ps ! j)" if "j < length ps" for j
    using assms(2) that by (cases "j = i") simp_all
  then have "map (\<lambda>j. pt_name (ps[i := p'] ! j)) l = map (\<lambda>j. pt_name (ps ! j)) l" if "\<forall>j \<in> set l. j < length ps" for l
    using that by simp
  then show ?thesis using assms(1) unfolding users_reg_def by (metis length_list_update)
qed

lemma lib_ok_set_part:
  assumes ok: "lib_ok z" and p': "part_reg (owners z) i p'" "pt_name p' = pt_name (zs_parts z ! i)"
    "pt_izg_cnt p' = pt_izg_cnt (zs_parts z ! i)" "pt_mk_flag p' = pt_mk_flag (zs_parts z ! i)"
  shows "lib_ok (set_part i p' z)"
proof -
  have "part_reg (owners z) j ((zs_parts z)[i := p'] ! j)" if "j < length (zs_parts z)" for j
    using lib_okD(3) [OF ok that] p'(1) that by (cases "j = i") simp_all
  then show ?thesis
    using ok users_reg_set_part [OF lib_okD(4) [OF ok] p'(2)] qos_izgs_upd [OF p'(3,4)]
    by (simp add: lib_ok_def set_part_def owners_def opens_reg_def)
qed

section \<open>Requests keep the invariant\<close>

lemma owners_set_user:
  assumes "u < length (zs_users z)" "zs_users z ! u = Some d" "ud_partition d' = ud_partition d"
  shows "owners (set_user u (Some d') z) = owners z"
proof -
  have "map_option ud_partition (Some d') = map (map_option ud_partition) (zs_users z) ! u" using assms by simp
  then show ?thesis unfolding owners_def set_user_def by (metis list_update_id map_update zoad.select_convs(2) zoad.surjective zoad.update_convs(2))
qed

lemma append_owner: "Append ops past b n (u, pw) = Inr (r, u', pw') \<Longrightarrow> ud_partition u' = ud_partition u"
  by (auto simp: Append_def Let_def acquire_def release_def fault_simps split: if_splits)

lemma get_userD: "get_user z u = Inr d \<Longrightarrow> u < length (zs_users z) \<and> zs_users z ! u = Some d"
  by (auto simp: get_user_def vec_at_def fault_simps split: if_splits option.splits)

lemma vec_atD: "vec_at xs i = Inr x \<Longrightarrow> i < length xs \<and> x = xs ! i"
  by (auto simp: vec_at_def split: if_splits)

lemma user_append_lib:
  assumes "lib_ok z" "user_append pm u b n z = Inr z'"
  shows "lib_ok z'"
proof -
  obtain d p r d' p' w' where g: "get_user z u = Inr d" "vec_at (zs_parts z) (ud_partition d) = Inr p"
    "Append (pm_ops pm) (pm_past pm) b n (d, p, zs_world z) = Inr (r, d', p', w')"
    "z' = set_user u (Some d') (set_part (ud_partition d) p' (z\<lparr>zs_world := w'\<rparr>))"
    using assms(2) by (auto simp: user_append_def fault_simps)
  have "map pt_core (zs_parts z') = map pt_core (zs_parts z)"
    using append_coreD(1) [OF g(3)] vec_atD [OF g(2)] by (simp add: g(4) set_user_def set_part_def part_core_upd)
  moreover have "owners z' = owners z"
    unfolding g(4) using get_userD [OF g(1)] append_owner [OF g(3)]
    by (subst owners_set_user [of _ _ d]) (simp_all add: set_part_def owners_def)
  ultimately show ?thesis
    using append_coreD(2) [OF g(3)] by (rule_tac lib_ok_shape [OF assms(1)]) (simp_all add: g(4) set_user_def set_part_def)
qed

lemma user_read_lib:
  assumes "lib_ok z" "user_read pm u q a n z = Inr z'"
  shows "lib_ok z'"
proof -
  obtain d p r p' m' where g: "get_user z u = Inr d" "vec_at (zs_parts z) (ud_partition d) = Inr p"
    "Read (pm_ops pm) q a n d (p, zs_world z) (zs_mem z) = Inr (r, p', m')"
    "z' = set_part (ud_partition d) p' (z\<lparr>zs_mem := m'\<rparr>)"
    using assms(2) by (auto simp: user_read_def fault_simps)
  have "map pt_core (zs_parts z') = map pt_core (zs_parts z)"
    using read_core [OF g(3)] vec_atD [OF g(2)] by (simp add: g(4) set_part_def part_core_upd)
  then show ?thesis
    by (rule_tac lib_ok_shape [OF assms(1)]) (simp_all add: g(4) set_part_def owners_def)
qed

lemma user_read_all_lib: "lib_ok z \<Longrightarrow> user_read_all pm u q n z = Inr z' \<Longrightarrow> lib_ok z'"
  by (auto simp: user_read_all_def fault_simps lib_ok_def owners_def)

lemma user_sync_lib:
  assumes "lib_ok z" "user_sync u z = Inr z'"
  shows "lib_ok z'"
proof -
  obtain d r d' where g: "get_user z u = Inr d" "Sync d = Inr (r, d')" "z' = set_user u (Some d') z"
    using assms(2) by (auto simp: user_sync_def fault_simps)
  have "ud_partition d' = ud_partition d"
    using g(2) by (auto simp: Sync_def acquire_def release_def fault_simps split: if_splits)
  then have "owners z' = owners z" unfolding g(3) using get_userD [OF g(1)] by (intro owners_set_user) simp_all
  then show ?thesis by (rule_tac lib_ok_shape [OF assms(1)]) (simp_all add: g(3) set_user_def)
qed

text \<open>Freeing an object nothing refers to any more.\<close>

lemma part_reg_free:
  assumes "part_reg own j p" "live own i u"
    and "j = i \<Longrightarrow> u \<notin> ir_data ` set (pt_io_queue p) \<and> (\<forall>nm. pt_userdata_map p nm \<noteq> Some u)"
  shows "part_reg (own[u := None]) j p"
proof -
  have keep: "live (own[u := None]) j v" if "live own j v" "j = i \<Longrightarrow> v \<noteq> u" for v
  proof -
    have "v \<noteq> u" using that assms(2) by (auto simp: live_def)
    then show ?thesis using that(1) by (simp add: live_def)
  qed
  note R = part_regD [OF assms(1)]
  have "live (own[u := None]) j (ir_data r)" if "r \<in> set (pt_io_queue p)" for r
    using R(5) [OF that] assms(3) that by (intro keep) auto
  moreover have "live (own[u := None]) j v" if "pt_userdata_map p nm = Some v" for nm v
    using R(6) [OF that] assms(3) that by (intro keep) auto
  ultimately show ?thesis using assms(1) by (simp add: part_reg_def)
qed

lemma user_delete_lib:
  assumes ok: "lib_ok z" and i: "i < length (zs_parts z)" and l: "live (owners z) i u"
    and none: "u \<notin> ir_data ` set (pt_io_queue (zs_parts z ! i))" "\<And>nm. pt_userdata_map (zs_parts z ! i) nm \<noteq> Some u"
    and run: "user_delete u z = Inr z'"
  shows "lib_ok z'"
proof -
  obtain w' where z': "z' = set_user u None (z\<lparr>zs_world := w'\<rparr>)" "wd_pool w' = wd_pool (zs_world z)"
    using run by (auto simp: user_delete_def Delete_def Let_def fault_simps)
  have "owners z' = (owners z)[u := None]" by (simp add: z'(1) owners_def set_user_def map_update)
  moreover have "part_reg ((owners z)[u := None]) j (zs_parts z ! j)" if "j < length (zs_parts z)" for j
    using none by (intro part_reg_free [OF lib_okD(3) [OF ok that] l]) blast
  ultimately show ?thesis using ok by (simp add: lib_ok_def z' set_user_def)
qed

lemma worker_iter_lib:
  assumes ok: "lib_ok z" and run: "worker_iter pm i z = Inr (c, z')"
  shows "lib_ok z'"
proof -
  obtain p where p: "i < length (zs_parts z)" "p = zs_parts z ! i" using run by (auto simp: worker_iter_def fault_simps vec_at_def split: if_splits)
  note R = lib_okD(3) [OF ok p(1), folded p(2)]
  show ?thesis
  proof (cases "pt_io_queue p")
    case Nil
    then show ?thesis using run ok p by (auto simp: worker_iter_def q_empty_def fault_simps split: if_splits)
  next
    case (Cons r rs)
    let ?p1 = "p\<lparr>pt_io_queue := rs\<rparr>" and ?z1 = "set_part i (p\<lparr>pt_io_queue := rs\<rparr>) z"
    have s: "serve pm ''WHAT??'' r ?z1 = Inr z'"
      using run p Cons by (auto simp: worker_iter_def q_empty_def q_front_def q_pop_def fault_simps split: if_splits)
    have "part_reg (owners z) i ?p1"
      using R Cons by (auto simp: part_reg_def deleted_in_Cons split: if_splits)
    then have ok1: "lib_ok ?z1" using p by (intro lib_ok_set_part [OF ok]) simp_all
    show ?thesis
    proof (cases "ir_rw r = DELETE")
      case True
      have "user_delete (ir_data r) ?z1 = Inr z'"
        using s True by (simp add: serve_def WRITE_def READ_def READ_RANDOM_def DELETE_def)
      then show ?thesis
      proof (rule user_delete_lib [OF ok1, of i, rotated 4])
        show "i < length (zs_parts ?z1)" using p by (simp add: set_part_def)
        show "live (owners ?z1) i (ir_data r)" using part_regD(5) [OF R] Cons by (simp add: set_part_def owners_def)
        show "ir_data r \<notin> ir_data ` set (pt_io_queue (zs_parts ?z1 ! i))"
          using part_regD(4) [OF R] Cons True p by (simp add: set_part_def)
        show "pt_userdata_map (zs_parts ?z1 ! i) nm \<noteq> Some (ir_data r)" for nm
          using part_regD(7) [OF R, of nm "ir_data r"] Cons True p by (auto simp: set_part_def deleted_in_Cons)
      qed
    next
      case False
      then show ?thesis
        using s ok1 by (auto simp: serve_def split: if_splits intro: user_append_lib user_read_lib user_read_all_lib)
    qed
  qed
qed

section \<open>Calls keep the invariant\<close>

lemma first_partD: "first_part z f l = Inr (Some i) \<Longrightarrow> i \<in> set l \<and> i < length (zs_parts z) \<and> f (zs_parts z ! i)"
  by (induction l) (auto simp: fault_simps vec_at_def split: if_splits)

lemma first_part_none: "first_part z f l = Inr None \<Longrightarrow> i \<in> set l \<Longrightarrow> \<not> f (zs_parts z ! i)"
  by (induction l) (auto simp: fault_simps vec_at_def split: if_splits)

lemma lock_free: "\<not> zs_lock z \<Longrightarrow> z\<lparr>zs_lock := False\<rparr> = z"
  by (cases z) simp

lemma on_partition_lib:
  assumes ok: "lib_ok z" and run: "on_partition clears uid lp f z = Inr (r, z')"
    and f: "\<And>i. i < length (zs_parts z) \<Longrightarrow> f i z = Inr (r, z') \<Longrightarrow> lib_ok z'"
  shows "lib_ok z'"
proof -
  have free: "\<not> zs_lock z" "z\<lparr>zs_lock := False\<rparr> = z" using lib_okD(1) [OF ok] lock_free by blast+
  show ?thesis
  proof (cases "zs_user_map z uid")
    case None
    then show ?thesis
      using run ok free by (auto simp: on_partition_def lock_all_def unlock_all_def split: if_splits)
  next
    case (Some l)
    then obtain x where x: "first_part (z\<lparr>zs_lock := True\<rparr>) (\<lambda>p. pt_id p = lp) l = Inr x"
      using run free by (auto simp: on_partition_def lock_all_def fault_simps)
    show ?thesis
    proof (cases x)
      case None
      then show ?thesis using run ok free Some x by (auto simp: on_partition_def lock_all_def unlock_all_def)
    next
      case (Some i)
      then have "f i z = Inr (r, z')" using run free \<open>zs_user_map z uid = Some l\<close> x
        by (simp add: on_partition_def lock_all_def unlock_all_def)
      then show ?thesis using f first_partD x Some by fastforce
    qed
  qed
qed

lemma live_more: "live own i u \<Longrightarrow> live (own @ xs) i u"
  by (simp add: live_def nth_append)

lemma part_reg_more: "part_reg own j p \<Longrightarrow> part_reg (own @ xs) j p"
  by (auto simp: part_reg_def live_more)

lemma part_unlocked: "\<not> pt_locked p \<Longrightarrow> p\<lparr>pt_locked := False\<rparr> = p"
  by (cases p) simp

lemma part_reg_write:
  assumes R: "part_reg own i p" and u: "live own i u" "u \<notin> deleted_in (pt_io_queue p)" and w: "ir_rw r \<noteq> DELETE" "ir_data r = u"
  shows "part_reg own i (p\<lparr>pt_io_queue := pt_io_queue p @ [r]\<rparr>)"
  using R u w by (auto simp: part_reg_def queue_safe_snoc deleted_in_snoc)

lemma inj_on_name:
  assumes "inj_on m (dom m)" "\<And>nm' v. m nm' = Some v \<Longrightarrow> v \<noteq> u"
  shows "inj_on (m(nm \<mapsto> u)) (dom (m(nm \<mapsto> u)))"
proof (rule inj_onI)
  fix a b assume ab: "a \<in> dom (m(nm \<mapsto> u))" "b \<in> dom (m(nm \<mapsto> u))" "(m(nm \<mapsto> u)) a = (m(nm \<mapsto> u)) b"
  show "a = b"
  proof (cases "a = nm \<or> b = nm")
    case True
    then show ?thesis using ab(3) assms(2) by (auto split: if_splits) metis
  next
    case False
    then show ?thesis using ab inj_onD [OF assms(1), of a b] by (auto simp: dom_def)
  qed
qed

lemma part_reg_name:
  assumes R: "part_reg own i p" and u: "u = length own"
  shows "part_reg (own @ [Some i]) i (p\<lparr>pt_userdata_map := (pt_userdata_map p)(nm \<mapsto> u)\<rparr>)"
proof -
  have lt: "v \<noteq> u" if "pt_userdata_map p nm' = Some v" for nm' v using part_regD(6) [OF R that] u by (simp add: live_def)
  have n: "u \<notin> deleted_in (pt_io_queue p)"
    using part_regD(5) [OF R] u by (force simp: deleted_in_def live_def)
  have l: "live (own @ [Some i]) i u" using u by (simp add: live_def)
  note R' = part_reg_more [OF R, of "[Some i]"]
  have "live (own @ [Some i]) i v \<and> v \<notin> deleted_in (pt_io_queue p)" if "((pt_userdata_map p)(nm \<mapsto> u)) nm' = Some v" for nm' v
    using that n l part_regD(6,7) [OF R', of nm' v] by (cases "nm' = nm") simp_all
  then show ?thesis
    using part_regD(1-5) [OF R'] inj_on_name [OF part_regD(8) [OF R'] lt] unfolding part_reg_def by simp
qed

lemma part_reg_delete:
  assumes R: "part_reg own i p" and nm: "pt_userdata_map p nm = Some u" and r: "ir_rw r = DELETE" "ir_data r = u"
  shows "part_reg own i (p\<lparr>pt_userdata_map := (pt_userdata_map p)(nm := None), pt_io_queue := pt_io_queue p @ [r]\<rparr>)"
proof -
  have other: "v \<noteq> u" if "pt_userdata_map p nm' = Some v" "nm' \<noteq> nm" for nm' v
    using part_regD(8) [OF R] nm that unfolding inj_on_def dom_def by force
  have "inj_on ((pt_userdata_map p)(nm := None)) (dom (pt_userdata_map p) - {nm})"
    using part_regD(8) [OF R] by (auto simp: inj_on_def)
  then show ?thesis
    using R r other part_regD(6,7) [OF R nm] by (auto simp: part_reg_def queue_safe_snoc deleted_in_snoc)
qed

lemma lib_ok_new_user:
  assumes "lib_ok z"
  shows "lib_ok (z\<lparr>zs_users := zs_users z @ [x]\<rparr>)"
proof -
  have "owners (z\<lparr>zs_users := zs_users z @ [x]\<rparr>) = owners z @ [map_option ud_partition x]" by (simp add: owners_def)
  then show ?thesis using assms part_reg_more unfolding lib_ok_def by fastforce
qed

text \<open>What a flush does to a partition that is not deleted.\<close>

definition flushed :: "'d params \<Rightarrow> string \<Rightarrow> byte list \<Rightarrow> nat \<Rightarrow> 'd zoad \<Rightarrow> 'd zoad" where
  "flushed pm nm data i z =
     (let p = zs_parts z ! i in
      case pt_userdata_map p nm of
        Some u \<Rightarrow> set_part i (p\<lparr>pt_io_queue := pt_io_queue p @ [new_IO_request_write WRITE data (length data) u]\<rparr>) z
      | None \<Rightarrow>
          let u = length (zs_users z) in
          set_part i (p\<lparr>pt_userdata_map := (pt_userdata_map p)(nm \<mapsto> u),
                        pt_io_queue := pt_io_queue p @ [new_IO_request_write WRITE data (length data) u]\<rparr>)
            (z\<lparr>zs_users := zs_users z @ [Some (new_Userdata (pm_seg0 pm) i)]\<rparr>))"

lemma z_flush_on_eq:
  assumes "i < length (zs_parts z)" "\<not> pt_locked (zs_parts z ! i)" "\<not> pt_deleted (zs_parts z ! i)" "n \<le> length b"
  shows "z_flush_on pm nm b n fl i z =
     Inr (if pt_status (zs_parts z ! i) = OPEN then 0 else -1, flushed pm nm (take n b) i z)"
proof -
  have "mem_read b 0 n = Inr (take n b)" using assms(4) by (simp add: mem_read_def)
  moreover have "length (take n b) = n" using assms(4) by simp
  ultimately show ?thesis
    using assms(1-3)
    by (cases "pt_userdata_map (zs_parts z ! i) nm")
       (simp_all add: z_flush_on_def flushed_def lock_partition_def unlock_partition_def get_status_def alive_def
         userdata_exist_def get_userdata_def new_userdata_def new_request_def q_push_def Let_def part_unlocked)
qed

lemma flushed_lib:
  assumes ok: "lib_ok z" and i: "i < length (zs_parts z)"
  shows "lib_ok (flushed pm nm data i z)"
proof -
  define p where "p = zs_parts z ! i"
  note R = lib_okD(3) [OF ok i, folded p_def]
  define r where "r = new_IO_request_write WRITE data (length data)"
  have w: "ir_rw (r u) \<noteq> DELETE" "ir_data (r u) = u" for u by (simp_all add: r_def new_IO_request_write_def WRITE_def DELETE_def)
  show ?thesis
  proof (cases "pt_userdata_map p nm")
    case (Some u)
    then show ?thesis
      using part_reg_write [OF R part_regD(6,7) [OF R Some] w] lib_ok_set_part [OF ok, of i]
      by (simp add: flushed_def p_def r_def Let_def)
  next
    case None
    let ?u = "length (zs_users z)"
    let ?p1 = "p\<lparr>pt_userdata_map := (pt_userdata_map p)(nm \<mapsto> ?u)\<rparr>"
    let ?z1 = "z\<lparr>zs_users := zs_users z @ [Some (new_Userdata (pm_seg0 pm) i)]\<rparr>"
    have own: "owners ?z1 = owners z @ [Some i]" "length (owners z) = ?u" by (simp_all add: owners_def new_Userdata_def)
    have R1: "part_reg (owners ?z1) i ?p1" unfolding own(1) by (rule part_reg_name [OF R]) (simp add: own)
    have "part_reg (owners ?z1) i (?p1\<lparr>pt_io_queue := pt_io_queue ?p1 @ [r ?u]\<rparr>)"
      by (rule part_reg_write [OF R1 part_regD(6,7) [OF R1, of nm ?u] w]) simp_all
    from lib_ok_set_part [OF lib_ok_new_user [OF ok] this] show ?thesis
      using None by (simp add: flushed_def p_def r_def Let_def)
  qed
qed

lemma z_flush_on_lib:
  assumes ok: "lib_ok z" and i: "i < length (zs_parts z)" and run: "z_flush_on pm nm b n fl i z = Inr (r, z')"
  shows "lib_ok z'"
proof -
  have l: "\<not> pt_locked (zs_parts z ! i)" by (rule part_regD(1) [OF lib_okD(3) [OF ok i]])
  have "n \<le> length b" "\<not> pt_deleted (zs_parts z ! i)"
    using run i l by (auto simp: z_flush_on_def mem_read_def lock_partition_def get_status_def alive_def fault_simps split: if_splits)
  from z_flush_on_eq [OF i l this(2,1), of pm nm fl] have "z' = flushed pm nm (take n b) i z" using run by simp
  then show ?thesis using flushed_lib [OF ok i] by simp
qed

text \<open>The calls that look an object up by its name; a deleted partition is never used.\<close>

lemma with_userdata_eq:
  assumes "i < length (zs_parts z)" "\<not> pt_locked (zs_parts z ! i)"
  shows "with_userdata nm f i z =
     (if pt_deleted (zs_parts z ! i) then Inl (UseAfterFree ''Partition'')
      else case pt_userdata_map (zs_parts z ! i) nm of
             None \<Rightarrow> Inr (-1, z)
           | Some u \<Rightarrow> ebind (f u z) (\<lambda>z'. Inr (if pt_status (zs_parts z ! i) = OPEN then 0 else -1, z')))"
proof -
  have "set_part i (zs_parts z ! i) z = z" by (simp add: set_part_def)
  then show ?thesis
    using assms by (simp add: with_userdata_def lock_partition_def unlock_partition_def get_status_def alive_def userdata_exist_def
        get_userdata_def Let_def part_unlocked split: option.splits)
qed

lemma z_sync_on_eq:
  assumes "i < length (zs_parts z)" "\<not> pt_locked (zs_parts z ! i)"
  shows "z_sync_on nm i z = with_userdata nm user_sync i z"
proof -
  have "set_part i (zs_parts z ! i) z = z" by (simp add: set_part_def)
  then show ?thesis
    using assms by (simp add: with_userdata_eq z_sync_on_def lock_partition_def unlock_partition_def get_status_def alive_def
        userdata_exist_def get_userdata_def Let_def part_unlocked split: option.splits)
qed

lemma z_del_on_eq:
  assumes "i < length (zs_parts z)" "\<not> pt_locked (zs_parts z ! i)" "p = zs_parts z ! i"
  shows "z_del_on nm i z =
     (if pt_deleted p then Inl (UseAfterFree ''Partition'')
      else case pt_userdata_map p nm of
             None \<Rightarrow> Inr (-1, z)
           | Some u \<Rightarrow> Inr (if pt_status p = OPEN then 0 else -1,
               set_part i (p\<lparr>pt_userdata_map := (pt_userdata_map p)(nm := None),
                             pt_io_queue := pt_io_queue p @ [new_IO_request_delete DELETE u]\<rparr>) z))"
proof -
  have "set_part i (zs_parts z ! i) z = z" by (simp add: set_part_def)
  then show ?thesis
    using assms by (simp add: z_del_on_def lock_partition_def unlock_partition_def get_status_def alive_def userdata_exist_def
        get_userdata_def invalid_userdata_def new_request_def q_push_def part_unlocked split: option.splits)
qed

lemma with_userdata_lib:
  assumes ok: "lib_ok z" and i: "i < length (zs_parts z)" and run: "with_userdata nm f i z = Inr (r, z')"
    and f: "\<And>u. f u z = Inr z' \<Longrightarrow> lib_ok z'"
  shows "lib_ok z'"
  using run ok with_userdata_eq [OF i part_regD(1) [OF lib_okD(3) [OF ok i]], of nm f]
  by (auto simp: fault_simps split: if_splits option.splits intro: f)

lemma z_sync_on_lib:
  assumes ok: "lib_ok z" and i: "i < length (zs_parts z)" and run: "z_sync_on nm i z = Inr (r, z')"
  shows "lib_ok z'"
  using run unfolding z_sync_on_eq [OF i part_regD(1) [OF lib_okD(3) [OF ok i]]]
  by (rule with_userdata_lib [OF ok i]) (rule user_sync_lib [OF ok])

lemma z_del_on_lib:
  assumes ok: "lib_ok z" and i: "i < length (zs_parts z)" and run: "z_del_on nm i z = Inr (r, z')"
  shows "lib_ok z'"
proof -
  note R = lib_okD(3) [OF ok i]
  show ?thesis
  proof (cases "pt_userdata_map (zs_parts z ! i) nm")
    case None
    then show ?thesis using run ok by (auto simp: z_del_on_eq [OF i part_regD(1) [OF R] refl] split: if_splits)
  next
    case (Some u)
    let ?p1 = "(zs_parts z ! i)\<lparr>pt_userdata_map := (pt_userdata_map (zs_parts z ! i))(nm := None),
       pt_io_queue := pt_io_queue (zs_parts z ! i) @ [new_IO_request_delete DELETE u]\<rparr>"
    have "part_reg (owners z) i ?p1"
      by (rule part_reg_delete [OF R Some]) (simp_all add: new_IO_request_delete_def)
    then have "lib_ok (set_part i ?p1 z)" by (intro lib_ok_set_part [OF ok]) simp_all
    then show ?thesis using run Some by (auto simp: z_del_on_eq [OF i part_regD(1) [OF R] refl] split: if_splits)
  qed
qed

lemma erase_idD: "erase_id z lp l = Inr l' \<Longrightarrow> set l' \<subseteq> set l"
  by (induction l arbitrary: l') (auto simp: fault_simps split: if_splits)

lemma drop_open_lib:
  assumes ok: "lib_ok z" and run: "drop_open f lp (z\<lparr>zs_lock := b\<rparr>) = Inr z'"
  shows "lib_ok (z'\<lparr>zs_lock := False\<rparr>)" "zs_parts z' = zs_parts z" "zs_lock z' = b" "zs_users z' = zs_users z"
proof -
  obtain l l' where l: "zs_open_list z f = Some l" "erase_id (z\<lparr>zs_lock := b\<rparr>) lp l = Inr l'"
    "z' = z\<lparr>zs_lock := b, zs_open_list := (zs_open_list z)(f \<mapsto> l')\<rparr>"
    using run by (auto simp: drop_open_def fault_simps split: option.splits)
  show "zs_parts z' = zs_parts z" "zs_lock z' = b" "zs_users z' = zs_users z" by (simp_all add: l(3))
  have "opens_reg (zs_parts z) ((zs_open_list z)(f \<mapsto> l'))"
    using lib_okD(5) [OF ok] l(1) erase_idD [OF l(2)] by (auto simp: opens_reg_def)
  then show "lib_ok (z'\<lparr>zs_lock := False\<rparr>)" using ok by (simp add: lib_ok_def l(3) owners_def)
qed

text \<open>What a step on a partition leaves of its registration.\<close>

definition same_reg :: "Partition \<Rightarrow> Partition \<Rightarrow> bool" where
  "same_reg p q \<longleftrightarrow> pt_locked p = pt_locked q \<and> pt_id p = pt_id q \<and> pt_name p = pt_name q \<and> pt_mk_flag p = pt_mk_flag q
     \<and> pt_izg_cnt p = pt_izg_cnt q \<and> pt_io_queue p = pt_io_queue q \<and> pt_userdata_map p = pt_userdata_map q"

lemma part_reg_same: "part_reg own i q \<Longrightarrow> same_reg p q \<Longrightarrow> part_reg own i p"
  by (simp add: part_reg_def same_reg_def)

lemma lifecycle_same:
  "Partition_open fl p = Inr q \<Longrightarrow> same_reg q p" "Partition_close p = Inr q \<Longrightarrow> same_reg q p" "Partition_del p = Inr q \<Longrightarrow> same_reg q p"
  by (auto simp: Partition_open_def Partition_close_def Partition_del_def alive_def same_reg_def fault_simps split: if_splits)

lemma end_lp_lib:
  assumes ok: "lib_ok z" and run: "end_lp f uid lp z = Inr (r, z')" and f: "\<And>p q. f p = Inr q \<Longrightarrow> same_reg q p"
  shows "lib_ok z'"
proof -
  have free: "\<not> zs_lock z" "z\<lparr>zs_lock := False\<rparr> = z" using lib_okD(1) [OF ok] lock_free by blast+
  let ?z = "z\<lparr>zs_lock := True\<rparr>"
  show ?thesis
  proof (cases "\<exists>l i. zs_user_map z uid = Some l \<and> first_part ?z (\<lambda>p. pt_id p = lp) l = Inr (Some i)")
    case False
    then have "z' = z"
      using run free by (auto simp: end_lp_def lock_all_def unlock_all_def fault_simps split: option.splits)
    then show ?thesis using ok by simp
  next
    case True
    then obtain l i where l: "zs_user_map z uid = Some l" "first_part ?z (\<lambda>p. pt_id p = lp) l = Inr (Some i)" by blast
    have i: "i < length (zs_parts z)" using first_partD [OF l(2)] by simp
    let ?p = "zs_parts z ! i"
    have nl: "\<not> pt_locked ?p" using part_regD(1) [OF lib_okD(3) [OF ok i]] .
    obtain z1 q where g: "drop_open (pt_mk_flag ?p) lp ?z = Inr z1" "f (?p\<lparr>pt_locked := True\<rparr>) = Inr q"
      "z' = (set_part i (q\<lparr>pt_locked := False\<rparr>) z1)\<lparr>zs_lock := False\<rparr>"
      using run free l i nl
      by (auto simp: end_lp_def lock_all_def unlock_all_def lock_partition_def unlock_partition_def fault_simps split: if_splits)
    note z1 = drop_open_lib [OF ok g(1)]
    have "part_reg (owners z) i (q\<lparr>pt_locked := False\<rparr>)"
      using lib_okD(3) [OF ok i] f [OF g(2)] by (simp add: part_reg_def same_reg_def)
    moreover have "owners (z1\<lparr>zs_lock := False\<rparr>) = owners z" using z1(4) by (simp add: owners_def)
    moreover have "pt_name (q\<lparr>pt_locked := False\<rparr>) = pt_name ?p" "pt_izg_cnt (q\<lparr>pt_locked := False\<rparr>) = pt_izg_cnt ?p"
      "pt_mk_flag (q\<lparr>pt_locked := False\<rparr>) = pt_mk_flag ?p" using f [OF g(2)] by (simp_all add: same_reg_def)
    ultimately have "lib_ok (set_part i (q\<lparr>pt_locked := False\<rparr>) (z1\<lparr>zs_lock := False\<rparr>))"
      using z1(2) by (intro lib_ok_set_part [OF z1(1)]) simp_all
    then show ?thesis unfolding g(3) by (cases z1) (simp add: set_part_def)
  qed
qed

lemma z_openlp_lib:
  assumes ok: "lib_ok z" and run: "z_openlp uid nm fl z = Inr (r, z')"
  shows "lib_ok z'"
proof -
  have free: "\<not> zs_lock z" "z\<lparr>zs_lock := False\<rparr> = z" using lib_okD(1) [OF ok] lock_free by blast+
  let ?z = "z\<lparr>zs_lock := True\<rparr>"
  show ?thesis
  proof (cases "\<exists>l i. zs_user_map z uid = Some l \<and> first_part ?z (\<lambda>p. pt_name p = nm) l = Inr (Some i)")
    case False
    then have "z' = z"
      using run free by (auto simp: z_openlp_def lock_all_def unlock_all_def fault_simps split: option.splits)
    then show ?thesis using ok by simp
  next
    case True
    then obtain l i where l: "zs_user_map z uid = Some l" "first_part ?z (\<lambda>p. pt_name p = nm) l = Inr (Some i)" by blast
    have i: "i < length (zs_parts z)" using first_partD [OF l(2)] by simp
    let ?p = "zs_parts z ! i"
    obtain q ol where g: "Partition_open fl ?p = Inr q" "zs_open_list z (pt_mk_flag q) = Some ol"
      "z' = set_part i q (z\<lparr>zs_open_list := (zs_open_list z)(pt_mk_flag q \<mapsto> ol @ [i]), zs_lock := False\<rparr>)"
      using run free l i
      by (auto simp: z_openlp_def lock_all_def unlock_all_def set_part_def fault_simps split: option.splits)
    note same = lifecycle_same(1) [OF g(1)]
    let ?z1 = "z\<lparr>zs_open_list := (zs_open_list z)(pt_mk_flag q \<mapsto> ol @ [i])\<rparr>"
    have "opens_reg (zs_parts z) ((zs_open_list z)(pt_mk_flag q \<mapsto> ol @ [i]))"
      using lib_okD(5) [OF ok] g(2) i by (auto simp: opens_reg_def)
    then have "lib_ok ?z1" using ok by (simp add: lib_ok_def owners_def)
    moreover have "part_reg (owners ?z1) i q" "pt_name q = pt_name ?p" "pt_izg_cnt q = pt_izg_cnt ?p" "pt_mk_flag q = pt_mk_flag ?p"
      using part_reg_same [OF lib_okD(3) [OF ok i] same] same by (simp_all add: owners_def same_reg_def)
    ultimately have "lib_ok (set_part i q ?z1)" by (intro lib_ok_set_part) simp_all
    moreover have "z' = set_part i q ?z1" using free g(3) by (cases z) simp
    ultimately show ?thesis by simp
  qed
qed

text \<open>Registering a new partition.\<close>

lemma alloc_izg_flags: "alloc_izg fl lv p = (n, p') \<Longrightarrow> \<not> n < 0 \<Longrightarrow> fl = MAX_PARTITION \<or> fl = QOS_PARTITION"
  by (auto simp: alloc_izg_def Let_def split: if_splits)

lemma alloc_izg_budget:
  assumes "alloc_izg fl lv p = (n, p')" "pl_available_izg_cnt p \<le> IZG_DISTANCE"
  shows "n < 0 \<Longrightarrow> pl_available_izg_cnt p' = pl_available_izg_cnt p"
    "\<not> n < 0 \<Longrightarrow> (if fl = QOS_PARTITION then nat n else 0) + pl_available_izg_cnt p' = pl_available_izg_cnt p"
  using assms by (auto simp: alloc_izg_def Let_def u32_sub_def IZG_DISTANCE_def partition_flags split: if_splits)

lemma users_reg_add:
  assumes U: "users_reg ps m" and l: "m uid = (if new then None else Some l)" "new \<Longrightarrow> l = []"
    and nm: "\<And>i. i \<in> set l \<Longrightarrow> pt_name (ps ! i) \<noteq> pt_name p"
  shows "users_reg (ps @ [p]) (m(uid \<mapsto> l @ [length ps]))"
proof -
  let ?m = "m(uid \<mapsto> l @ [length ps])"
  have old: "(\<forall>i \<in> set l'. i < length ps) \<and> distinct (map (\<lambda>i. pt_name (ps ! i)) l')" if "m v = Some l' \<or> l' = l \<and> v = uid" for v l'
    using U that l by (cases new) (auto simp: users_reg_def)
  have names: "map (\<lambda>i. pt_name ((ps @ [p]) ! i)) l' = map (\<lambda>i. pt_name (ps ! i)) l'" if "\<forall>i \<in> set l'. i < length ps" for l'
    using that by (simp add: nth_append)
  have "(\<forall>i \<in> set l'. i < length (ps @ [p])) \<and> distinct (map (\<lambda>i. pt_name ((ps @ [p]) ! i)) l')" if v: "?m v = Some l'" for v l'
  proof (cases "v = uid")
    case True
    then have l': "l' = l @ [length ps]" using v by simp
    have "pt_name p \<notin> set (map (\<lambda>i. pt_name (ps ! i)) l)" using nm unfolding set_map image_iff by metis
    moreover have "map (\<lambda>i. pt_name ((ps @ [p]) ! i)) (l @ [length ps]) = map (\<lambda>i. pt_name (ps ! i)) l @ [pt_name p]"
      using old [of uid l] names [of l] by simp
    ultimately have "distinct (map (\<lambda>i. pt_name ((ps @ [p]) ! i)) (l @ [length ps]))"
      using old [of uid l] by (simp only: distinct_append) auto
    then show ?thesis using old [of uid l] unfolding l' by (auto intro: less_SucI)
  next
    case False
    then have "m v = Some l'" using v by simp
    then show ?thesis using old [of v l'] names [of l'] by (metis length_append_singleton less_SucI)
  qed
  moreover have "v = v'" if "?m v = Some l1" "?m v' = Some l2" "i \<in> set l1" "i \<in> set l2" for v v' l1 l2 i
  proof -
    have old_or_new: "i = length ps \<and> w = uid \<or> (\<exists>l3. m w = Some l3 \<and> i \<in> set l3)" if "?m w = Some l'" "i \<in> set l'" for w l'
      using that l by (cases "w = uid"; cases new) auto
    have "i < length ps" if "m w = Some l3" "i \<in> set l3" for w l3 using U that by (simp add: users_reg_def)
    then show ?thesis using old_or_new that U unfolding users_reg_def by (metis less_irrefl)
  qed
  ultimately show ?thesis unfolding users_reg_def by blast
qed

lemma add_part_lib:
  assumes ok: "lib_ok z" and run: "add_part uid l (mklp pm nm fl lv (z\<lparr>zs_lock := True\<rparr>)) = Inr (r, z')"
    and l: "zs_user_map z uid = (if new then None else Some l)" "new \<Longrightarrow> l = []"
    and nm: "\<And>i. i \<in> set l \<Longrightarrow> pt_name (zs_parts z ! i) \<noteq> nm"
  shows "lib_ok (z'\<lparr>zs_lock := False\<rparr>)" "zs_lock z'"
proof -
  obtain n pl where a: "alloc_izg fl lv (wd_pool (zs_world z)) = (n, pl)" by force
  have avail: "available_izgs z \<le> IZG_DISTANCE" using lib_okD(6) [OF ok] by simp
  let ?w = "(zs_world z)\<lparr>wd_pool := pl\<rparr>"
  let ?i = "length (zs_parts z)"
  let ?p = "new_Partition (pm_raw pm) (zs_next_partition_id z) nm (nat n) fl"
  have "lib_ok (z'\<lparr>zs_lock := False\<rparr>) \<and> zs_lock z'"
  proof (cases "n < 0")
    case True
    then have "z' = z\<lparr>zs_world := ?w, zs_lock := True\<rparr>"
      using run a by (cases z) (auto simp: add_part_def mklp_def)
    then show ?thesis using ok alloc_izg_budget(1) [OF a avail True] by (simp add: lib_ok_def owners_def)
  next
    case False
    let ?ps = "zs_parts z @ [?p]"
    have z': "z' = z\<lparr>zs_world := ?w, zs_lock := True, zs_parts := ?ps, zs_next_partition_id := u32 (zs_next_partition_id z + 1),
        zs_user_map := (zs_user_map z)(uid \<mapsto> l @ [?i])\<rparr>"
      using run a False by (cases z) (auto simp: add_part_def mklp_def Let_def vec_at_def nth_append)
    have next_id: "u32 (zs_next_partition_id z + 1) = u32 (Suc ?i + 1)"
      using lib_okD(2) [OF ok] by (simp add: u32_def mod_Suc_eq)
    have "part_reg (owners z) ?i ?p"
      using lib_okD(2) [OF ok] alloc_izg_flags [OF a False] by (auto simp: part_reg_def new_Partition_def)
    then have parts: "part_reg (owners z) j (?ps ! j)" if "j < Suc ?i" for j
      using that lib_okD(3) [OF ok] by (cases "j = ?i") (simp_all add: nth_append)
    have "users_reg ?ps ((zs_user_map z)(uid \<mapsto> l @ [?i]))"
      using nm by (intro users_reg_add [OF lib_okD(4) [OF ok] l]) (auto simp: new_Partition_def)
    moreover have "opens_reg ?ps (zs_open_list z)"
      using lib_okD(5) [OF ok] by (auto simp: opens_reg_def intro: less_SucI)
    moreover have "qos_izgs ?ps + pl_available_izg_cnt pl = IZG_DISTANCE"
      using alloc_izg_budget(2) [OF a avail False] lib_okD(6) [OF ok]
      by (simp add: qos_izgs_def new_Partition_def split: if_splits)
    ultimately show ?thesis using parts next_id unfolding z' by (simp add: lib_ok_def owners_def)
  qed
  then show "lib_ok (z'\<lparr>zs_lock := False\<rparr>)" "zs_lock z'" by simp_all
qed

lemma z_mklp_lib:
  assumes ok: "lib_ok z" and run: "z_mklp pm uid dev nm fl lv z = Inr (r, z')"
  shows "lib_ok z'"
proof -
  have free: "\<not> zs_lock z" "z\<lparr>zs_lock := False\<rparr> = z" using lib_okD(1) [OF ok] lock_free by blast+
  let ?z = "z\<lparr>zs_lock := True\<rparr>"
  have add: "lib_ok z'" if run1: "ebind (add_part uid l (mklp pm nm fl lv ?z)) (\<lambda>(ret, z). ebind (unlock_all z) (\<lambda>z. Inr (ret, z))) = Inr (r, z')"
    and m: "zs_user_map z uid = (if new then None else Some l)" "new \<Longrightarrow> l = []" "\<And>i. i \<in> set l \<Longrightarrow> pt_name (zs_parts z ! i) \<noteq> nm" for l new
  proof -
    obtain z1 where z1: "add_part uid l (mklp pm nm fl lv ?z) = Inr (r, z1)" "z' = z1\<lparr>zs_lock := False\<rparr>"
      using run1 by (auto simp: unlock_all_def fault_simps split: if_splits)
    from add_part_lib(1) [OF ok this(1) m] show ?thesis by (simp add: z1(2))
  qed
  show ?thesis
  proof (cases "zs_user_map z uid")
    case None
    then show ?thesis using run free by (intro add [of "[]" True]) (simp_all add: z_mklp_def lock_all_def)
  next
    case (Some l)
    obtain x where x: "first_part ?z (\<lambda>p. pt_name p = nm) l = Inr x"
      using run free Some by (auto simp: z_mklp_def lock_all_def fault_simps)
    show ?thesis
    proof (cases x)
      case None
      have "pt_name (zs_parts z ! i) \<noteq> nm" if "i \<in> set l" for i
        using first_part_none [OF x [unfolded None] that] by simp
      then show ?thesis using run free x None \<open>zs_user_map z uid = Some l\<close>
        by (intro add [of l False]) (simp_all add: z_mklp_def lock_all_def)
    next
      case (Some i)
      then have "z' = z" using run free x \<open>zs_user_map z uid = Some l\<close>
        by (auto simp: z_mklp_def lock_all_def unlock_all_def)
      then show ?thesis using ok by simp
    qed
  qed
qed

lemma z_rmlp_lib: "lib_ok z \<Longrightarrow> z_rmlp uid dev lp z = Inr (r, z') \<Longrightarrow> lib_ok z'"
  by (auto simp: z_rmlp_def lock_all_def unlock_all_def lib_ok_def owners_def fault_simps split: if_splits)

lemma opens_reg_start: "opens_reg [] [MAX_PARTITION \<mapsto> [], QOS_PARTITION \<mapsto> []]"
  by (auto simp: opens_reg_def)

lemma identify_available: "Identify_IZG ops cp = Inr (r, c, p) \<Longrightarrow> pl_available_izg_cnt p = IZG_DISTANCE"
  by (cases cp) (auto simp: Identify_IZG_def Let_def fault_simps)

lemma zoad_init_lib: "zoad_init pm mem d = Inr z \<Longrightarrow> lib_ok z"
  using opens_reg_start
  by (auto simp: zoad_init_def fault_simps lib_ok_def users_reg_def u32_def qos_izgs_def dest: identify_available)

section \<open>The library as a transition system\<close>

text \<open>
  A step is a call of an application, an iteration of the worker of a partition or a write of
  the application to its own memory, in any order. A call that faults ends the program and is no step.
\<close>

inductive lib_step :: "'d params \<Rightarrow> 'd zoad \<Rightarrow> 'd zoad \<Rightarrow> bool" for pm where
  flush: "z_flush pm uid lp nm b n fl z = Inr (r, z') \<Longrightarrow> lib_step pm z z'"
| load_all: "z_load_all pm uid lp nm q n z = Inr (r, z') \<Longrightarrow> lib_step pm z z'"
| load: "z_load pm uid lp nm q off n z = Inr (r, z') \<Longrightarrow> lib_step pm z z'"
| sync: "z_sync uid lp nm z = Inr (r, z') \<Longrightarrow> lib_step pm z z'"
| del: "z_del uid lp nm z = Inr (r, z') \<Longrightarrow> lib_step pm z z'"
| mklp: "z_mklp pm uid dev nm fl lv z = Inr (r, z') \<Longrightarrow> lib_step pm z z'"
| rmlp: "z_rmlp uid dev lp z = Inr (n, z') \<Longrightarrow> lib_step pm z z'"
| openlp: "z_openlp uid nm fl z = Inr (r, z') \<Longrightarrow> lib_step pm z z'"
| closelp: "z_closelp uid lp z = Inr (r, z') \<Longrightarrow> lib_step pm z z'"
| dellp: "z_dellp uid lp z = Inr (r, z') \<Longrightarrow> lib_step pm z z'"
| worker: "worker_iter pm i z = Inr (c, z') \<Longrightarrow> lib_step pm z z'"
| memory: "lib_step pm z (z\<lparr>zs_mem := m\<rparr>)"

inductive reachable :: "'d params \<Rightarrow> 'd zoad \<Rightarrow> bool" for pm where
  start: "zoad_init pm mem d = Inr z \<Longrightarrow> reachable pm z"
| step: "reachable pm z \<Longrightarrow> lib_step pm z z' \<Longrightarrow> reachable pm z'"

lemma z_flush_lib:
  assumes ok: "lib_ok z" and run: "z_flush pm uid lp nm b n fl z = Inr (r, z')"
  shows "lib_ok z'"
  using run unfolding z_flush_def by (rule on_partition_lib [OF ok]) (blast intro: z_flush_on_lib [OF ok])

lemma z_load_lib:
  assumes ok: "lib_ok z" and run: "z_load pm uid lp nm q off n z = Inr (r, z')"
  shows "lib_ok z'"
  using run unfolding z_load_def z_load_on_def by (rule on_partition_lib [OF ok]) (blast intro: with_userdata_lib [OF ok] user_read_lib [OF ok])

lemma z_load_all_lib:
  assumes ok: "lib_ok z" and run: "z_load_all pm uid lp nm q n z = Inr (r, z')"
  shows "lib_ok z'"
  using run unfolding z_load_all_def z_load_all_on_def by (rule on_partition_lib [OF ok]) (blast intro: with_userdata_lib [OF ok] user_read_all_lib [OF ok])

lemma z_sync_lib:
  assumes ok: "lib_ok z" and run: "z_sync uid lp nm z = Inr (r, z')"
  shows "lib_ok z'"
  using run unfolding z_sync_def by (rule on_partition_lib [OF ok]) (blast intro: z_sync_on_lib [OF ok])

lemma z_del_lib:
  assumes ok: "lib_ok z" and run: "z_del uid lp nm z = Inr (r, z')"
  shows "lib_ok z'"
  using run unfolding z_del_def by (rule on_partition_lib [OF ok]) (blast intro: z_del_on_lib [OF ok])

lemma end_lib:
  assumes "lib_ok z"
  shows "z_closelp uid lp z = Inr (r, z') \<Longrightarrow> lib_ok z'" "z_dellp uid lp z = Inr (r, z') \<Longrightarrow> lib_ok z'"
  using end_lp_lib [OF assms] lifecycle_same(2,3) unfolding z_closelp_def z_dellp_def by blast+

lemma memory_lib: "lib_ok z \<Longrightarrow> lib_ok (z\<lparr>zs_mem := m\<rparr>)"
  by (simp add: lib_ok_def owners_def)

lemma lib_step_lib: "lib_step pm z z' \<Longrightarrow> lib_ok z \<Longrightarrow> lib_ok z'"
  by (induction rule: lib_step.induct)
     (blast dest: z_flush_lib z_load_all_lib z_load_lib z_sync_lib z_del_lib z_mklp_lib z_rmlp_lib z_openlp_lib
        end_lib worker_iter_lib memory_lib)+

lemma reachable_lib: "reachable pm z \<Longrightarrow> lib_ok z"
  by (induction rule: reachable.induct) (auto intro: zoad_init_lib lib_step_lib)

section \<open>Finding partitions\<close>

lemma first_part_lock [simp]: "first_part (z\<lparr>zs_lock := b\<rparr>) f l = first_part z f l"
  by (induction l) (simp_all cong: if_cong)

lemma first_part_found:
  "\<forall>j \<in> set l. j < length (zs_parts z) \<Longrightarrow> i \<in> set l \<Longrightarrow> f (zs_parts z ! i)
   \<Longrightarrow> (\<forall>j \<in> set l. j \<noteq> i \<longrightarrow> \<not> f (zs_parts z ! j)) \<Longrightarrow> first_part z f l = Inr (Some i)"
proof (induction l)
  case (Cons j l)
  then show ?case by (cases "j = i") simp_all
qed simp

text \<open>The partitions of a user are found by their ids.\<close>

lemma on_partition_found:
  assumes ok: "lib_ok z" and few: "length (zs_parts z) < 2 ^ 32 - 1"
    and l: "zs_user_map z uid = Some l" "i \<in> set l"
  shows "on_partition clears uid (i + 1) f z = f i z"
proof -
  have lt: "\<forall>j \<in> set l. j < length (zs_parts z)" using lib_okD(4) [OF ok] l(1) by (simp add: users_reg_def)
  have id: "pt_id (zs_parts z ! j) = j + 1" if "j \<in> set l" for j
    using part_regD(2) [OF lib_okD(3) [OF ok]] lt that few by (simp add: u32_def)
  have "first_part z (\<lambda>p. pt_id p = i + 1) l = Inr (Some i)"
    by (rule first_part_found [OF lt l(2)]) (use id l(2) in auto)
  then show ?thesis
    using l(1) lib_okD(1) [OF ok] by (simp add: on_partition_def lock_all_def unlock_all_def lock_free)
qed

section \<open>Flush and load\<close>

lemma z_flush_eq:
  assumes ok: "lib_ok z" and few: "length (zs_parts z) < 2 ^ 32 - 1" and l: "zs_user_map z uid = Some l" "i \<in> set l"
    and d: "\<not> pt_deleted (zs_parts z ! i)" and n: "n \<le> length b"
  shows "z_flush pm uid (i + 1) nm b n fl z =
     Inr (if pt_status (zs_parts z ! i) = OPEN then 0 else -1, flushed pm nm (take n b) i z)"
proof -
  have i: "i < length (zs_parts z)" using lib_okD(4) [OF ok] l by (simp add: users_reg_def)
  show ?thesis
    unfolding z_flush_def on_partition_found [OF ok few l]
    by (rule z_flush_on_eq [OF i part_regD(1) [OF lib_okD(3) [OF ok i]] d n])
qed

lemma z_load_eq:
  assumes ok: "lib_ok z" and few: "length (zs_parts z) < 2 ^ 32 - 1" and l: "zs_user_map z uid = Some l" "i \<in> set l"
    and d: "\<not> pt_deleted (zs_parts z ! i)" and u: "pt_userdata_map (zs_parts z ! i) nm = Some u"
  shows "z_load pm uid (i + 1) nm q off n z =
     ebind (user_read pm u q off n z) (\<lambda>z'. Inr (if pt_status (zs_parts z ! i) = OPEN then 0 else -1, z'))"
proof -
  have i: "i < length (zs_parts z)" using lib_okD(4) [OF ok] l by (simp add: users_reg_def)
  show ?thesis
    unfolding z_load_def z_load_on_def on_partition_found [OF ok few l]
    using d u by (simp add: with_userdata_eq [OF i part_regD(1) [OF lib_okD(3) [OF ok i]]])
qed

text \<open>A flush leaves the data of every object as it is.\<close>

lemma sys_ok_new_user:
  assumes S: "sys_ok pm media hwp zsz nz k z xss" and i: "i < length (zs_parts z)"
  shows "sys_ok pm media hwp zsz nz k (z\<lparr>zs_users := zs_users z @ [Some (new_Userdata s0 i)]\<rparr>) (xss @ [[]])"
proof -
  have "(nz + 1) * zsz < 2 ^ 32" using sys_okD(1) [OF S] by (simp add: world_ok_def dev_sync_def)
  then have H: "holds media zsz nz (pt_izg_cnt (zs_parts z ! i)) (zs_world z) (new_Userdata s0 i) []" by (intro holds_new) simp
  have "ud_partition d < length (zs_parts z)
      \<and> holds media zsz nz (pt_izg_cnt (zs_parts z ! ud_partition d)) (zs_world z) d ((xss @ [[]]) ! u)"
    if u: "u < length (zs_users z @ [Some (new_Userdata s0 i)])" "(zs_users z @ [Some (new_Userdata s0 i)]) ! u = Some d" for u d
  proof (cases "u < length (zs_users z)")
    case True
    then show ?thesis using u(2) sys_okD(6,7) [OF S True, of d] sys_okD(5) [OF S] by (simp add: nth_append)
  next
    case False
    then have ul: "u = length (zs_users z)" using u(1) by simp
    then have "d = new_Userdata s0 i" using u(2) by simp
    note ul this
    then show ?thesis using H i sys_okD(5) [OF S] by (simp add: nth_append new_Userdata_def)
  qed
  then show ?thesis using S unfolding sys_ok_def by simp
qed

lemma flushed_sys:
  assumes S: "sys_ok pm media hwp zsz nz k z xss" and i: "i < length (zs_parts z)"
  shows "sys_ok pm media hwp zsz nz k (flushed pm nm data i z)
     (if pt_userdata_map (zs_parts z ! i) nm = None then xss @ [[]] else xss)"
proof (cases "pt_userdata_map (zs_parts z ! i) nm")
  case None
  from sys_ok_set_part [OF sys_ok_new_user [OF S i], of i] show ?thesis
    using None i by (simp add: flushed_def Let_def)
next
  case (Some u)
  from sys_ok_set_part [OF S i] show ?thesis using Some by (simp add: flushed_def Let_def)
qed

section \<open>Setting up a partition\<close>

text \<open>The device the library starts on, and the sizes for which no counter wraps around.\<close>

definition start_ok :: "'d params \<Rightarrow> ('d \<Rightarrow> nat \<Rightarrow> byte) \<Rightarrow> ('d \<Rightarrow> nat \<Rightarrow> nat) \<Rightarrow> nat \<Rightarrow> nat \<Rightarrow> 'd \<Rightarrow> bool" where
  "start_ok pm media hwp zsz nz d \<longleftrightarrow>
     nvme_ok (pm_ops pm) media hwp zsz nz \<and> nvme_id_ok (pm_ops pm) hwp zsz nz \<and> wp_valid hwp zsz nz d
     \<and> IZG_DISTANCE \<le> nz \<and> nz \<le> REPORT_NUM \<and> 0 < zsz \<and> (nz + 1) * zsz < 2 ^ 32 \<and> IO_BLOCKS dvd zsz
     \<and> (\<exists>x \<in> set (pm_past pm). x \<noteq> 1)"

lemma zoad_init_sys:
  assumes "start_ok pm media hwp zsz nz d"
  shows "\<exists>w. zoad_init pm mem d =
       Inr \<lparr>zs_world = w, zs_users = [], zs_parts = [], zs_next_partition_id = 1, zs_user_map = Map.empty,
            zs_open_list = [MAX_PARTITION \<mapsto> [], QOS_PARTITION \<mapsto> []], zs_lock = False, zs_mem = mem\<rparr>
     \<and> world_ok (pm_ops pm) media hwp zsz nz 0 w \<and> pl_available_izg_cnt (wd_pool w) = 32"
proof -
  have s: "nvme_id_ok (pm_ops pm) hwp zsz nz" "IZG_DISTANCE \<le> nz" "nz \<le> REPORT_NUM" "0 < zsz" "(nz + 1) * zsz < 2 ^ 32"
    "wp_valid hwp zsz nz d" "nvme_ok (pm_ops pm) media hwp zsz nz" "IO_BLOCKS dvd zsz"
    using assms by (simp_all add: start_ok_def)
  have nz: "0 < nz" "nz < 2 ^ 31" using s(2,3) by (simp_all add: IZG_DISTANCE_def REPORT_NUM_def)
  obtain c0 c p where c: "Identify_HW (pm_ops pm) ''/dev/nvme0n1'' d = Inr (0, c0)"
    "Identify_IZG (pm_ops pm) (c0, empty_pool) = Inr (0, c, p)" "dev_sync hwp zsz nz c" "fresh c zsz nz 0"
    "pool_rep nz 0 p" "pl_available_izg_cnt p = 32"
    using identify_device [OF s(1-6), of "''/dev/nvme0n1''"] by (auto simp: fresh_def)
  show ?thesis
    using c s(7,8) by (intro exI [of _ "\<lparr>wd_c = c, wd_pool = p, wd_iv = []\<rparr>"]) (simp add: zoad_init_def world_ok_def)
qed

text \<open>
  Starting the library, making a partition of \<open>izg\<close> IZGs and opening it: the first partition
  gets the id 1, is open, has no zones yet, and every stored object is readable (there is none).
\<close>

definition opened :: "'d params \<Rightarrow> string \<Rightarrow> nat \<Rightarrow> nat \<Rightarrow> Partition" where
  "opened pm nm izg fl = (new_Partition (pm_raw pm) 1 nm izg QOS_PARTITION)\<lparr>pt_status := OPEN, pt_op_flag := fl, pt_thread := True\<rparr>"

lemma new_part_sys:
  assumes "0 < izg" "izg \<le> 512" "izg * zsz < 2147483648"
  shows "part_sys c zsz k (opened pm nm izg fl)"
  using assms new_part_ok [of izg c zsz k]
  by (simp add: part_sys_def opened_def new_Partition_def part_ok_def zone_nos_def mult.commute)

lemma setup_ok:
  assumes st: "start_ok pm media hwp zsz nz d" and izg: "0 < izg" "izg \<le> 32" "izg * zsz < 2147483648"
  shows "\<exists>z0 z1 z. zoad_init pm mem d = Inr z0 \<and> z_mklp pm uid dev nm QOS_PARTITION izg z0 = Inr (1, z1)
     \<and> z_openlp uid nm fl z1 = Inr (1, z) \<and> sys_ok pm media hwp zsz nz 0 z [] \<and> reachable pm z
     \<and> zs_parts z = [opened pm nm izg fl] \<and> zs_user_map z = [uid \<mapsto> [0]] \<and> zs_users z = [] \<and> zs_mem z = mem"
proof -
  obtain w where w: "zoad_init pm mem d =
       Inr \<lparr>zs_world = w, zs_users = [], zs_parts = [], zs_next_partition_id = 1, zs_user_map = Map.empty,
            zs_open_list = [MAX_PARTITION \<mapsto> [], QOS_PARTITION \<mapsto> []], zs_lock = False, zs_mem = mem\<rparr>"
    "world_ok (pm_ops pm) media hwp zsz nz 0 w" "pl_available_izg_cnt (wd_pool w) = 32"
    using zoad_init_sys [OF st, of mem] by blast
  define z0 where "z0 = \<lparr>zs_world = w, zs_users = [], zs_parts = [], zs_next_partition_id = 1, zs_user_map = Map.empty,
            zs_open_list = [MAX_PARTITION \<mapsto> [], QOS_PARTITION \<mapsto> []], zs_lock = False, zs_mem = mem\<rparr>"
  define w1 where "w1 = w\<lparr>wd_pool := (wd_pool w)\<lparr>pl_available_izg_cnt := 32 - izg\<rparr>\<rparr>"
  define q where "q = new_Partition (pm_raw pm) 1 nm izg QOS_PARTITION"
  define z1 where "z1 = z0\<lparr>zs_world := w1, zs_parts := [q], zs_next_partition_id := 2, zs_user_map := [uid \<mapsto> [0]]\<rparr>"
  have "nat (32 - int izg) = 32 - izg" by simp
  then have al: "alloc_izg QOS_PARTITION izg (wd_pool w) = (int izg, (wd_pool w)\<lparr>pl_available_izg_cnt := 32 - izg\<rparr>)"
    using izg w(3) by (simp add: alloc_izg_def Let_def partition_flags s32_id u32_sub_def)
  have mk: "z_mklp pm uid dev nm QOS_PARTITION izg z0 = Inr (1, z1)"
    using al by (simp add: z_mklp_def lock_all_def unlock_all_def mklp_def add_part_def z0_def z1_def w1_def q_def u32_def s32_id new_Partition_def)
  define z where "z = z1\<lparr>zs_parts := [opened pm nm izg fl], zs_open_list := (zs_open_list z1)(QOS_PARTITION \<mapsto> [0])\<rparr>"
  have op: "z_openlp uid nm fl z1 = Inr (1, z)"
    by (simp add: z_openlp_def lock_all_def unlock_all_def z_def z1_def z0_def q_def opened_def new_Partition_def
        Partition_open_def alive_def status_defs set_part_def s32_id)
  have "world_ok (pm_ops pm) media hwp zsz nz 0 w1" using w(2) by (simp add: world_ok_def w1_def pool_rep_def)
  then have "sys_ok pm media hwp zsz nz 0 z []"
    using st izg new_part_sys [of izg zsz] by (simp add: sys_ok_def z_def z1_def z0_def start_ok_def)
  moreover have "reachable pm z"
    using w(1) mk op unfolding z0_def [symmetric]
    by (meson reachable.start reachable.step lib_step.mklp lib_step.openlp)
  ultimately show ?thesis using w(1) mk op unfolding z0_def [symmetric] by (auto simp: z_def z1_def z0_def)
qed

section \<open>What holds in every reachable state\<close>

text \<open>For the witnesses: a partition of one IZG on an emulated device of 40 zones.\<close>

lemma emu_start:
  "start_ok (emu_params (2 * IO_BLOCKS) 40) fst snd (2 * IO_BLOCKS) 40 (emu_init (2 * IO_BLOCKS))"
proof -
  have "nvme_id_ok (emu_ops (2 * IO_BLOCKS) 40) snd (2 * IO_BLOCKS) 40"
    by (rule emu_id_ok) (simp_all add: IO_BLOCKS_def REPORT_NUM_def)
  moreover have "wp_valid snd (2 * IO_BLOCKS) 40 (emu_init (2 * IO_BLOCKS))" by (simp add: wp_valid_def emu_init_def)
  moreover have "nvme_ok (emu_ops (2 * IO_BLOCKS) 40) fst snd (2 * IO_BLOCKS) 40" by (rule emu_ok) simp
  ultimately show ?thesis by (simp add: start_ok_def emu_params_def IO_BLOCKS_def IZG_DISTANCE_def REPORT_NUM_def)
qed

abbreviation emu_pm :: "emu params" where "emu_pm \<equiv> emu_params (2 * IO_BLOCKS) 40"

lemma emu_opened:
  "\<exists>z. reachable emu_pm z \<and> sys_ok emu_pm fst snd (2 * IO_BLOCKS) 40 0 z []
     \<and> zs_parts z = [opened emu_pm ''lp'' 1 0] \<and> zs_user_map z = [7 \<mapsto> [0]] \<and> zs_users z = []
     \<and> zs_mem z = mem"
  using setup_ok [OF emu_start, of 1 mem 7 "''dev''" "''lp''" 0] by (auto simp: IO_BLOCKS_def)

text \<open>A state with a write and a delete request in the queue of its partition.\<close>

lemma opened_sel [simp]:
  "pt_status (opened pm nm izg fl) = OPEN" "pt_deleted (opened pm nm izg fl) = False" "pt_userdata_map (opened pm nm izg fl) = Map.empty"
  "pt_io_queue (opened pm nm izg fl) = []" "pt_izg_cnt (opened pm nm izg fl) = izg"
  by (simp_all add: opened_def new_Partition_def)

lemma emu_flushed:
  "\<exists>z. reachable emu_pm z \<and> zs_user_map z = [7 \<mapsto> [0]] \<and> length (zs_parts z) = 1
     \<and> pt_io_queue (zs_parts z ! 0) = [new_IO_request_write WRITE [1, 2] 2 0] \<and> pt_userdata_map (zs_parts z ! 0) = [''f'' \<mapsto> 0]
     \<and> \<not> pt_deleted (zs_parts z ! 0)"
proof -
  obtain z where z: "reachable emu_pm z" "zs_parts z = [opened emu_pm ''lp'' 1 0]" "zs_user_map z = [7 \<mapsto> [0]]" "zs_users z = []"
    using emu_opened by blast
  have "z_flush emu_pm 7 (0 + 1) ''f'' [1, 2] 2 0 z = Inr (0, flushed emu_pm ''f'' (take 2 [1, 2]) 0 z)"
    using z_flush_eq [OF reachable_lib [OF z(1)], of 7 "[0]" 0 2 "[1, 2]" emu_pm "''f''" 0] z by simp
  then have "reachable emu_pm (flushed emu_pm ''f'' [1, 2] 0 z)"
    using z(1) by (auto intro: reachable.step lib_step.flush)
  then show ?thesis
    using z by (intro exI [of _ "flushed emu_pm ''f'' [1, 2] 0 z"]) (simp add: flushed_def set_part_def numeral_2_eq_2)
qed

text \<open>
  C9: between the calls no lock is held, partition \<open>i\<close> carries the id \<open>i + 1\<close> (modulo
  \<open>2^32\<close>), no two partitions of a user have the same name, and no partition belongs to two users.
\<close>

theorem registry_invariant:
  assumes "reachable pm z"
  shows "\<not> zs_lock z \<and> (\<forall>i < length (zs_parts z). \<not> pt_locked (zs_parts z ! i) \<and> pt_id (zs_parts z ! i) = u32 (i + 1))
     \<and> (\<forall>uid l. zs_user_map z uid = Some l \<longrightarrow>
          (\<forall>i \<in> set l. i < length (zs_parts z)) \<and> distinct (map (\<lambda>i. pt_name (zs_parts z ! i)) l))
     \<and> (\<forall>uid uid' l l'. zs_user_map z uid = Some l \<and> zs_user_map z uid' = Some l' \<and> uid \<noteq> uid' \<longrightarrow> set l \<inter> set l' = {})"
proof -
  note ok = reachable_lib [OF assms]
  have "\<not> pt_locked (zs_parts z ! i) \<and> pt_id (zs_parts z ! i) = u32 (i + 1)" if "i < length (zs_parts z)" for i
    using part_regD(1,2) [OF lib_okD(3) [OF ok that]] by blast
  then show ?thesis using lib_okD(1,4) [OF ok] unfolding users_reg_def by blast
qed

theorem registry_invariant_witness:
  "\<exists>z. reachable emu_pm z \<and> zs_user_map z = [7 \<mapsto> [0]] \<and> pt_id (zs_parts z ! 0) = 1"
proof -
  obtain z where z: "reachable emu_pm z" "zs_user_map z = [7 \<mapsto> [0]]" "length (zs_parts z) = 1" using emu_flushed by blast
  with registry_invariant [OF z(1)] show ?thesis by (auto simp: u32_def)
qed

text \<open>
  C8: between the calls every pointer the library keeps is to a live object. In every reachable
  state every name of every partition stands for an object of that partition that has not been
  freed and whose deletion is not queued, and every request queued for the worker of a partition is
  for an object of that partition that has not been freed.
\<close>

theorem no_use_after_free:
  assumes "reachable pm z" and "i < length (zs_parts z)"
  shows "(\<forall>nm u. pt_userdata_map (zs_parts z ! i) nm = Some u \<longrightarrow>
        (\<exists>d. get_user z u = Inr d \<and> ud_partition d = i)
        \<and> (\<forall>r \<in> set (pt_io_queue (zs_parts z ! i)). ir_rw r = DELETE \<longrightarrow> ir_data r \<noteq> u))
     \<and> (\<forall>r \<in> set (pt_io_queue (zs_parts z ! i)). \<exists>d. get_user z (ir_data r) = Inr d \<and> ud_partition d = i)"
proof -
  have "\<exists>d. get_user z u = Inr d \<and> ud_partition d = i" if "live (owners z) i u" for u
    using that by (auto simp: live_def owners_def get_user_def)
  then show ?thesis
    using part_regD(5-7) [OF lib_okD(3) [OF reachable_lib [OF assms(1)] assms(2)]] unfolding deleted_in_def by blast
qed

theorem no_use_after_free_witness:
  "\<exists>z r d. reachable emu_pm z \<and> pt_userdata_map (zs_parts z ! 0) ''f'' = Some 0 \<and> get_user z 0 = Inr d
     \<and> r \<in> set (pt_io_queue (zs_parts z ! 0)) \<and> (\<exists>d. get_user z (ir_data r) = Inr d \<and> ud_partition d = 0)"
proof -
  obtain z where z: "reachable emu_pm z" "length (zs_parts z) = 1" "pt_userdata_map (zs_parts z ! 0) = [''f'' \<mapsto> 0]"
    "pt_io_queue (zs_parts z ! 0) = [new_IO_request_write WRITE [1, 2] 2 0]" using emu_flushed by blast
  have "0 < length (zs_parts z)" using z(2) by simp
  note safe = no_use_after_free [OF z(1) this]
  obtain d where d: "get_user z 0 = Inr d" using conjunct1 [OF safe, rule_format, of "''f''" 0] z(3) by auto
  have "new_IO_request_write WRITE [1, 2] 2 0 \<in> set (pt_io_queue (zs_parts z ! 0))" using z(4) by simp
  with conjunct2 [OF safe] z(1,3) d show ?thesis by (metis fun_upd_same)
qed

text \<open>
  The calls are single steps here. In the code \<^verbatim>\<open>_z_load\<close> releases the lock of the partition between
  looking the object up and reading it: when a delete and the worker run in between, the read
  is of a freed object.
\<close>

lemma load_races_delete:
  assumes ok: "lib_ok z" and few: "length (zs_parts z) < 2 ^ 32 - 1" and l: "zs_user_map z uid = Some l" "i \<in> set l"
    and p: "\<not> pt_deleted (zs_parts z ! i)" "pt_io_queue (zs_parts z ! i) = []" and u: "pt_userdata_map (zs_parts z ! i) nm = Some u"
    and del: "z_del uid (i + 1) nm z = Inr (r, z1)" and work: "worker_iter pm i z1 = Inr (c, z2)"
  shows "user_read pm u q off n z2 = Inl (UseAfterFree ''Userdata'')"
proof -
  have i: "i < length (zs_parts z)" using lib_okD(4) [OF ok] l by (simp add: users_reg_def)
  have z1: "z1 = set_part i ((zs_parts z ! i)\<lparr>pt_userdata_map := (pt_userdata_map (zs_parts z ! i))(nm := None),
      pt_io_queue := [new_IO_request_delete DELETE u]\<rparr>) z"
    using del p u unfolding z_del_def on_partition_found [OF ok few l] by (auto simp: z_del_on_eq [OF i part_regD(1) [OF lib_okD(3) [OF ok i]] refl])
  have "u < length (zs_users z2) \<and> zs_users z2 ! u = None"
    using work i by (auto simp: z1 worker_iter_def serve_def user_delete_def get_user_def set_user_def set_part_def q_empty_def q_front_def
        new_IO_request_delete_def DELETE_def WRITE_def READ_def READ_RANDOM_def vec_at_def fault_simps split: if_splits option.splits)
  then show ?thesis by (simp add: user_read_def get_user_def)
qed

text \<open>
  C13: the IZGs of the partitions with a quality of service and the IZGs still available
  are always the 32 IZGs of the device: none is given out twice and none is lost.
\<close>

theorem izg_budget:
  assumes "reachable pm z"
  shows "sum_list (map pt_izg_cnt (filter (\<lambda>p. pt_mk_flag p = QOS_PARTITION) (zs_parts z)))
     + pl_available_izg_cnt (wd_pool (zs_world z)) = 32"
  using lib_okD(6) [OF reachable_lib [OF assms]] by (simp add: qos_izgs_def IZG_DISTANCE_def)

theorem izg_budget_witness:
  "\<exists>z. reachable emu_pm z \<and> zs_parts z \<noteq> [] \<and> sum_list (map pt_izg_cnt (filter (\<lambda>p. pt_mk_flag p = QOS_PARTITION) (zs_parts z)))
     + pl_available_izg_cnt (wd_pool (zs_world z)) = 32"
proof -
  obtain z where z: "reachable emu_pm z" "length (zs_parts z) = 1" using emu_flushed by blast
  with izg_budget [OF z(1)] show ?thesis by auto
qed

section \<open>The calls\<close>

text \<open>
  C33: a user without partitions. Flush, load, open, close and delete-partition refuse and change
  nothing; sync and delete release the global lock twice; making a partition gives the user their
  first one when the IZGs suffice, and is refused otherwise.
\<close>

theorem unknown_user:
  assumes "reachable pm z" and "zs_user_map z uid = None"
  shows "z_flush pm uid lp nm b n fl z = Inr (-1, z) \<and> z_load pm uid lp nm q off n z = Inr (-1, z)
     \<and> z_load_all pm uid lp nm q n z = Inr (-1, z) \<and> z_openlp uid nm fl z = Inr (-1, z)
     \<and> z_closelp uid lp z = Inr (-1, z) \<and> z_dellp uid lp z = Inr (-1, z)
     \<and> z_sync uid lp nm z = Inl (BadUnlock ''partition_lock'') \<and> z_del uid lp nm z = Inl (BadUnlock ''partition_lock'')
     \<and> (\<exists>r z'. z_mklp pm uid dev nm mk izg z = Inr (r, z') \<and>
          (if fst (alloc_izg mk izg (wd_pool (zs_world z))) < 0 then r = -1 \<and> zs_user_map z' = zs_user_map z \<and> zs_parts z' = zs_parts z
           else zs_user_map z' = (zs_user_map z)(uid \<mapsto> [length (zs_parts z)]) \<and> length (zs_parts z') = length (zs_parts z) + 1
             \<and> pt_name (zs_parts z' ! length (zs_parts z)) = nm))"
proof -
  have free: "\<not> zs_lock z" using lib_okD(1) [OF reachable_lib [OF assms(1)]] .
  have "z_flush pm uid lp nm b n fl z = Inr (-1, z) \<and> z_load pm uid lp nm q off n z = Inr (-1, z)
     \<and> z_load_all pm uid lp nm q n z = Inr (-1, z)
     \<and> z_sync uid lp nm z = Inl (BadUnlock ''partition_lock'') \<and> z_del uid lp nm z = Inl (BadUnlock ''partition_lock'')"
    using free assms(2)
    by (simp add: z_flush_def z_load_def z_load_all_def z_sync_def z_del_def on_partition_def lock_all_def unlock_all_def lock_free)
  moreover have "z_openlp uid nm fl z = Inr (-1, z) \<and> z_closelp uid lp z = Inr (-1, z) \<and> z_dellp uid lp z = Inr (-1, z)"
    using free assms(2) by (simp add: z_openlp_def z_closelp_def z_dellp_def end_lp_def lock_all_def unlock_all_def lock_free)
  moreover have "\<exists>r z'. z_mklp pm uid dev nm mk izg z = Inr (r, z') \<and>
          (if fst (alloc_izg mk izg (wd_pool (zs_world z))) < 0 then r = -1 \<and> zs_user_map z' = zs_user_map z \<and> zs_parts z' = zs_parts z
           else zs_user_map z' = (zs_user_map z)(uid \<mapsto> [length (zs_parts z)]) \<and> length (zs_parts z') = length (zs_parts z) + 1
             \<and> pt_name (zs_parts z' ! length (zs_parts z)) = nm)"
    using free assms(2) by (auto simp: z_mklp_def mklp_def add_part_def new_Partition_def lock_all_def unlock_all_def Let_def split: prod.split)
  ultimately show ?thesis by blast
qed

theorem unknown_user_witness:
  "\<exists>z r z'. reachable emu_pm z \<and> z_flush emu_pm 8 1 ''f'' [] 0 0 z = Inr (-1, z) \<and> z_closelp 8 1 z = Inr (-1, z)
     \<and> z_sync 8 1 ''f'' z = Inl (BadUnlock ''partition_lock'') \<and> z_mklp emu_pm 8 ''dev'' ''f'' QOS_PARTITION 1 z = Inr (r, z')"
proof -
  obtain z where z: "reachable emu_pm z" "zs_user_map z = [7 \<mapsto> [0]]" using emu_flushed by blast
  then have "zs_user_map z 8 = None" by simp
  from unknown_user [OF z(1) this, of 1 "''f''" "[]" 0 0 0 0 "''dev''" QOS_PARTITION 1] z(1) show ?thesis by blast
qed

text \<open>
  C31: a flush into an existing partition queues one write request with a copy of the
  buffer, behind the requests already there, for the object of that name, which is created when
  the name is new; nothing is written yet, no other partition changes. The result is 0 on an
  open partition; on a closed one it is -1, and the request is queued all the same.
\<close>

theorem z_flush_queues:
  assumes "reachable pm z" and "length (zs_parts z) < 2 ^ 32 - 1" and "zs_user_map z uid = Some l" and "i \<in> set l"
    and "\<not> pt_deleted (zs_parts z ! i)" and "n \<le> length b"
  shows "\<exists>z' u. z_flush pm uid (i + 1) nm b n fl z = Inr (if pt_status (zs_parts z ! i) = OPEN then 0 else -1, z')
     \<and> u = (case pt_userdata_map (zs_parts z ! i) nm of Some v \<Rightarrow> v | None \<Rightarrow> length (zs_users z))
     \<and> pt_userdata_map (zs_parts z' ! i) = (pt_userdata_map (zs_parts z ! i))(nm \<mapsto> u)
     \<and> pt_io_queue (zs_parts z' ! i) = pt_io_queue (zs_parts z ! i) @ [new_IO_request_write WRITE (take n b) n u]
     \<and> zs_world z' = zs_world z \<and> (\<forall>j. j \<noteq> i \<longrightarrow> zs_parts z' ! j = zs_parts z ! j)"
proof -
  note ok = reachable_lib [OF assms(1)]
  have i: "i < length (zs_parts z)" using lib_okD(4) [OF ok] assms(3,4) by (simp add: users_reg_def)
  have "length (take n b) = n" using assms(6) by simp
  then show ?thesis
    unfolding z_flush_eq [OF ok assms(2-6)] using i
    by (cases "pt_userdata_map (zs_parts z ! i) nm") (auto simp: flushed_def set_part_def Let_def)
qed

theorem z_flush_queues_witness:
  "\<exists>z z'. reachable emu_pm z \<and> z_flush emu_pm 7 1 ''g'' [5, 6, 7] 2 0 z = Inr (0, z')
     \<and> pt_io_queue (zs_parts z' ! 0) = [new_IO_request_write WRITE [5, 6] 2 0]"
proof -
  obtain z where z: "reachable emu_pm z" "zs_parts z = [opened emu_pm ''lp'' 1 0]" "zs_user_map z = [7 \<mapsto> [0]]" "zs_users z = []"
    using emu_opened by blast
  obtain z' where "z_flush emu_pm 7 1 ''g'' [5, 6, 7] 2 0 z = Inr (0, z')"
    "pt_io_queue (zs_parts z' ! 0) = [new_IO_request_write WRITE [5, 6] 2 0]"
    using z_flush_queues [OF z(1), of 7 "[0]" 0 2 "[5, 6, 7]" "''g''" 0] z by auto
  then show ?thesis using z(1) by blast
qed

section \<open>From a write to a read\<close>

text \<open>An iteration of a worker leaves the names and the users as they are.\<close>

lemma serve_user_map: "serve pm msg r z = Inr z' \<Longrightarrow> zs_user_map z' = zs_user_map z"
  by (auto simp: serve_def user_append_def user_read_all_def user_read_def user_delete_def set_user_def set_part_def
      fault_simps split: if_splits)

lemma worker_iter_names:
  assumes "worker_iter pm i z = Inr (c, z')" "j < length (zs_parts z)"
  shows "pt_userdata_map (zs_parts z' ! j) = pt_userdata_map (zs_parts z ! j)" "length (zs_parts z') = length (zs_parts z)"
    "zs_user_map z' = zs_user_map z"
proof -
  have i: "i < length (zs_parts z)" using assms(1) by (auto simp: worker_iter_def vec_at_def fault_simps split: if_splits)
  let ?p = "zs_parts z ! i"
  consider "z' = z" | r msg rs where "serve pm msg r (set_part i (?p\<lparr>pt_io_queue := rs\<rparr>) z) = Inr z'"
    using assms(1) i by (auto simp: worker_iter_def fault_simps split: if_splits)
  then have "pt_userdata_map (zs_parts z' ! j) = pt_userdata_map (zs_parts z ! j) \<and> length (zs_parts z') = length (zs_parts z)
     \<and> zs_user_map z' = zs_user_map z"
  proof cases
    case 2
    let ?z1 = "set_part i (?p\<lparr>pt_io_queue := rs\<rparr>) z"
    have m: "map pt_core (zs_parts z') = map pt_core (zs_parts ?z1)" using 2 by (rule serve_core)
    then have len: "length (zs_parts z') = length (zs_parts z)" using map_eq_imp_length_eq by (fastforce simp: set_part_def)
    have "pt_core (zs_parts z' ! j) = pt_core (zs_parts ?z1 ! j)"
      using m len assms(2) by (metis length_map nth_map)
    then have "pt_userdata_map (zs_parts z' ! j) = pt_userdata_map (zs_parts ?z1 ! j)" by (metis pt_core_sel(6))
    also have "\<dots> = pt_userdata_map (zs_parts z ! j)" using assms(2) by (cases "j = i") (simp_all add: set_part_def)
    finally show ?thesis using len serve_user_map [OF 2] by (simp add: set_part_def)
  qed simp
  then show "pt_userdata_map (zs_parts z' ! j) = pt_userdata_map (zs_parts z ! j)" "length (zs_parts z') = length (zs_parts z)"
    "zs_user_map z' = zs_user_map z" by blast+
qed

lemma worker_main_lib:
  assumes "worker_main pm i n z = Inr (c, z')" "lib_ok z" "j < length (zs_parts z)"
  shows "lib_ok z' \<and> pt_userdata_map (zs_parts z' ! j) = pt_userdata_map (zs_parts z ! j)
     \<and> length (zs_parts z') = length (zs_parts z) \<and> zs_user_map z' = zs_user_map z"
  using assms
proof (induction n arbitrary: z)
  case (Suc n)
  obtain c1 z1 where 1: "worker_iter pm i z = Inr (c1, z1)" "if c1 then z' = z1 else worker_main pm i n z1 = Inr (c, z')"
    using Suc.prems(1) by (auto simp: fault_simps split: if_splits)
  note n = worker_iter_names [OF 1(1) Suc.prems(3)] and ok = worker_iter_lib [OF Suc.prems(2) 1(1)]
  show ?case
  proof (cases c1)
    case True
    then show ?thesis using 1 n ok by simp
  next
    case False
    then show ?thesis using Suc.IH [of z1] 1 n ok Suc.prems(3) by simp
  qed
qed simp

end
