(* ===== verification/Zoad_File.thy ===== *)
theory Zoad_File
  imports Zoad_Registry
begin

text \<open>
  The class \<^verbatim>\<open>ZoadFile\<close> of \<^verbatim>\<open>src/util/env_zoad.cc\<close>: a file with a write buffer of one stripe
  and a read buffer of one I/O unit on top of the calls of \<^verbatim>\<open>zoad.cpp\<close>, and the three file
  interfaces built on it. Files of the configuration live in arrays indexed by the flag of
  the file (0 for flushes, logs and meta data, 1 for compaction).
\<close>

section \<open>Configuration and helpers\<close>

record cfg =
  cf_uid :: nat
  cf_lp_name :: "string list"
  cf_io_level :: "nat list"
  cf_lp_id :: "nat list"
  cf_buf_size :: "nat list"

text \<open>64-bit unsigned arithmetic.\<close>

definition u64 :: "nat \<Rightarrow> nat" where
  "u64 n = n mod 2 ^ 64"

definition u64_sub :: "nat \<Rightarrow> nat \<Rightarrow> nat" where
  "u64_sub a b = nat ((int a - int b) mod 2 ^ 64)"

text \<open>\<^verbatim>\<open>std::to_string\<close> of an unsigned number.\<close>

fun to_string :: "nat \<Rightarrow> string" where
  "to_string n =
     (if n < 10 then [char_of (48 + n)] else to_string (n div 10) @ [char_of (48 + n mod 10)])"

declare to_string.simps [simp del]

text \<open>\<^verbatim>\<open>std::string::rfind\<close> of a character.\<close>

definition rfind :: "char \<Rightarrow> string \<Rightarrow> nat option" where
  "rfind c s = (case filter (\<lambda>i. s ! i = c) [0..<length s] of [] \<Rightarrow> None | is \<Rightarrow> Some (last is))"

definition get_filename :: "string \<Rightarrow> string" where
  "get_filename filename =
     (case rfind (CHR ''/'') filename of
        None \<Rightarrow> filename
      | Some separator_pos \<Rightarrow> drop (separator_pos + 1) filename)"

definition Basename :: "string \<Rightarrow> string" where
  "Basename filename =
     (case rfind (CHR ''/'') filename of
        None \<Rightarrow> filename
      | Some separator_pos \<Rightarrow>
          take (length filename - separator_pos - 1) (drop (separator_pos + 1) filename))"

definition IsManifest :: "string \<Rightarrow> bool" where
  "IsManifest filename = (take 8 (Basename filename) = ''MANIFEST'')"

definition Dirname :: "string \<Rightarrow> string" where
  "Dirname filename =
     (case rfind (CHR ''/'') filename of
        None \<Rightarrow> ''.''
      | Some separator_pos \<Rightarrow> take separator_pos filename)"

datatype Status = OK | NotFound string string | IOError string string

text \<open>\<^verbatim>\<open>ENOENT\<close> is 2; the text of the error is the argument \<open>strerror\<close>.\<close>

definition PosixError :: "(int \<Rightarrow> string) \<Rightarrow> string \<Rightarrow> int \<Rightarrow> Status" where
  "PosixError strerror ctx err_number =
     (if err_number = 2 then NotFound ctx (strerror err_number) else IOError ctx (strerror err_number))"

section \<open>The file object\<close>

record ZoadFile =
  fl_refs :: int
  fl_name :: string
  fl_key :: string
  fl_flag :: nat
  fl_level :: nat
  fl_file_size :: nat
  fl_buf :: "byte list option"
  fl_buf_pos :: nat
  fl_is_manifest :: bool
  fl_read_buf :: "byte list"
  fl_read_buf_offset :: nat
  fl_read_size :: nat
  fl_buf_read_size :: nat
  fl_use_read_buf :: bool

text \<open>The constructor leaves the reference count and the contents of both buffers unset.\<close>

definition new_ZoadFile :: "cfg \<Rightarrow> (nat \<Rightarrow> byte) \<Rightarrow> int \<Rightarrow> nat \<Rightarrow> nat \<Rightarrow> string \<Rightarrow> nat \<Rightarrow> ZoadFile res" where
  "new_ZoadFile g raw refs0 flag file_level filename file_key =
     ebind (vec_at (cf_buf_size g) flag) (\<lambda>bs.
       Inr \<lparr>fl_refs = refs0, fl_name = filename, fl_key = to_string file_key, fl_flag = flag,
            fl_level = file_level, fl_file_size = 0, fl_buf = Some (map raw [0..<bs]),
            fl_buf_pos = 0, fl_is_manifest = IsManifest filename,
            fl_read_buf = map raw [0..<IO_SIZE], fl_read_buf_offset = 0, fl_read_size = 0,
            fl_buf_read_size = 0, fl_use_read_buf = False\<rparr>)"

definition file_buf :: "ZoadFile \<Rightarrow> byte list res" where
  "file_buf f = (case fl_buf f of None \<Rightarrow> Inl (UseAfterFree ''buf_'') | Some b \<Rightarrow> Inr b)"

definition Ref :: "ZoadFile \<Rightarrow> ZoadFile" where
  "Ref f = f\<lparr>fl_refs := fl_refs f + 1\<rparr>"

text \<open>The last reference deletes nothing: the deletion is commented out.\<close>

definition Unref :: "ZoadFile \<Rightarrow> ZoadFile" where
  "Unref f = f\<lparr>fl_refs := fl_refs f - 1\<rparr>"

definition Size :: "ZoadFile \<Rightarrow> nat" where
  "Size f = fl_file_size f"

definition Rename :: "string \<Rightarrow> ZoadFile \<Rightarrow> ZoadFile" where
  "Rename target f = f\<lparr>fl_name := target\<rparr>"

section \<open>Writing\<close>

definition Flush_file_buffer :: "'d params \<Rightarrow> cfg \<Rightarrow> ZoadFile \<times> 'd zoad \<Rightarrow> (Status \<times> ZoadFile \<times> 'd zoad) res" where
  "Flush_file_buffer pm g = (\<lambda>(f, z).
     ebind (vec_at (cf_buf_size g) (fl_flag f)) (\<lambda>bs.
       let wsize = fl_buf_pos f in
       if bs \<le> wsize then
         ebind (vec_at (cf_lp_id g) (fl_flag f)) (\<lambda>lp.
         ebind (file_buf f) (\<lambda>buf.
           if wsize mod IO_SIZE \<noteq> 0 then
             let pos = wsize mod IO_SIZE; w = wsize - wsize mod IO_SIZE in
             ebind (z_flush pm (cf_uid g) lp (fl_key f) buf (u32 w) Z_APPEND z) (\<lambda>(_, z).
             ebind (mem_read buf w pos) (\<lambda>rest.
             ebind (mem_write buf 0 rest) (\<lambda>buf.
               Inr (OK, f\<lparr>fl_buf_pos := pos, fl_buf := Some buf\<rparr>, z))))
           else
             ebind (z_flush pm (cf_uid g) lp (fl_key f) buf (u32 wsize) Z_APPEND z) (\<lambda>(_, z).
               Inr (OK, f\<lparr>fl_buf_pos := 0\<rparr>, z))))
       else Inr (OK, f, z)))"

text \<open>The value of \<^verbatim>\<open>errno\<close> after the call is the argument \<open>err\<close>.\<close>

definition SyncDirIfManifest ::
  "(int \<Rightarrow> string) \<Rightarrow> int \<Rightarrow> cfg \<Rightarrow> ZoadFile \<times> 'd zoad \<Rightarrow> (Status \<times> ZoadFile \<times> 'd zoad) res" where
  "SyncDirIfManifest strerror err g = (\<lambda>(f, z).
     if \<not> fl_is_manifest f then Inr (OK, f, z)
     else
       ebind (vec_at (cf_buf_size g) (fl_flag f)) (\<lambda>bs.
         if bs \<le> fl_file_size f then
           ebind (vec_at (cf_lp_id g) (fl_flag f)) (\<lambda>lp.
           ebind (z_sync (cf_uid g) lp (fl_key f) z) (\<lambda>(r, z).
             Inr (if r \<noteq> 0 then PosixError strerror ''SyncDir'' err else OK, f, z)))
         else Inr (OK, f, z)))"

text \<open>Copy what fits of the data from \<open>d\<close> on into the buffer: the number of bytes and the file.\<close>

definition fill_buffer :: "cfg \<Rightarrow> byte list \<Rightarrow> ZoadFile \<Rightarrow> (nat \<times> ZoadFile) res" where
  "fill_buffer g data f =
     ebind (vec_at (cf_buf_size g) (fl_flag f)) (\<lambda>bs.
       let copy_size = min (length data) (u64_sub bs (fl_buf_pos f)) in
       ebind (file_buf f) (\<lambda>buf.
       ebind (mem_write buf (fl_buf_pos f) (take copy_size data)) (\<lambda>buf.
         Inr (copy_size, f\<lparr>fl_buf := Some buf, fl_buf_pos := fl_buf_pos f + copy_size\<rparr>))))"

text \<open>
  One round of the loop of \<^verbatim>\<open>WriteUnbuffered\<close>, on the data that is left. A round that copies
  nothing empties a full buffer, so one round more than there are bytes is enough.
\<close>

definition write_unbuffered_round ::
  "'d params \<Rightarrow> cfg \<Rightarrow> byte list \<times> ZoadFile \<times> 'd zoad \<Rightarrow> (byte list \<times> ZoadFile \<times> 'd zoad) res" where
  "write_unbuffered_round pm g = (\<lambda>(data, f, z).
     ebind (fill_buffer g data f) (\<lambda>(copy_size, f).
     ebind (vec_at (cf_buf_size g) (fl_flag f)) (\<lambda>bs.
     ebind (if bs \<le> fl_buf_pos f then Flush_file_buffer pm g (f, z) else Inr (OK, f, z)) (\<lambda>(_, f, z).
       Inr (drop copy_size data, f, z)))))"

definition WriteUnbuffered ::
  "'d params \<Rightarrow> cfg \<Rightarrow> byte list \<Rightarrow> ZoadFile \<times> 'd zoad \<Rightarrow> (Status \<times> ZoadFile \<times> 'd zoad) res" where
  "WriteUnbuffered pm g data = (\<lambda>(f, z).
     ebind (ewhile (length data + 1) ''WriteUnbuffered'' (\<lambda>(data, _). 0 < length data)
              (write_unbuffered_round pm g) (data, f, z)) (\<lambda>(_, f, z). Inr (OK, f, z)))"

definition ZoadFile_Append ::
  "'d params \<Rightarrow> cfg \<Rightarrow> byte list \<Rightarrow> ZoadFile \<times> 'd zoad \<Rightarrow> (Status \<times> ZoadFile \<times> 'd zoad) res" where
  "ZoadFile_Append pm g data = (\<lambda>(f, z).
     ebind (fill_buffer g data (f\<lparr>fl_file_size := u64 (fl_file_size f + length data)\<rparr>)) (\<lambda>(copy_size, f).
       if length data - copy_size = 0 then Inr (OK, f, z)
       else
         ebind (Flush_file_buffer pm g (f, z)) (\<lambda>(status, f, z).
           if status \<noteq> OK then Inr (status, f, z)
           else WriteUnbuffered pm g (drop copy_size data) (f, z))))"

definition ZoadFile_Sync :: "'d params \<Rightarrow> cfg \<Rightarrow> ZoadFile \<times> 'd zoad \<Rightarrow> (Status \<times> ZoadFile \<times> 'd zoad) res" where
  "ZoadFile_Sync pm g = (\<lambda>(f, z).
     ebind (Flush_file_buffer pm g (f, z)) (\<lambda>(status, f, z).
     ebind (vec_at (cf_buf_size g) (fl_flag f)) (\<lambda>bs.
       if bs \<le> fl_file_size f then
         ebind (vec_at (cf_lp_id g) (fl_flag f)) (\<lambda>lp.
         ebind (z_sync (cf_uid g) lp (fl_key f) z) (\<lambda>(_, z). Inr (status, f, z)))
       else Inr (status, f, z))))"

definition FlushBuffer :: "'d params \<Rightarrow> cfg \<Rightarrow> ZoadFile \<times> 'd zoad \<Rightarrow> (Status \<times> ZoadFile \<times> 'd zoad) res" where
  "FlushBuffer pm g = Flush_file_buffer pm g"

text \<open>\<^verbatim>\<open>delete[]\<close> of a buffer that is already freed is a fault.\<close>

definition ZoadFile_Delete :: "cfg \<Rightarrow> ZoadFile \<times> 'd zoad \<Rightarrow> (Status \<times> ZoadFile \<times> 'd zoad) res" where
  "ZoadFile_Delete g = (\<lambda>(f, z).
     ebind (vec_at (cf_buf_size g) (fl_flag f)) (\<lambda>bs.
       if bs < fl_file_size f \<or> (bs \<le> fl_file_size f \<and> fl_buf_pos f < bs) then
         ebind (vec_at (cf_lp_id g) (fl_flag f)) (\<lambda>lp.
         ebind (z_del (cf_uid g) lp (fl_key f) z) (\<lambda>(_, z).
         ebind (file_buf f) (\<lambda>_.
           Inr (OK, f\<lparr>fl_file_size := 0, fl_buf := None, fl_buf_pos := 0\<rparr>, z))))
       else
         ebind (file_buf f) (\<lambda>_. Inr (OK, f\<lparr>fl_buf := None, fl_buf_pos := 0\<rparr>, z))))"

section \<open>Reading\<close>

text \<open>\<open>n\<close> rounded up to whole I/O units, as the code computes it.\<close>

definition round_up :: "nat \<Rightarrow> nat" where
  "round_up n = n - n mod IO_SIZE + (if n mod IO_SIZE \<noteq> 0 then IO_SIZE else 0)"

text \<open>\<^verbatim>\<open>memcpy\<close> from a buffer of the file into the memory of the caller.\<close>

definition copy_out :: "byte list \<Rightarrow> nat \<Rightarrow> nat \<Rightarrow> nat \<Rightarrow> 'd zoad \<Rightarrow> 'd zoad res" where
  "copy_out src pos n scratch z =
     ebind (mem_read src pos n) (\<lambda>xs.
     ebind (mem_write (zs_mem z) scratch xs) (\<lambda>mem. Inr (z\<lparr>zs_mem := mem\<rparr>)))"

text \<open>
  Load whole units from \<open>offset\<close> on and keep the last one in the read buffer: the body of the
  first use, of a miss, and of the second half of a partial hit.
\<close>

definition load_units ::
  "'d params \<Rightarrow> cfg \<Rightarrow> nat \<Rightarrow> nat \<Rightarrow> nat \<Rightarrow> ZoadFile \<times> 'd zoad \<Rightarrow> (ZoadFile \<times> 'd zoad) res" where
  "load_units pm g scratch offset read_size = (\<lambda>(f, z).
     ebind (vec_at (cf_lp_id g) (fl_flag f)) (\<lambda>lp.
     ebind (z_load pm (cf_uid g) lp (fl_key f) scratch (u32 offset) (u32 read_size) z) (\<lambda>(_, z).
     ebind (mem_read (zs_mem z) (scratch + read_size - IO_SIZE) IO_SIZE) (\<lambda>xs.
     ebind (mem_write (fl_read_buf f) 0 xs) (\<lambda>rb.
       Inr (f\<lparr>fl_read_buf := rb, fl_read_buf_offset := offset + read_size - IO_SIZE\<rparr>, z))))))"

text \<open>The branch for data that is all on the device.\<close>

definition read_flushed ::
  "'d params \<Rightarrow> cfg \<Rightarrow> nat \<Rightarrow> nat \<Rightarrow> nat \<Rightarrow> ZoadFile \<times> 'd zoad \<Rightarrow> (ZoadFile \<times> 'd zoad) res" where
  "read_flushed pm g offset n scratch = (\<lambda>(f, z).
     let rbo = fl_read_buf_offset f in
     if fl_use_read_buf f then
       if rbo \<le> offset \<and> offset + n \<le> rbo + IO_SIZE then
         ebind (copy_out (fl_read_buf f) (offset - rbo) n scratch z) (\<lambda>z. Inr (f, z))
       else if rbo + IO_SIZE \<le> offset \<or> offset < rbo then
         let f = f\<lparr>fl_read_size := round_up n\<rparr> in
         load_units pm g scratch offset (fl_read_size f) (f, z)
       else if rbo \<le> offset \<and> offset < rbo + IO_SIZE \<and> rbo + IO_SIZE < offset + n then
         let f = f\<lparr>fl_read_size := round_up n, fl_buf_read_size := IO_SIZE - offset mod IO_SIZE\<rparr> in
         ebind (copy_out (fl_read_buf f) (offset - rbo) (fl_buf_read_size f) scratch z) (\<lambda>z.
           load_units pm g (scratch + fl_buf_read_size f) (offset + fl_buf_read_size f) (fl_read_size f) (f, z))
       else Inl (Exit ''WTF'')
     else
       let f = f\<lparr>fl_read_size := round_up n\<rparr> in
       ebind (load_units pm g scratch offset (fl_read_size f) (f, z)) (\<lambda>(f, z).
         Inr (f\<lparr>fl_use_read_buf := True\<rparr>, z)))"

text \<open>The result is the status and the slice, as start and length in the caller's memory.\<close>

definition ZoadFile_Read ::
  "'d params \<Rightarrow> cfg \<Rightarrow> nat \<Rightarrow> nat \<Rightarrow> nat \<Rightarrow> ZoadFile \<times> 'd zoad
    \<Rightarrow> (Status \<times> (nat \<times> nat) \<times> ZoadFile \<times> 'd zoad) res" where
  "ZoadFile_Read pm g offset n scratch = (\<lambda>(f, z).
     if fl_file_size f < offset then
       Inr (IOError ''Offset greater than file size.'' '''', (0, 0), f, z)
     else
       let n = (if fl_file_size f - offset < n then fl_file_size f - offset else n);
           flushed = u64_sub (fl_file_size f) (fl_buf_pos f)
       in if n = 0 then Inr (OK, (0, 0), f, z)
       else
         ebind
           (if fl_file_size f = fl_buf_pos f then
              ebind (file_buf f) (\<lambda>buf. ebind (copy_out buf offset n scratch z) (\<lambda>z. Inr (f, z)))
            else if flushed \<le> offset then
              if fl_file_size f < offset + n then Inl (Exit ''ZoadFile Read : Size Error'')
              else ebind (file_buf f) (\<lambda>buf.
                   ebind (copy_out buf (offset - flushed) n scratch z) (\<lambda>z. Inr (f, z)))
            else if offset + n \<le> flushed then read_flushed pm g offset n scratch (f, z)
            else
              ebind (vec_at (cf_lp_id g) (fl_flag f)) (\<lambda>lp.
              ebind (z_load pm (cf_uid g) lp (fl_key f) scratch (u32 offset) (u32 (flushed - offset)) z) (\<lambda>(_, z).
              ebind (file_buf f) (\<lambda>buf.
              ebind (copy_out buf 0 (offset + n - flushed) (scratch + flushed - offset) z) (\<lambda>z.
                Inr (f, z)))))) (\<lambda>(f, z).
         Inr (OK, (scratch, n), f, z)))"

end
