(* ===== verification/Std_Map.thy ===== *)
theory Std_Map
  imports Zoad_Prelude "HOL-Library.List_Lexorder" "HOL-Library.Char_ord"
begin

text \<open>
  \<^verbatim>\<open>std::map<std::string, T>\<close> as the environment uses it: entries sorted by key (strings are
  compared lexicographically by unsigned character), with lookup, assignment through
  \<^verbatim>\<open>operator[]\<close>, \<^verbatim>\<open>erase\<close> and iteration in key order. The interface is a locale
  over lookups; the facts its clients need are proved from its laws.
\<close>

section \<open>The interface\<close>

locale dictionary =
  fixes lookup :: "'m \<Rightarrow> 'k \<Rightarrow> 'v option"
    and empty_m :: 'm
    and assign :: "'k \<Rightarrow> 'v \<Rightarrow> 'm \<Rightarrow> 'm"
    and erase :: "'k \<Rightarrow> 'm \<Rightarrow> 'm"
    and keys_of :: "'m \<Rightarrow> 'k list"
    and inv_m :: "'m \<Rightarrow> bool"
  assumes lookup_empty: "lookup empty_m = Map.empty"
    and lookup_assign: "inv_m m \<Longrightarrow> lookup (assign k v m) = (lookup m)(k \<mapsto> v)"
    and lookup_erase: "inv_m m \<Longrightarrow> lookup (erase k m) = (lookup m)(k := None)"
    and set_keys: "inv_m m \<Longrightarrow> set (keys_of m) = dom (lookup m)"
    and inv_empty: "inv_m empty_m"
    and inv_assign: "inv_m m \<Longrightarrow> inv_m (assign k v m)"
    and inv_erase: "inv_m m \<Longrightarrow> inv_m (erase k m)"
begin

text \<open>Moving an entry to another key, as a rename does; onto itself the entry is lost.\<close>

lemma lookup_move:
  assumes "inv_m m" "lookup m a = Some v"
  shows "lookup (erase a (assign b v m)) = (lookup m)(b \<mapsto> v, a := None)"
  using assms by (simp add: lookup_assign lookup_erase inv_assign)

lemma move_self:
  assumes "inv_m m" "lookup m a = Some v"
  shows "lookup (erase a (assign a v m)) a = None"
  using assms by (simp add: lookup_assign lookup_erase inv_assign)

lemma inv_move: "inv_m m \<Longrightarrow> inv_m (erase a (assign b v m))"
  by (simp add: inv_assign inv_erase)

lemma lookup_keys: "inv_m m \<Longrightarrow> k \<in> set (keys_of m) \<longleftrightarrow> (\<exists>v. lookup m k = Some v)"
  by (auto simp: set_keys)

end

section \<open>Sorted association lists\<close>

fun map_assign :: "'k::linorder \<Rightarrow> 'v \<Rightarrow> ('k \<times> 'v) list \<Rightarrow> ('k \<times> 'v) list" where
  "map_assign k v [] = [(k, v)]"
| "map_assign k v ((a, x) # m) =
     (if k < a then (k, v) # (a, x) # m
      else if k = a then (a, v) # m
      else (a, x) # map_assign k v m)"

fun map_erase :: "'k::linorder \<Rightarrow> ('k \<times> 'v) list \<Rightarrow> ('k \<times> 'v) list" where
  "map_erase k [] = []"
| "map_erase k ((a, x) # m) = (if k = a then m else (a, x) # map_erase k m)"

definition map_keys :: "('k::linorder \<times> 'v) list \<Rightarrow> 'k list" where
  "map_keys m = map fst m"

definition map_ok :: "('k::linorder \<times> 'v) list \<Rightarrow> bool" where
  "map_ok m = sorted_wrt (<) (map fst m)"

lemma set_map_assign: "fst ` set (map_assign k v m) = insert k (fst ` set m)"
  by (induction k v m rule: map_assign.induct) auto

lemma set_map_erase: "set (map_erase k m) \<subseteq> set m"
  by (induction k m rule: map_erase.induct) auto

lemma map_assign_ok: "map_ok m \<Longrightarrow> map_ok (map_assign k v m)"
  unfolding map_ok_def
proof (induction k v m rule: map_assign.induct)
  case (2 k v a x m)
  have "a < y" if "y \<in> fst ` set (map_assign k v m)" "\<not> k < a" "k \<noteq> a" for y
    using that 2(2) set_map_assign [of k v m] by auto
  with 2 show ?case by auto
qed simp

lemma map_erase_ok: "map_ok m \<Longrightarrow> map_ok (map_erase k m)"
  unfolding map_ok_def
proof (induction k m rule: map_erase.induct)
  case (2 k a x m)
  then show ?case using set_map_erase [of k m] by auto
qed simp

lemma map_of_assign: "map_ok m \<Longrightarrow> map_of (map_assign k v m) = (map_of m)(k \<mapsto> v)"
  unfolding map_ok_def by (induction k v m rule: map_assign.induct) (auto simp: fun_eq_iff)

lemma map_of_erase: "map_ok m \<Longrightarrow> map_of (map_erase k m) = (map_of m)(k := None)"
  unfolding map_ok_def
proof (induction k m rule: map_erase.induct)
  case (2 k a x m)
  then have "k = a \<Longrightarrow> map_of m k = None" by (force simp: map_of_eq_None_iff)
  with 2 show ?case by (auto simp: fun_eq_iff)
qed simp

interpretation stdm: dictionary map_of "[]" map_assign map_erase map_keys map_ok
  by unfold_locales
    (auto simp: map_of_assign map_of_erase map_assign_ok map_erase_ok map_keys_def dom_map_of_conv_image_fst,
      simp add: map_ok_def)

end
