(* ===== verification/Zoad_Env.thy ===== *)
theory Zoad_Env
  imports Zoad_File Std_Map
begin

text \<open>
  The environment of \<^verbatim>\<open>src/util/env_zoad.cc\<close>: sequential, random access and writable files,
  the table of files and its operations, file locks, the queue of background work, and
  \<^verbatim>\<open>Env::ZoadDefault\<close>, which starts the library and makes the two partitions.
\<close>

section \<open>State\<close>

text \<open>A background work item: the function and its argument, both opaque.\<close>

type_synonym work = "nat \<times> nat"

text \<open>The background thread: not made yet, able to run, or blocked in \<^verbatim>\<open>background_work_cv_.Wait()\<close>.\<close>

datatype bg_thread = NotStarted | Running | Waiting

record 'd zenv =
  en_z :: "'d zoad"
  en_cfg :: cfg
  en_files :: "ZoadFile list"
  en_file_map :: "(string \<times> nat) list"
  en_global_key :: nat
  en_locks :: "string set"
  en_started :: bool
  en_thread :: bg_thread
  en_work :: "work list"

text \<open>Run a method of the file object \<open>i\<close>.\<close>

definition on_file ::
  "nat \<Rightarrow> (ZoadFile \<times> 'd zoad \<Rightarrow> ('a \<times> ZoadFile \<times> 'd zoad) res) \<Rightarrow> 'd zenv \<Rightarrow> ('a \<times> 'd zenv) res" where
  "on_file i m e =
     ebind (vec_at (en_files e) i) (\<lambda>f.
     ebind (m (f, en_z e)) (\<lambda>(x, f, z).
       Inr (x, e\<lparr>en_files := (en_files e)[i := f], en_z := z\<rparr>)))"

definition upd_file :: "nat \<Rightarrow> (ZoadFile \<Rightarrow> ZoadFile) \<Rightarrow> 'd zenv \<Rightarrow> 'd zenv res" where
  "upd_file i h e = ebind (vec_at (en_files e) i) (\<lambda>f. Inr (e\<lparr>en_files := (en_files e)[i := h f]\<rparr>))"

section \<open>The file interfaces\<close>

record SequentialFileImpl =
  sq_file :: nat
  sq_pos :: nat

definition new_SequentialFileImpl :: "nat \<Rightarrow> 'd zenv \<Rightarrow> (SequentialFileImpl \<times> 'd zenv) res" where
  "new_SequentialFileImpl i e = ebind (upd_file i Ref e) (\<lambda>e. Inr (\<lparr>sq_file = i, sq_pos = 0\<rparr>, e))"

definition SequentialFile_Read ::
  "'d params \<Rightarrow> nat \<Rightarrow> nat \<Rightarrow> SequentialFileImpl \<times> 'd zenv
    \<Rightarrow> (Status \<times> (nat \<times> nat) \<times> SequentialFileImpl \<times> 'd zenv) res" where
  "SequentialFile_Read pm n scratch = (\<lambda>(h, e).
     ebind (on_file (sq_file h) (\<lambda>s. ebind (ZoadFile_Read pm (en_cfg e) (sq_pos h) n scratch s)
              (\<lambda>(st, result, f, z). Inr ((st, result), f, z))) e) (\<lambda>((st, result), e).
       Inr (st, result, if st = OK then h\<lparr>sq_pos := u64 (sq_pos h + snd result)\<rparr> else h, e)))"

definition SequentialFile_Skip ::
  "nat \<Rightarrow> SequentialFileImpl \<times> 'd zenv \<Rightarrow> (Status \<times> SequentialFileImpl \<times> 'd zenv) res" where
  "SequentialFile_Skip n = (\<lambda>(h, e).
     ebind (vec_at (en_files e) (sq_file h)) (\<lambda>f.
       if Size f < sq_pos h then Inr (IOError ''pos_ > file_->Size()'' '''', h, e)
       else
         let available = Size f - sq_pos h in
         Inr (OK, h\<lparr>sq_pos := sq_pos h + (if available < n then available else n)\<rparr>, e)))"

text \<open>A random access or writable file is a pointer to the file.\<close>

definition new_FileImpl :: "nat \<Rightarrow> 'd zenv \<Rightarrow> (nat \<times> 'd zenv) res" where
  "new_FileImpl i e = ebind (upd_file i Ref e) (\<lambda>e. Inr (i, e))"

definition delete_FileImpl :: "nat \<Rightarrow> 'd zenv \<Rightarrow> 'd zenv res" where
  "delete_FileImpl i e = upd_file i Unref e"

definition RandomAccessFile_Read ::
  "'d params \<Rightarrow> nat \<Rightarrow> nat \<Rightarrow> nat \<Rightarrow> nat \<Rightarrow> 'd zenv \<Rightarrow> ((Status \<times> nat \<times> nat) \<times> 'd zenv) res" where
  "RandomAccessFile_Read pm i offset n scratch e =
     on_file i (\<lambda>s. ebind (ZoadFile_Read pm (en_cfg e) offset n scratch s)
       (\<lambda>(st, result, f, z). Inr ((st, result), f, z))) e"

definition WritableFile_Append :: "'d params \<Rightarrow> nat \<Rightarrow> byte list \<Rightarrow> 'd zenv \<Rightarrow> (Status \<times> 'd zenv) res" where
  "WritableFile_Append pm i data e = on_file i (ZoadFile_Append pm (en_cfg e) data) e"

definition WritableFile_Close :: "'d params \<Rightarrow> nat \<Rightarrow> 'd zenv \<Rightarrow> (Status \<times> 'd zenv) res" where
  "WritableFile_Close pm i e = on_file i (FlushBuffer pm (en_cfg e)) e"

definition WritableFile_Flush :: "'d params \<Rightarrow> nat \<Rightarrow> 'd zenv \<Rightarrow> (Status \<times> 'd zenv) res" where
  "WritableFile_Flush pm i e = on_file i (FlushBuffer pm (en_cfg e)) e"

definition WritableFile_Sync :: "'d params \<Rightarrow> nat \<Rightarrow> 'd zenv \<Rightarrow> (Status \<times> 'd zenv) res" where
  "WritableFile_Sync pm i e = on_file i (ZoadFile_Sync pm (en_cfg e)) e"

section \<open>The table of files\<close>

text \<open>The pointers the calls return; \<open>None\<close> is the null pointer.\<close>

definition NewSequentialFile ::
  "string \<Rightarrow> 'd zenv \<Rightarrow> (Status \<times> SequentialFileImpl option \<times> 'd zenv) res" where
  "NewSequentialFile fname e =
     (case map_of (en_file_map e) fname of
        None \<Rightarrow> Inr (IOError fname ''File not found'', None, e)
      | Some i \<Rightarrow> ebind (new_SequentialFileImpl i e) (\<lambda>(h, e). Inr (OK, Some h, e)))"

definition NewRandomAccessFile :: "string \<Rightarrow> 'd zenv \<Rightarrow> (Status \<times> nat option \<times> 'd zenv) res" where
  "NewRandomAccessFile fname e =
     (case map_of (en_file_map e) fname of
        None \<Rightarrow> Inr (IOError fname ''File not found'', None, e)
      | Some i \<Rightarrow> ebind (new_FileImpl i e) (\<lambda>(h, e). Inr (OK, Some h, e)))"

definition DeleteFileInternal :: "string \<Rightarrow> 'd zenv \<Rightarrow> 'd zenv res" where
  "DeleteFileInternal fname e =
     (case map_of (en_file_map e) fname of
        None \<Rightarrow> Inr e
      | Some i \<Rightarrow>
          ebind (on_file i (ZoadFile_Delete (en_cfg e)) e) (\<lambda>(_, e).
          ebind (upd_file i Unref e) (\<lambda>e.
            Inr (e\<lparr>en_file_map := map_erase fname (en_file_map e)\<rparr>))))"

text \<open>Make a file object with the next key and enter it in the table.\<close>

definition make_file ::
  "'d params \<Rightarrow> int \<Rightarrow> string \<Rightarrow> nat \<Rightarrow> nat \<Rightarrow> 'd zenv \<Rightarrow> (nat \<times> 'd zenv) res" where
  "make_file pm refs0 fname level flag e =
     ebind (new_ZoadFile (en_cfg e) (pm_raw pm) refs0 flag level fname (en_global_key e)) (\<lambda>f.
       let i = length (en_files e) in
       Inr (i, e\<lparr>en_files := en_files e @ [f], en_global_key := u32 (en_global_key e + 1),
                 en_file_map := map_assign fname i (en_file_map e)\<rparr>))"

definition NewWritableFile ::
  "'d params \<Rightarrow> int \<Rightarrow> string \<Rightarrow> nat \<Rightarrow> nat \<Rightarrow> 'd zenv \<Rightarrow> (Status \<times> nat \<times> 'd zenv) res" where
  "NewWritableFile pm refs0 fname level flag e =
     ebind (if map_of (en_file_map e) fname \<noteq> None then DeleteFileInternal fname e else Inr e) (\<lambda>e.
     ebind (make_file pm refs0 fname level flag e) (\<lambda>(i, e).
     ebind (new_FileImpl i e) (\<lambda>(h, e). Inr (OK, h, e))))"

definition NewAppendableFile ::
  "'d params \<Rightarrow> int \<Rightarrow> string \<Rightarrow> nat \<Rightarrow> nat \<Rightarrow> 'd zenv \<Rightarrow> (Status \<times> nat \<times> 'd zenv) res" where
  "NewAppendableFile pm refs0 fname level flag e =
     ebind (case map_of (en_file_map e) fname of
              None \<Rightarrow> make_file pm refs0 fname level flag e
            | Some i \<Rightarrow> Inr (i, e)) (\<lambda>(i, e).
     ebind (new_FileImpl i e) (\<lambda>(h, e). Inr (OK, h, e)))"

definition FileExists :: "string \<Rightarrow> 'd zenv \<Rightarrow> bool" where
  "FileExists fname e = (map_of (en_file_map e) fname \<noteq> None)"

definition GetChildren :: "string \<Rightarrow> 'd zenv \<Rightarrow> string list" where
  "GetChildren dir e =
     map (drop (length dir + 1))
       (filter (\<lambda>filename. length dir + 1 \<le> length filename \<and> filename ! length dir = CHR ''/'' \<and>
                           take (length dir) filename = dir) (map_keys (en_file_map e)))"

definition DeleteFile :: "string \<Rightarrow> 'd zenv \<Rightarrow> (Status \<times> 'd zenv) res" where
  "DeleteFile fname e =
     (case map_of (en_file_map e) fname of
        None \<Rightarrow> Inr (IOError fname ''File not found'', e)
      | Some _ \<Rightarrow> ebind (DeleteFileInternal fname e) (\<lambda>e. Inr (OK, e)))"

definition CreateDir :: "string \<Rightarrow> 'd zenv \<Rightarrow> Status \<times> 'd zenv" where
  "CreateDir dirname e = (OK, e)"

definition DeleteDir :: "string \<Rightarrow> 'd zenv \<Rightarrow> Status \<times> 'd zenv" where
  "DeleteDir dirname e = (OK, e)"

definition GetFileSize :: "string \<Rightarrow> 'd zenv \<Rightarrow> (Status \<times> nat option) res" where
  "GetFileSize fname e =
     (case map_of (en_file_map e) fname of
        None \<Rightarrow> Inr (IOError fname ''File not found'', None)
      | Some i \<Rightarrow> ebind (vec_at (en_files e) i) (\<lambda>f. Inr (OK, Some (Size f))))"

definition RenameFile :: "string \<Rightarrow> string \<Rightarrow> 'd zenv \<Rightarrow> (Status \<times> 'd zenv) res" where
  "RenameFile src target e =
     (case map_of (en_file_map e) src of
        None \<Rightarrow> Inr (IOError src ''File not found'', e)
      | Some i \<Rightarrow>
          ebind (upd_file i (Rename target) e) (\<lambda>e.
            Inr (OK, e\<lparr>en_file_map := map_erase src (map_assign target i (en_file_map e))\<rparr>)))"

section \<open>File locks\<close>

definition lock_Insert :: "string \<Rightarrow> string set \<Rightarrow> bool \<times> string set" where
  "lock_Insert fname locked_files = (fname \<notin> locked_files, insert fname locked_files)"

definition lock_Remove :: "string \<Rightarrow> string set \<Rightarrow> string set" where
  "lock_Remove fname locked_files = locked_files - {fname}"

text \<open>A lock object is the name it carries.\<close>

definition LockFile :: "string \<Rightarrow> 'd zenv \<Rightarrow> Status \<times> string option \<times> 'd zenv" where
  "LockFile fname e =
     (case lock_Insert fname (en_locks e) of (succeeded, locks) \<Rightarrow>
        let e = e\<lparr>en_locks := locks\<rparr> in
        if \<not> succeeded then (IOError (''lock '' @ fname) ''already held by process'', None, e)
        else (OK, Some fname, e))"

definition UnlockFile :: "string \<Rightarrow> 'd zenv \<Rightarrow> Status \<times> 'd zenv" where
  "UnlockFile lock e = (OK, e\<lparr>en_locks := lock_Remove lock (en_locks e)\<rparr>)"

section \<open>Background work\<close>

text \<open>
  \<^verbatim>\<open>Signal\<close> unblocks a waiting thread and is lost when none waits. The mutex makes each of
  \<open>Schedule\<close> and \<open>BackgroundThreadMain\<close> one step; \<^verbatim>\<open>Wait\<close> releases it while the thread is blocked.
\<close>

definition cv_Signal :: "bg_thread \<Rightarrow> bg_thread" where
  "cv_Signal t = (if t = Waiting then Running else t)"

definition Schedule :: "work \<Rightarrow> 'd zenv \<Rightarrow> 'd zenv" where
  "Schedule item e =
     (let e = (if \<not> en_started e then e\<lparr>en_started := True, en_thread := Running\<rparr> else e);
          e = (if q_empty (en_work e) then e\<lparr>en_thread := cv_Signal (en_thread e)\<rparr> else e)
      in e\<lparr>en_work := q_push (en_work e) item\<rparr>)"

text \<open>
  What the thread does from taking the mutex, at the head of the loop or on its return from \<^verbatim>\<open>Wait\<close>:
  it blocks while the queue is empty, else it takes an item, which it runs.
\<close>

definition BackgroundThreadMain :: "'d zenv \<Rightarrow> (work option \<times> 'd zenv) res" where
  "BackgroundThreadMain e =
     (if q_empty (en_work e) then Inr (None, e\<lparr>en_thread := Waiting\<rparr>)
      else ebind (q_front (en_work e)) (\<lambda>item.
             Inr (Some item, e\<lparr>en_work := q_pop (en_work e)\<rparr>)))"

text \<open>Only a thread that exists and is not blocked makes a turn.\<close>

definition background_turn :: "'d zenv \<Rightarrow> work option \<Rightarrow> 'd zenv \<Rightarrow> bool" where
  "background_turn e it e' \<longleftrightarrow> en_thread e = Running \<and> BackgroundThreadMain e = Inr (it, e')"

section \<open>Start and end\<close>

definition MAX_FLAG :: nat where
  "MAX_FLAG = 2"

definition make_partition :: "'d params \<Rightarrow> nat \<Rightarrow> cfg \<times> 'd zoad \<Rightarrow> (cfg \<times> 'd zoad) res" where
  "make_partition pm i = (\<lambda>(g, z).
     ebind (vec_at (cf_lp_name g) i) (\<lambda>name.
     ebind (vec_at (cf_io_level g) i) (\<lambda>level.
     ebind (z_mklp pm (cf_uid g) ''/dev/nvme0n1'' name QOS_PARTITION level z) (\<lambda>(id, z).
     ebind (vec_set (cf_lp_id g) i (nat (id mod 2 ^ 32))) (\<lambda>ids.
       Inr (g\<lparr>cf_lp_id := ids\<rparr>, z))))))"

definition open_partition :: "nat \<Rightarrow> cfg \<times> 'd zoad \<Rightarrow> (cfg \<times> 'd zoad) res" where
  "open_partition i = (\<lambda>(g, z).
     ebind (vec_at (cf_lp_name g) i) (\<lambda>name.
     ebind (z_openlp (cf_uid g) name Z_ASYNC z) (\<lambda>(_, z). Inr (g, z))))"

definition default_cfg :: cfg where
  "default_cfg =
     (let io_level = [4, 12] in
      \<lparr>cf_uid = 0, cf_lp_name = map to_string [0..<MAX_FLAG], cf_io_level = io_level,
       cf_lp_id = replicate MAX_FLAG 0, cf_buf_size = map (\<lambda>l. u32 (IO_SIZE * l)) io_level\<rparr>)"

definition ZoadDefault :: "'d params \<Rightarrow> byte list \<Rightarrow> 'd \<Rightarrow> 'd zenv res" where
  "ZoadDefault pm mem d =
     ebind (zoad_init pm mem d) (\<lambda>z.
     ebind (efor 0 MAX_FLAG (make_partition pm) (default_cfg, z)) (\<lambda>s.
     ebind (efor 0 MAX_FLAG open_partition s) (\<lambda>(g, z).
       Inr \<lparr>en_z = z, en_cfg = g, en_files = [], en_file_map = [], en_global_key = 0, en_locks = {},
            en_started = False, en_thread = NotStarted, en_work = []\<rparr>)))"

definition delete_ZoadEnv :: "'d zenv \<Rightarrow> 'd zenv res" where
  "delete_ZoadEnv e =
     ebind (efor 0 (length (en_file_map e)) (\<lambda>k e.
              ebind (vec_at (en_file_map e) k) (\<lambda>(_, i). upd_file i Unref e)) e) (\<lambda>e.
     efor 0 MAX_FLAG (\<lambda>i e.
       ebind (vec_at (cf_lp_id (en_cfg e)) i) (\<lambda>lp.
       ebind (z_closelp (cf_uid (en_cfg e)) lp (en_z e)) (\<lambda>(_, z). Inr (e\<lparr>en_z := z\<rparr>)))) e)"

end
