(* ===== verification/Zoad_File_Store.thy ===== *)
theory Zoad_File_Store
  imports Zoad_File
begin

text \<open>
  What a \<^verbatim>\<open>ZoadFile\<close> stores: appending hands full buffers to the library in order and loses
  no byte (\<open>written\<close>, \<open>flush_all\<close>); once the worker has served the requests the object of the
  file and its write buffer together hold the bytes of the file (\<open>file_at\<close>); a read returns
  them from wherever they are, except for the reads listed by \<open>read_fault\<close>.
\<close>

section \<open>Appending conserves the bytes\<close>

text \<open>
  A file with a write buffer of \<open>bs\<close> bytes, a whole number of I/O units, whose partition is
  partition \<open>i\<close> of the configured user.
\<close>

definition file_wf :: "cfg \<Rightarrow> nat \<Rightarrow> nat \<Rightarrow> ZoadFile \<Rightarrow> bool" where
  "file_wf g i bs f \<longleftrightarrow>
     fl_flag f < length (cf_buf_size g) \<and> cf_buf_size g ! fl_flag f = bs \<and> fl_flag f < length (cf_lp_id g)
     \<and> cf_lp_id g ! fl_flag f = i + 1 \<and> IO_SIZE dvd bs \<and> 0 < bs \<and> bs < 2 ^ 32
     \<and> (\<exists>buf. fl_buf f = Some buf \<and> length buf = bs) \<and> fl_buf_pos f \<le> bs"

definition part_usable :: "cfg \<Rightarrow> nat \<Rightarrow> 'd zoad \<Rightarrow> bool" where
  "part_usable g i z \<longleftrightarrow>
     lib_ok z \<and> length (zs_parts z) < 2 ^ 32 - 1 \<and> (\<exists>l. zs_user_map z (cf_uid g) = Some l \<and> i \<in> set l)
     \<and> \<not> pt_deleted (zs_parts z ! i)"

text \<open>The bytes in the write buffer.\<close>

definition file_tail :: "ZoadFile \<Rightarrow> byte list" where
  "file_tail f = (case fl_buf f of None \<Rightarrow> [] | Some buf \<Rightarrow> take (fl_buf_pos f) buf)"

text \<open>The library after a list of stripes has been flushed under a key.\<close>

definition flush_all :: "'d params \<Rightarrow> string \<Rightarrow> nat \<Rightarrow> byte list list \<Rightarrow> 'd zoad \<Rightarrow> 'd zoad" where
  "flush_all pm key i ss z = foldl (\<lambda>z s. flushed pm key s i z) z ss"

lemma flush_all_simps [simp]:
  "flush_all pm key i [] z = z" "flush_all pm key i (s # ss) z = flush_all pm key i ss (flushed pm key s i z)"
  by (simp_all add: flush_all_def)

lemma flush_all_append: "flush_all pm key i (ss @ ts) z = flush_all pm key i ts (flush_all pm key i ss z)"
  by (simp add: flush_all_def)

lemma part_usable_i: "part_usable g i z \<Longrightarrow> i < length (zs_parts z)"
  using lib_okD(4) unfolding part_usable_def users_reg_def by blast

lemma flushed_frame:
  assumes "i < length (zs_parts z)"
  shows "length (zs_parts (flushed pm nm s i z)) = length (zs_parts z)" "zs_user_map (flushed pm nm s i z) = zs_user_map z"
    "pt_deleted (zs_parts (flushed pm nm s i z) ! i) = pt_deleted (zs_parts z ! i)" "zs_mem (flushed pm nm s i z) = zs_mem z"
  using assms by (simp_all add: flushed_def set_part_def Let_def split: option.splits)

lemma part_usable_flushed:
  assumes "part_usable g i z"
  shows "part_usable g i (flushed pm nm s i z)"
  using assms flushed_lib [OF _ part_usable_i [OF assms]] flushed_frame [OF part_usable_i [OF assms]] by (simp add: part_usable_def)

lemma flush_partial:
  assumes "file_wf g i bs f" "fl_buf_pos f < bs"
  shows "Flush_file_buffer pm g (f, z) = Inr (OK, f, z)"
  using assms by (simp add: Flush_file_buffer_def file_wf_def Let_def)

lemma flush_full:
  assumes f: "file_wf g i bs f" and p: "fl_buf_pos f = bs" and z: "part_usable g i z"
  shows "Flush_file_buffer pm g (f, z) = Inr (OK, f\<lparr>fl_buf_pos := 0\<rparr>, flushed pm (fl_key f) (file_tail f) i z)"
proof -
  obtain buf where buf: "fl_buf f = Some buf" "length buf = bs" using f by (auto simp: file_wf_def)
  obtain l where l: "lib_ok z" "length (zs_parts z) < 2 ^ 32 - 1" "zs_user_map z (cf_uid g) = Some l" "i \<in> set l"
    "\<not> pt_deleted (zs_parts z ! i)" using z by (auto simp: part_usable_def)
  obtain r where "z_flush pm (cf_uid g) (i + 1) (fl_key f) buf bs Z_APPEND z = Inr (r, flushed pm (fl_key f) buf i z)"
    using z_flush_eq [OF l(1-5), of bs buf pm "fl_key f" Z_APPEND] buf(2) by simp
  then show ?thesis
    using f p buf by (simp add: Flush_file_buffer_def file_wf_def file_buf_def u32_id file_tail_def)
qed

lemma fill_ok:
  assumes f: "file_wf g i bs f"
  shows "\<exists>f' c. fill_buffer g data f = Inr (c, f') \<and> file_wf g i bs f' \<and> c = min (length data) (bs - fl_buf_pos f)
     \<and> file_tail f' = file_tail f @ take c data \<and> fl_buf_pos f' = fl_buf_pos f + c \<and> fl_key f' = fl_key f
     \<and> fl_file_size f' = fl_file_size f"
proof -
  obtain buf where buf: "fl_buf f = Some buf" "length buf = bs" using f by (auto simp: file_wf_def)
  have b: "fl_buf_pos f \<le> bs" "bs < 2 ^ 32" using f by (simp_all add: file_wf_def)
  have sub: "u64_sub bs (fl_buf_pos f) = bs - fl_buf_pos f" using b by (simp add: u64_sub_def nat_mod_as_int of_nat_diff flip: of_nat_diff)
  define c where "c = min (length data) (bs - fl_buf_pos f)"
  have c: "fl_buf_pos f + c \<le> bs" "length (take c data) = c" using b by (simp_all add: c_def)
  define buf' where "buf' = take (fl_buf_pos f) buf @ take c data @ drop (fl_buf_pos f + c) buf"
  have "mem_write buf (fl_buf_pos f) (take c data) = Inr buf'"
    using c buf(2) by (simp add: mem_write_ok buf'_def)
  then have "fill_buffer g data f = Inr (c, f\<lparr>fl_buf := Some buf', fl_buf_pos := fl_buf_pos f + c\<rparr>)"
    using f buf sub by (simp add: fill_buffer_def file_wf_def file_buf_def c_def Let_def)
  moreover have "length buf' = bs" "take (fl_buf_pos f + c) buf' = take (fl_buf_pos f) buf @ take c data"
    using c buf b by (simp_all add: buf'_def)
  ultimately show ?thesis using f c buf unfolding c_def [symmetric]
    by (intro exI [of _ "f\<lparr>fl_buf := Some buf', fl_buf_pos := fl_buf_pos f + c\<rparr>"] exI [of _ c])
       (simp add: file_wf_def file_tail_def)
qed

text \<open>Everything of a file but its write buffer.\<close>

definition file_rest :: "ZoadFile \<Rightarrow> ZoadFile" where
  "file_rest f = f\<lparr>fl_buf := None, fl_buf_pos := 0\<rparr>"

lemma file_rest_upd [simp]:
  "file_rest (f\<lparr>fl_buf := b\<rparr>) = file_rest f" "file_rest (f\<lparr>fl_buf_pos := n\<rparr>) = file_rest f"
  by (cases f; simp add: file_rest_def)+

lemma file_restD:
  assumes "file_rest f = file_rest f'"
  shows "fl_key f = fl_key f'" "fl_flag f = fl_flag f'" "fl_file_size f = fl_file_size f'" "fl_name f = fl_name f'"
    "fl_refs f = fl_refs f'" "fl_read_buf f = fl_read_buf f'" "fl_read_buf_offset f = fl_read_buf_offset f'"
    "fl_use_read_buf f = fl_use_read_buf f'"
  using assms by (cases f; cases f'; simp add: file_rest_def)+

text \<open>
  The steps of a write: from \<open>(f, z)\<close> with \<open>xs\<close> more bytes to \<open>(f', z')\<close>. Full buffers go to the
  library as stripes, in order; the stripes and what is left in the buffer are the old buffer
  and the new bytes.
\<close>

definition written ::
  "'d params \<Rightarrow> cfg \<Rightarrow> nat \<Rightarrow> nat \<Rightarrow> byte list \<Rightarrow> ZoadFile \<Rightarrow> 'd zoad \<Rightarrow> ZoadFile \<Rightarrow> 'd zoad \<Rightarrow> bool" where
  "written pm g i bs xs f z f' z' \<longleftrightarrow>
     file_wf g i bs f' \<and> part_usable g i z' \<and> file_rest f' = file_rest f
     \<and> (\<exists>ss. z' = flush_all pm (fl_key f) i ss z \<and> (\<forall>s \<in> set ss. length s = bs)
          \<and> concat ss @ file_tail f' = file_tail f @ xs)"

lemma written_refl: "file_wf g i bs f \<Longrightarrow> part_usable g i z \<Longrightarrow> written pm g i bs [] f z f z"
  unfolding written_def by (auto intro: exI [of _ "[]"])

lemma written_trans:
  assumes a: "written pm g i bs xs f z f1 z1" and b: "written pm g i bs ys f1 z1 f2 z2"
  shows "written pm g i bs (xs @ ys) f z f2 z2"
proof -
  obtain ss where ss: "z1 = flush_all pm (fl_key f) i ss z" "\<forall>s \<in> set ss. length s = bs"
    "concat ss @ file_tail f1 = file_tail f @ xs" using a by (auto simp: written_def)
  obtain ts where ts: "z2 = flush_all pm (fl_key f) i ts z1" "\<forall>s \<in> set ts. length s = bs"
    "concat ts @ file_tail f2 = file_tail f1 @ ys" using a b file_restD(1) [of f1 f] by (auto simp: written_def)
  have "concat (ss @ ts) @ file_tail f2 = file_tail f @ xs @ ys" using ss(3) ts(3) by simp
  then show ?thesis
    using a b ss(1,2) ts(1,2) unfolding written_def by (auto simp: flush_all_append intro!: exI [of _ "ss @ ts"])
qed

lemma fill_written:
  assumes "file_wf g i bs f" "part_usable g i z"
  shows "\<exists>f' c. fill_buffer g data f = Inr (c, f') \<and> written pm g i bs (take c data) f z f' z
     \<and> c = min (length data) (bs - fl_buf_pos f) \<and> fl_buf_pos f' = fl_buf_pos f + c"
proof -
  obtain f' c where f': "fill_buffer g data f = Inr (c, f')" "file_wf g i bs f'" "c = min (length data) (bs - fl_buf_pos f)"
    "file_tail f' = file_tail f @ take c data" "fl_buf_pos f' = fl_buf_pos f + c" using fill_ok [OF assms(1)] by blast
  have "file_rest f' = file_rest f" using f'(1) by (auto simp: fill_buffer_def Let_def fault_simps)
  then have "written pm g i bs (take c data) f z f' z"
    using assms(2) f'(2,4) unfolding written_def by (auto intro!: exI [of _ "[]"])
  then show ?thesis using f' by blast
qed

lemma flush_written:
  assumes "file_wf g i bs f" "part_usable g i z"
  shows "\<exists>f' z'. Flush_file_buffer pm g (f, z) = Inr (OK, f', z') \<and> written pm g i bs [] f z f' z' \<and> fl_buf_pos f' < bs"
proof (cases "fl_buf_pos f = bs")
  case True
  let ?f = "f\<lparr>fl_buf_pos := 0\<rparr>" and ?z = "flushed pm (fl_key f) (file_tail f) i z"
  have "length (file_tail f) = bs" using assms(1) True by (auto simp: file_wf_def file_tail_def)
  moreover have "file_tail ?f = []" by (simp add: file_tail_def split: option.splits)
  ultimately have "written pm g i bs [] f z ?f ?z"
    using assms part_usable_flushed [OF assms(2)] unfolding written_def
    by (auto simp: file_wf_def intro!: exI [of _ "[file_tail f]"])
  moreover have "0 < bs" using assms(1) by (simp add: file_wf_def)
  ultimately show ?thesis using flush_full [OF assms(1) True assms(2)] by (intro exI [of _ ?f] exI [of _ ?z]) simp
next
  case False
  then have "fl_buf_pos f < bs" using assms(1) by (simp add: file_wf_def)
  then show ?thesis using flush_partial [OF assms(1)] written_refl [OF assms] by blast
qed

lemma writtenD: "written pm g i bs xs f z f' z' \<Longrightarrow> file_wf g i bs f' \<and> part_usable g i z'"
  by (simp add: written_def)

lemma round_written:
  assumes f: "file_wf g i bs f" "part_usable g i z" and pos: "fl_buf_pos f < bs" and d: "data \<noteq> []"
  shows "\<exists>c f' z'. write_unbuffered_round pm g (data, f, z) = Inr (drop c data, f', z') \<and> 0 < c
     \<and> written pm g i bs (take c data) f z f' z' \<and> fl_buf_pos f' < bs"
proof -
  obtain f1 c where c: "fill_buffer g data f = Inr (c, f1)" "written pm g i bs (take c data) f z f1 z"
    "c = min (length data) (bs - fl_buf_pos f)" using fill_written [OF f] by blast
  note w1 = writtenD [OF c(2)]
  have bs: "vec_at (cf_buf_size g) (fl_flag f1) = Inr bs" using w1 by (simp add: file_wf_def)
  have c0: "0 < c" using c(3) pos d by simp
  obtain f2 z2 where fl: "Flush_file_buffer pm g (f1, z) = Inr (OK, f2, z2)" "written pm g i bs [] f1 z f2 z2" "fl_buf_pos f2 < bs"
    using flush_written [of g i bs f1 z pm] w1 by blast
  show ?thesis
  proof (cases "bs \<le> fl_buf_pos f1")
    case True
    then show ?thesis using c(1) bs fl c0 written_trans [OF c(2) fl(2)] by (simp add: write_unbuffered_round_def) blast
  next
    case False
    then show ?thesis using c(1,2) bs c0 by (simp add: write_unbuffered_round_def) fastforce
  qed
qed

lemma loop_written:
  assumes "file_wf g i bs f" "part_usable g i z" "fl_buf_pos f < bs" "length data \<le> n"
  shows "\<exists>f' z'. ewhile n w (\<lambda>(data, _). 0 < length data) (write_unbuffered_round pm g) (data, f, z) = Inr ([], f', z')
     \<and> written pm g i bs data f z f' z'"
  using assms
proof (induction n arbitrary: data f z)
  case 0
  then show ?case using written_refl [of g i bs f z pm] by simp
next
  case (Suc n)
  show ?case
  proof (cases "data = []")
    case True
    then show ?thesis using written_refl [OF Suc.prems(1,2)] by simp
  next
    case False
    from round_written [OF Suc.prems(1-3) False] obtain c f1 z1 where
      r: "write_unbuffered_round pm g (data, f, z) = Inr (drop c data, f1, z1)" "0 < c"
        "written pm g i bs (take c data) f z f1 z1" "fl_buf_pos f1 < bs" by blast
    have "length (drop c data) \<le> n" using Suc.prems(4) r(2) by simp
    from Suc.IH [OF _ _ r(4) this] writtenD [OF r(3)] obtain f2 z2 where
      l: "ewhile n w (\<lambda>(data, _). 0 < length data) (write_unbuffered_round pm g) (drop c data, f1, z1) = Inr ([], f2, z2)"
        "written pm g i bs (drop c data) f1 z1 f2 z2" by blast
    then show ?thesis using False r(1) written_trans [OF r(3) l(2)] by auto
  qed
qed

lemma append_written:
  assumes f: "file_wf g i bs f" "part_usable g i z"
  shows "\<exists>f' z'. ZoadFile_Append pm g data (f, z) = Inr (OK, f', z')
     \<and> written pm g i bs data (f\<lparr>fl_file_size := u64 (fl_file_size f + length data)\<rparr>) z f' z'"
proof -
  let ?f = "f\<lparr>fl_file_size := u64 (fl_file_size f + length data)\<rparr>"
  have wf: "file_wf g i bs ?f" using f(1) by (simp add: file_wf_def)
  obtain f1 c where c: "fill_buffer g data ?f = Inr (c, f1)" "written pm g i bs (take c data) ?f z f1 z"
    "c = min (length data) (bs - fl_buf_pos ?f)" using fill_written [OF wf f(2)] by blast
  show ?thesis
  proof (cases "length data \<le> c")
    case True
    then show ?thesis using c by (simp add: ZoadFile_Append_def)
  next
    case False
    obtain f2 z2 where fl: "Flush_file_buffer pm g (f1, z) = Inr (OK, f2, z2)" "written pm g i bs [] f1 z f2 z2" "fl_buf_pos f2 < bs"
      using flush_written [of g i bs f1 z pm] writtenD [OF c(2)] by blast
    obtain f3 z3 where w: "ewhile (length (drop c data) + 1) ''WriteUnbuffered'' (\<lambda>(data, _). 0 < length data)
        (write_unbuffered_round pm g) (drop c data, f2, z2) = Inr ([], f3, z3)" "written pm g i bs (drop c data) f2 z2 f3 z3"
      using loop_written [OF _ _ fl(3), of g i z2 "drop c data"] writtenD [OF fl(2)] le_add1 by blast
    have "written pm g i bs data ?f z f3 z3"
      using written_trans [OF c(2) written_trans [OF fl(2) w(2)]] by simp
    then show ?thesis using c(1) False fl(1) w(1) by (simp add: ZoadFile_Append_def WriteUnbuffered_def)
  qed
qed

text \<open>
  Appending to a file conserves its bytes. The write never fails; it hands full
  buffers to the library as stripes of the size of the buffer, in order and under the key of the
  file, and keeps the rest: the stripes followed by the new buffer are the old buffer followed by
  the data. The size of the file grows by the data.
\<close>

theorem file_append_conserves:
  assumes "file_wf g i bs f" and "part_usable g i z"
  shows "\<exists>f' z' ss. ZoadFile_Append pm g data (f, z) = Inr (OK, f', z') \<and> z' = flush_all pm (fl_key f) i ss z
     \<and> (\<forall>s \<in> set ss. length s = bs) \<and> concat ss @ file_tail f' = file_tail f @ data
     \<and> fl_file_size f' = u64 (fl_file_size f + length data) \<and> file_wf g i bs f'"
proof -
  let ?f = "f\<lparr>fl_file_size := u64 (fl_file_size f + length data)\<rparr>"
  obtain f' z' where w: "ZoadFile_Append pm g data (f, z) = Inr (OK, f', z')" "written pm g i bs data ?f z f' z'"
    using append_written [OF assms] by blast
  have t: "file_tail ?f = file_tail f" by (simp add: file_tail_def split: option.split)
  show ?thesis
    using w file_restD(3) [of f' ?f] unfolding written_def t by auto
qed

section \<open>Reading a file\<close>

text \<open>
  A file whose flushed part has reached the device: the object of partition \<open>i\<close> with the key of
  the file holds the bytes \<open>cs\<close>, the write buffer holds the rest. A file that has not flushed
  anything yet has no object.
\<close>

definition file_at ::
  "'d params \<Rightarrow> ('d \<Rightarrow> nat \<Rightarrow> byte) \<Rightarrow> ('d \<Rightarrow> nat \<Rightarrow> nat) \<Rightarrow> nat \<Rightarrow> nat \<Rightarrow> nat \<Rightarrow> cfg \<Rightarrow> nat \<Rightarrow> nat
    \<Rightarrow> byte list \<Rightarrow> ZoadFile \<Rightarrow> 'd zoad \<Rightarrow> bool" where
  "file_at pm media hwp zsz nz k g i bs cs f z \<longleftrightarrow>
     part_usable g i z \<and> file_wf g i bs f \<and> bs = pt_izg_cnt (zs_parts z ! i) * IO_SIZE
     \<and> fl_file_size f = length cs + fl_buf_pos f \<and> fl_file_size f < 2 ^ 32
     \<and> (\<exists>xss. sys_ok pm media hwp zsz nz k z xss
          \<and> cs = (case pt_userdata_map (zs_parts z ! i) (fl_key f) of None \<Rightarrow> [] | Some u \<Rightarrow> concat (xss ! u)))"

lemma file_atD:
  assumes "file_at pm media hwp zsz nz k g i bs cs f z"
  shows "part_usable g i z" "file_wf g i bs f" "bs = pt_izg_cnt (zs_parts z ! i) * IO_SIZE"
    "fl_file_size f = length cs + fl_buf_pos f" "fl_file_size f < 2 ^ 32"
    "\<exists>xss. sys_ok pm media hwp zsz nz k z xss
       \<and> cs = (case pt_userdata_map (zs_parts z ! i) (fl_key f) of None \<Rightarrow> [] | Some u \<Rightarrow> concat (xss ! u))"
  using assms unfolding file_at_def by blast+

text \<open>The objects the names of a usable partition stand for.\<close>

lemma part_usable_user:
  assumes "part_usable g i z" "pt_userdata_map (zs_parts z ! i) nm = Some u"
  shows "\<exists>d. u < length (zs_users z) \<and> zs_users z ! u = Some d \<and> ud_partition d = i"
proof -
  have "lib_ok z" using assms(1) by (simp add: part_usable_def)
  from part_regD(6) [OF lib_okD(3) [OF this part_usable_i [OF assms(1)]] assms(2)]
  show ?thesis by (auto simp: live_def owners_def)
qed

text \<open>The read buffer holds one unit of the flushed bytes, from a multiple of the unit on.\<close>

definition cache_ok :: "byte list \<Rightarrow> ZoadFile \<Rightarrow> bool" where
  "cache_ok cs f \<longleftrightarrow> length (fl_read_buf f) = IO_SIZE
     \<and> (fl_use_read_buf f \<longrightarrow> IO_SIZE dvd fl_read_buf_offset f \<and> fl_read_buf_offset f + IO_SIZE \<le> length cs
          \<and> fl_read_buf f = take IO_SIZE (drop (fl_read_buf_offset f) cs))"

text \<open>The same without the alignment, which a read at another offset does not keep.\<close>

definition cache_holds :: "byte list \<Rightarrow> ZoadFile \<Rightarrow> bool" where
  "cache_holds cs f \<longleftrightarrow> length (fl_read_buf f) = IO_SIZE
     \<and> (fl_use_read_buf f \<longrightarrow> fl_read_buf_offset f + IO_SIZE \<le> length cs
          \<and> fl_read_buf f = take IO_SIZE (drop (fl_read_buf_offset f) cs))"

lemma cache_ok_holds: "cache_ok cs f \<Longrightarrow> cache_holds cs f"
  by (simp add: cache_ok_def cache_holds_def)

lemma holds_length:
  assumes S: "sys_ok pm media hwp zsz nz k z xss" and u: "u < length (zs_users z)" "zs_users z ! u = Some d" "ud_partition d = i"
  shows "length (concat (xss ! u)) = length (xss ! u) * (pt_izg_cnt (zs_parts z ! i) * IO_SIZE)"
proof -
  have "stored (media (c_dev (wd_c (zs_world z)))) (nz * zsz) (wd_iv (zs_world z)) (pt_izg_cnt (zs_parts z ! i)) (xss ! u) (ud_file_segment d)"
    using sys_okD(7) [OF S u(1,2)] u(3) by (simp add: holds_def)
  note st = storedD [OF this]
  show ?thesis by (rule length_concat_even) (use st(6) in \<open>auto simp: in_set_conv_nth\<close>)
qed

text \<open>The object a file with flushed bytes has.\<close>

lemma file_object:
  assumes F: "file_at pm media hwp zsz nz k g i bs cs f z" and "cs \<noteq> []"
  obtains xss u d l where "sys_ok pm media hwp zsz nz k z xss"
    "pt_userdata_map (zs_parts z ! i) (fl_key f) = Some u" "u < length (zs_users z)" "zs_users z ! u = Some d"
    "ud_partition d = i" "concat (xss ! u) = cs" "length cs = length (xss ! u) * bs"
    "lib_ok z" "length (zs_parts z) < 2 ^ 32 - 1" "zs_user_map z (cf_uid g) = Some l" "i \<in> set l"
    "\<not> pt_deleted (zs_parts z ! i)"
proof -
  obtain xss u where S: "sys_ok pm media hwp zsz nz k z xss" and u1: "pt_userdata_map (zs_parts z ! i) (fl_key f) = Some u"
    and u5: "concat (xss ! u) = cs" using file_atD(6) [OF F] assms(2) by (auto split: option.splits)
  obtain d where u: "u < length (zs_users z)" "zs_users z ! u = Some d" "ud_partition d = i"
    using part_usable_user [OF file_atD(1) [OF F] u1] by blast
  obtain l where l: "lib_ok z" "length (zs_parts z) < 2 ^ 32 - 1" "zs_user_map z (cf_uid g) = Some l" "i \<in> set l"
    "\<not> pt_deleted (zs_parts z ! i)" using file_atD(1) [OF F] by (auto simp: part_usable_def)
  have "length cs = length (xss ! u) * bs" using holds_length [OF S u] u5 file_atD(3) [OF F] by simp
  from that [OF S u1 u u5 this l] show thesis .
qed

text \<open>A load of up to one stripe of flushed bytes.\<close>

lemma file_load:
  assumes F: "file_at pm media hwp zsz nz k g i bs cs f z" and n: "0 < n" "n \<le> bs" "off + n \<le> length cs"
    and fit: "scratch + bs \<le> length (zs_mem z)"
  shows "\<exists>z' ys r. z_load pm (cf_uid g) (i + 1) (fl_key f) scratch off n z = Inr (r, z')
     \<and> zs_mem z' = patch (zs_mem z) scratch ys \<and> n \<le> length ys \<and> length ys \<le> bs \<and> take n ys = take n (drop off cs)
     \<and> file_at pm media hwp zsz nz k g i bs cs f z'"
proof -
  have "cs \<noteq> []" using n by auto
  then obtain xss u d l where S: "sys_ok pm media hwp zsz nz k z xss"
    and u: "pt_userdata_map (zs_parts z ! i) (fl_key f) = Some u" "u < length (zs_users z)" "zs_users z ! u = Some d"
      "ud_partition d = i" "concat (xss ! u) = cs" and len: "length cs = length (xss ! u) * bs"
    and l: "lib_ok z" "length (zs_parts z) < 2 ^ 32 - 1" "zs_user_map z (cf_uid g) = Some l" "i \<in> set l"
      "\<not> pt_deleted (zs_parts z ! i)" using file_object [OF F] by metis
  note bs = file_atD(3) [OF F] and i = part_usable_i [OF file_atD(1) [OF F]]
  from user_read_ok [OF S u(2,3) refl, of n off scratch] u(4) n fit bs len obtain rb ys where
    r: "user_read pm u scratch off n z = Inr (set_part i ((zs_parts z ! i)\<lparr>pt_read_buf := rb\<rparr>) (z\<lparr>zs_mem := patch (zs_mem z) scratch ys\<rparr>))"
    "length ys \<le> bs" "n \<le> length ys" "take n ys = take n (drop off (concat (xss ! u)))"
    "sys_ok pm media hwp zsz nz k (set_part i ((zs_parts z ! i)\<lparr>pt_read_buf := rb\<rparr>) (z\<lparr>zs_mem := patch (zs_mem z) scratch ys\<rparr>)) xss"
    by auto
  let ?z = "set_part i ((zs_parts z ! i)\<lparr>pt_read_buf := rb\<rparr>) (z\<lparr>zs_mem := patch (zs_mem z) scratch ys\<rparr>)"
  obtain q where ld: "z_load pm (cf_uid g) (i + 1) (fl_key f) scratch off n z = Inr (q, ?z)"
    using z_load_eq [OF l(1-5) u(1), of pm scratch off n] r(1) by auto
  have "lib_ok ?z" using z_load_lib [OF l(1) ld] .
  then have "part_usable g i ?z" using l i by (simp add: part_usable_def set_part_def)
  then have "file_at pm media hwp zsz nz k g i bs cs f ?z"
    unfolding file_at_def using r(5) u i bs file_atD(2,4,5) [OF F] by (intro conjI exI [of _ xss]) (simp_all add: set_part_def)
  then show ?thesis using ld r u(5) by (intro exI [of _ ?z] exI [of _ ys] exI [of _ q]) (simp add: set_part_def)
qed

text \<open>A load that runs past the flushed bytes ends the process.\<close>

lemma file_load_overruns:
  assumes F: "file_at pm media hwp zsz nz k g i bs cs f z" and n: "n \<le> bs" "off < length cs" "length cs < off + n"
    and fit: "scratch + bs \<le> length (zs_mem z)"
  shows "z_load pm (cf_uid g) (i + 1) (fl_key f) scratch off n z = Inl (Exit ''Read size error'')"
proof -
  have "cs \<noteq> []" using n by auto
  then obtain xss u d l where S: "sys_ok pm media hwp zsz nz k z xss"
    and u: "pt_userdata_map (zs_parts z ! i) (fl_key f) = Some u" "u < length (zs_users z)" "zs_users z ! u = Some d"
      "ud_partition d = i" and len: "length cs = length (xss ! u) * bs"
    and l: "lib_ok z" "length (zs_parts z) < 2 ^ 32 - 1" "zs_user_map z (cf_uid g) = Some l" "i \<in> set l"
      "\<not> pt_deleted (zs_parts z ! i)" using file_object [OF F] by metis
  have "user_read pm u scratch off n z = Inl (Exit ''Read size error'')"
    using user_read_overruns [OF S u(2,3) refl, of n off scratch] u(4) n fit file_atD(3) [OF F] len by simp
  with z_load_eq [OF l u(1), of pm scratch off n] show ?thesis by simp
qed

lemma file_at_mem [simp]:
  "file_at pm media hwp zsz nz k g i bs cs f (z\<lparr>zs_mem := m\<rparr>) = file_at pm media hwp zsz nz k g i bs cs f z"
  by (simp add: file_at_def part_usable_def lib_ok_def owners_def sys_ok_mem)

lemma file_at_cache [simp]:
  "file_at pm media hwp zsz nz k g i bs cs (f\<lparr>fl_read_buf := rb\<rparr>) z = file_at pm media hwp zsz nz k g i bs cs f z"
  "file_at pm media hwp zsz nz k g i bs cs (f\<lparr>fl_read_buf_offset := n\<rparr>) z = file_at pm media hwp zsz nz k g i bs cs f z"
  "file_at pm media hwp zsz nz k g i bs cs (f\<lparr>fl_read_size := n\<rparr>) z = file_at pm media hwp zsz nz k g i bs cs f z"
  "file_at pm media hwp zsz nz k g i bs cs (f\<lparr>fl_buf_read_size := n\<rparr>) z = file_at pm media hwp zsz nz k g i bs cs f z"
  "file_at pm media hwp zsz nz k g i bs cs (f\<lparr>fl_use_read_buf := b\<rparr>) z = file_at pm media hwp zsz nz k g i bs cs f z"
  by (simp_all add: file_at_def file_wf_def)

lemma copy_out_ok:
  "pos + n \<le> length src \<Longrightarrow> scratch + n \<le> length (zs_mem z) \<Longrightarrow>
   copy_out src pos n scratch z = Inr (z\<lparr>zs_mem := patch (zs_mem z) scratch (take n (drop pos src))\<rparr>)"
  by (simp add: copy_out_def mem_write_patch)

lemma load_units_ok:
  assumes F: "file_at pm media hwp zsz nz k g i bs cs f z" and rs: "0 < rs" "IO_SIZE dvd rs" "rs \<le> bs" "off + rs \<le> length cs"
    and fit: "scratch + bs \<le> length (zs_mem z)" and rb: "length (fl_read_buf f) = IO_SIZE"
  shows "\<exists>z' ys. load_units pm g scratch off rs (f, z) =
       Inr (f\<lparr>fl_read_buf := take IO_SIZE (drop (off + rs - IO_SIZE) cs), fl_read_buf_offset := off + rs - IO_SIZE\<rparr>, z')
     \<and> zs_mem z' = patch (zs_mem z) scratch ys \<and> rs \<le> length ys \<and> length ys \<le> bs \<and> take rs ys = take rs (drop off cs)
     \<and> file_at pm media hwp zsz nz k g i bs cs f z'"
proof -
  obtain z' ys r where l: "z_load pm (cf_uid g) (i + 1) (fl_key f) scratch off rs z = Inr (r, z')"
    "zs_mem z' = patch (zs_mem z) scratch ys" "rs \<le> length ys" "length ys \<le> bs" "take rs ys = take rs (drop off cs)"
    "file_at pm media hwp zsz nz k g i bs cs f z'" using file_load [OF F rs(1,3,4) fit] by blast
  have wf: "fl_flag f < length (cf_lp_id g)" "cf_lp_id g ! fl_flag f = i + 1" using file_atD(2) [OF F] by (simp_all add: file_wf_def)
  have u: "u32 off = off" "u32 rs = rs" using file_atD(4,5) [OF F] rs(4) by (simp_all add: u32_id)
  have io: "IO_SIZE \<le> rs" using rs(1,2) by (simp add: dvd_imp_le)
  have "take IO_SIZE (drop (scratch + rs - IO_SIZE) (patch (zs_mem z) scratch ys)) = take IO_SIZE (drop (rs - IO_SIZE) ys)"
    using io l(3,4) fit by (simp add: patch_def)
  also have "\<dots> = take IO_SIZE (drop (rs - IO_SIZE) (take rs ys))" using io by (simp add: drop_take)
  also have "\<dots> = take IO_SIZE (drop (off + rs - IO_SIZE) cs)" unfolding l(5) using io by (simp add: drop_take add.commute)
  finally have "mem_read (zs_mem z') (scratch + rs - IO_SIZE) IO_SIZE = Inr (take IO_SIZE (drop (off + rs - IO_SIZE) cs))"
    using l(2-4) io fit by (simp add: length_patch)
  moreover have "length (take IO_SIZE (drop (off + rs - IO_SIZE) cs)) = IO_SIZE" using rs(4) io by simp
  then have "mem_write (fl_read_buf f) 0 (take IO_SIZE (drop (off + rs - IO_SIZE) cs)) = Inr (take IO_SIZE (drop (off + rs - IO_SIZE) cs))"
    using rb by (simp add: mem_write_patch patch_whole)
  ultimately show ?thesis using l wf u by (intro exI [of _ z'] exI [of _ ys]) (simp add: load_units_def)
qed

lemma round_up_ok:
  assumes "0 < n"
  shows "n \<le> round_up n" "IO_SIZE dvd round_up n" "0 < round_up n" "IO_SIZE dvd bs \<Longrightarrow> n \<le> bs \<Longrightarrow> round_up n \<le> bs"
proof -
  have e: "round_up n = (if n mod IO_SIZE = 0 then n div IO_SIZE else n div IO_SIZE + 1) * IO_SIZE"
    by (simp add: round_up_def minus_mod_eq_div_mult algebra_simps)
  have d: "n = n div IO_SIZE * IO_SIZE + n mod IO_SIZE" by simp
  have m: "n mod IO_SIZE < IO_SIZE" by simp
  have "n \<le> round_up n"
  proof (cases "n mod IO_SIZE = 0")
    case True
    then have "round_up n = n div IO_SIZE * IO_SIZE" using e by simp
    then show ?thesis using d True by linarith
  next
    case False
    then have "round_up n = n div IO_SIZE * IO_SIZE + IO_SIZE" using e by simp
    then show ?thesis using d m by linarith
  qed
  then show le: "n \<le> round_up n" .
  show "IO_SIZE dvd round_up n" unfolding e by simp
  show "0 < round_up n" using le assms by linarith
  assume bs: "IO_SIZE dvd bs" "n \<le> bs"
  then obtain q where q: "bs = q * IO_SIZE" by (metis dvd_div_mult_self)
  have "(if n mod IO_SIZE = 0 then n div IO_SIZE else n div IO_SIZE + 1) \<le> q"
  proof (cases "n mod IO_SIZE = 0")
    case True
    then show ?thesis using bs(2) q by (simp add: div_le_mono [of n bs IO_SIZE, simplified q, simplified])
  next
    case False
    have "n div IO_SIZE < q"
    proof (rule ccontr)
      assume "\<not> n div IO_SIZE < q"
      then have "q * IO_SIZE \<le> n div IO_SIZE * IO_SIZE" by (intro mult_le_mono1) simp
      then show False using d False bs(2) q by linarith
    qed
    then show ?thesis using False by simp
  qed
  then show "round_up n \<le> bs" unfolding e q by (rule mult_le_mono1)
qed

text \<open>The outcome of a read: the bytes are in the caller's memory, file and library are still in step.\<close>

definition read_done ::
  "'d params \<Rightarrow> ('d \<Rightarrow> nat \<Rightarrow> byte) \<Rightarrow> ('d \<Rightarrow> nat \<Rightarrow> nat) \<Rightarrow> nat \<Rightarrow> nat \<Rightarrow> nat \<Rightarrow> cfg \<Rightarrow> nat \<Rightarrow> nat \<Rightarrow> byte list
    \<Rightarrow> nat \<Rightarrow> byte list \<Rightarrow> ZoadFile \<times> 'd zoad \<Rightarrow> bool" where
  "read_done pm media hwp zsz nz k g i bs cs scratch xs = (\<lambda>(f, z).
     file_at pm media hwp zsz nz k g i bs cs f z \<and> take (length xs) (drop scratch (zs_mem z)) = xs)"

lemma patch_done:
  assumes "scratch + length ys \<le> length m" "n \<le> length ys" "take n ys = xs" "length xs = n"
  shows "take (length xs) (drop scratch (patch m scratch ys)) = xs"
  using patch_at [OF assms(1,2)] assms(3,4) by simp

lemma cut_cut: "a + n \<le> m \<Longrightarrow> take n (drop a (take m (drop b cs))) = take n (drop (b + a) (cs :: 'a list))"
  by (simp add: drop_take add.commute min_def)

lemma cache_holdsD:
  assumes "cache_holds cs f" "fl_use_read_buf f"
  shows "fl_read_buf f = take IO_SIZE (drop (fl_read_buf_offset f) cs)" "length (fl_read_buf f) = IO_SIZE"
    "fl_read_buf_offset f + IO_SIZE \<le> length cs"
  using assms unfolding cache_holds_def by blast+

lemma read_hit:
  assumes F: "file_at pm media hwp zsz nz k g i bs cs f z" and C: "cache_holds cs f" "fl_use_read_buf f"
    and hit: "fl_read_buf_offset f \<le> off" "off + n \<le> fl_read_buf_offset f + IO_SIZE"
    and fit: "scratch + n \<le> length (zs_mem z)"
  shows "\<exists>z'. read_flushed pm g off n scratch (f, z) = Inr (f, z')
     \<and> read_done pm media hwp zsz nz k g i bs cs scratch (take n (drop off cs)) (f, z')"
proof -
  let ?a = "off - fl_read_buf_offset f"
  note c = cache_holdsD [OF C]
  have a: "?a + n \<le> IO_SIZE" using hit by simp
  have x: "take n (drop ?a (fl_read_buf f)) = take n (drop off cs)"
    unfolding c(1) cut_cut [OF a] using hit(1) by simp
  have len: "length (take n (drop off cs)) = n" using hit c(3) by simp
  let ?z = "z\<lparr>zs_mem := patch (zs_mem z) scratch (take n (drop off cs))\<rparr>"
  have "read_flushed pm g off n scratch (f, z) = Inr (f, ?z)"
    using C(2) hit copy_out_ok [of ?a n "fl_read_buf f" scratch z] a c(2) fit x by (simp add: read_flushed_def Let_def)
  moreover have "take (length (take n (drop off cs))) (drop scratch (patch (zs_mem z) scratch (take n (drop off cs)))) = take n (drop off cs)"
    by (rule patch_done) (use fit len in simp_all)
  ultimately show ?thesis using F by (simp add: read_done_def)
qed

text \<open>A miss, and the first read of the file.\<close>

lemma read_miss:
  assumes F: "file_at pm media hwp zsz nz k g i bs cs f z" and rb: "length (fl_read_buf f) = IO_SIZE"
    and n: "0 < n" "n \<le> bs" and o: "off + round_up n \<le> length cs" and fit: "scratch + bs \<le> length (zs_mem z)"
  shows "\<exists>z' f'. load_units pm g scratch off (round_up n) (f, z) = Inr (f', z')
     \<and> cache_holds cs f' \<and> cache_holds cs (f'\<lparr>fl_use_read_buf := True\<rparr>)
     \<and> take (round_up n) (drop scratch (zs_mem z')) = take (round_up n) (drop off cs)
     \<and> read_done pm media hwp zsz nz k g i bs cs scratch (take n (drop off cs)) (f', z')"
proof -
  have "IO_SIZE dvd bs" using file_atD(2) [OF F] by (simp add: file_wf_def)
  note r = round_up_ok(1-3) [OF n(1)] round_up_ok(4) [OF n(1) this n(2)]
  have io: "IO_SIZE \<le> round_up n" using r(2,3) by (simp add: dvd_imp_le)
  let ?f = "f\<lparr>fl_read_buf := take IO_SIZE (drop (off + round_up n - IO_SIZE) cs), fl_read_buf_offset := off + round_up n - IO_SIZE\<rparr>"
  obtain z' ys where z': "load_units pm g scratch off (round_up n) (f, z) = Inr (?f, z')"
    "zs_mem z' = patch (zs_mem z) scratch ys" "round_up n \<le> length ys" "length ys \<le> bs"
    "take (round_up n) ys = take (round_up n) (drop off cs)" "file_at pm media hwp zsz nz k g i bs cs f z'"
    using load_units_ok [OF F r(3,2,4) o fit rb] by blast
  have "take n ys = take n (take (round_up n) ys)" using r(1) by (simp add: min_def)
  then have "take n ys = take n (drop off cs)" unfolding z'(5) using r(1) by (simp add: min_def)
  then have d: "take (length (take n (drop off cs))) (drop scratch (patch (zs_mem z) scratch ys)) = take n (drop off cs)"
    using r(1) z'(3,4) fit o by (intro patch_done [where n = n]) simp_all
  have "take (round_up n) (drop scratch (zs_mem z')) = take (round_up n) (drop off cs)"
    unfolding z'(2) z'(5) [symmetric] using patch_at z'(3,4) fit by simp
  moreover have "cache_holds cs ?f" "cache_holds cs (?f\<lparr>fl_use_read_buf := True\<rparr>)" using o io by (simp_all add: cache_holds_def)
  ultimately show ?thesis using z'(1,2,6) d by (intro exI [of _ z'] exI [of _ ?f]) (simp add: read_done_def)
qed

lemma load_units_overruns:
  assumes F: "file_at pm media hwp zsz nz k g i bs cs f z" and n: "0 < n" "n \<le> bs" and o: "off < length cs" "length cs < off + round_up n"
    and fit: "scratch + bs \<le> length (zs_mem z)"
  shows "load_units pm g scratch off (round_up n) (f, z) = Inl (Exit ''Read size error'')"
proof -
  note wf = file_atD(2) [OF F] and sz = file_atD(4,5) [OF F]
  have r: "round_up n \<le> bs" using round_up_ok(4) [OF n(1), of bs] n(2) wf by (simp add: file_wf_def)
  have "bs < 2 ^ 32" using wf by (simp add: file_wf_def)
  then have u: "u32 off = off" "u32 (round_up n) = round_up n" using sz o r by (simp_all add: u32_id)
  show ?thesis using file_load_overruns [OF F r o fit] wf u by (simp add: load_units_def file_wf_def)
qed

lemma partial_bytes:
  assumes "b < n" "n \<le> r + b" "r \<le> length ys" "take r ys = take r (drop (off + b) cs)" "off + b + r \<le> length cs"
    and fit: "scratch + b + length ys \<le> length mem"
  shows "take (length (take n (drop off cs))) (drop scratch (patch (patch mem scratch (take b (drop off cs))) (scratch + b) ys))
     = take n (drop off cs)"
proof -
  let ?x = "take b (drop off cs)"
  have x: "length ?x = b" using assms(5) by simp
  have m: "patch (patch mem scratch ?x) (scratch + b) ys = patch mem scratch (?x @ ys)"
    using patch_patch [of scratch ?x ys mem] x fit by simp
  have nb: "n - b \<le> r" using assms(2) by linarith
  then have "take (n - b) ys = take (n - b) (take r ys)" by (simp add: min_absorb1)
  then have "take (n - b) ys = take (n - b) (drop (off + b) cs)" unfolding assms(4) using nb by (simp add: min_absorb1)
  then have "take n (?x @ ys) = take b (drop off cs) @ take (n - b) (drop b (drop off cs))"
    using x assms(1) by (simp add: add.commute)
  also have "\<dots> = take (b + (n - b)) (drop off cs)" by (simp only: take_add)
  finally have "take n (?x @ ys) = take n (drop off cs)" using assms(1) by simp
  then show ?thesis unfolding m using x assms fit by (intro patch_done [where n = n]) simp_all
qed

text \<open>
  A range that starts in the read buffer and ends behind it: \<open>b\<close> bytes from the read buffer, up to
  the next multiple of the unit, the others from the device.
\<close>

lemma read_partial:
  assumes F: "file_at pm media hwp zsz nz k g i bs cs f z" and C: "cache_holds cs f" "fl_use_read_buf f"
    and hit: "fl_read_buf_offset f \<le> off" "off < fl_read_buf_offset f + IO_SIZE" "fl_read_buf_offset f + IO_SIZE < off + n"
    and unit: "off - fl_read_buf_offset f \<le> off mod IO_SIZE" and b: "b = IO_SIZE - off mod IO_SIZE"
    and n: "n \<le> bs" "off + b + round_up n \<le> length cs" and fit: "scratch + bs + IO_SIZE \<le> length (zs_mem z)"
  shows "\<exists>f' z'. read_flushed pm g off n scratch (f, z) = Inr (f', z') \<and> cache_holds cs f'
     \<and> read_done pm media hwp zsz nz k g i bs cs scratch (take n (drop off cs)) (f', z')"
proof -
  define rbo where "rbo = fl_read_buf_offset f"
  note c = cache_holdsD [OF C, folded rbo_def]
  note hit = hit [folded rbo_def]
  have "off mod IO_SIZE < IO_SIZE" by simp
  then have bb: "off + b \<le> rbo + IO_SIZE" "0 < b" "b < n" "b \<le> IO_SIZE" "off - rbo + b \<le> IO_SIZE"
    using hit unit [folded rbo_def] b by linarith+
  let ?f = "f\<lparr>fl_read_size := round_up n, fl_buf_read_size := b\<rparr>"
  let ?x = "take b (drop off cs)"
  have x: "take b (drop (off - rbo) (fl_read_buf f)) = ?x" "length ?x = b"
    unfolding c(1) using cut_cut [of "off - rbo" b IO_SIZE rbo cs] bb hit(1) c(3) by simp_all
  let ?z1 = "z\<lparr>zs_mem := patch (zs_mem z) scratch ?x\<rparr>"
  have co: "copy_out (fl_read_buf f) (off - rbo) b scratch z = Inr ?z1"
    using copy_out_ok [of "off - rbo" b "fl_read_buf f" scratch z] x bb c(2) fit by simp
  have len1: "length (zs_mem ?z1) = length (zs_mem z)" using x(2) bb fit by (simp add: length_patch)
  have fit2: "scratch + b + bs \<le> length (zs_mem ?z1)" using fit bb(4) unfolding len1 by linarith
  have F1: "file_at pm media hwp zsz nz k g i bs cs ?f ?z1" using F by simp
  have n0: "0 < n" using bb by simp
  have "IO_SIZE dvd bs" using file_atD(2) [OF F] by (simp add: file_wf_def)
  note r = round_up_ok(1-3) [OF n0] round_up_ok(4) [OF n0 this n(1)]
  have io: "IO_SIZE \<le> round_up n" using r(2,3) by (simp add: dvd_imp_le)
  let ?f2 = "?f\<lparr>fl_read_buf := take IO_SIZE (drop (off + b + round_up n - IO_SIZE) cs), fl_read_buf_offset := off + b + round_up n - IO_SIZE\<rparr>"
  obtain z2 ys where l: "load_units pm g (scratch + b) (off + b) (round_up n) (?f, ?z1) = Inr (?f2, z2)"
    "zs_mem z2 = patch (zs_mem ?z1) (scratch + b) ys" "round_up n \<le> length ys" "length ys \<le> bs"
    "take (round_up n) ys = take (round_up n) (drop (off + b) cs)" "file_at pm media hwp zsz nz k g i bs cs ?f z2"
    using load_units_ok [OF F1 r(3,2,4) n(2) fit2] c(2) by auto
  have "read_flushed pm g off n scratch (f, z) = Inr (?f2, z2)"
    using C(2) hit co l(1) by (simp add: read_flushed_def Let_def rbo_def [symmetric] b [symmetric])
  moreover have "cache_holds cs ?f2" using n(2) io by (simp add: cache_holds_def)
  moreover have "take (length (take n (drop off cs))) (drop scratch (zs_mem z2)) = take n (drop off cs)"
    unfolding l(2) using partial_bytes [of b n "round_up n" ys off cs scratch "zs_mem z"] l(3-5) bb(3,4) r(1) n fit by simp
  ultimately show ?thesis using l(6) by (intro exI [of _ ?f2] exI [of _ z2]) (simp add: read_done_def)
qed

lemma read_partial_overruns:
  assumes F: "file_at pm media hwp zsz nz k g i bs cs f z" and C: "cache_holds cs f" "fl_use_read_buf f"
    and hit: "fl_read_buf_offset f \<le> off" "off < fl_read_buf_offset f + IO_SIZE" "fl_read_buf_offset f + IO_SIZE < off + n"
    and unit: "off - fl_read_buf_offset f \<le> off mod IO_SIZE" and b: "b = IO_SIZE - off mod IO_SIZE"
    and n: "n \<le> bs" "off + n \<le> length cs" "length cs < off + b + round_up n" and fit: "scratch + bs + IO_SIZE \<le> length (zs_mem z)"
  shows "read_flushed pm g off n scratch (f, z) = Inl (Exit ''Read size error'')"
proof -
  let ?rbo = "fl_read_buf_offset f"
  note c = cache_holdsD [OF C]
  have "off mod IO_SIZE < IO_SIZE" by simp
  then have bb: "off + b \<le> ?rbo + IO_SIZE" "0 < b" "b < n" "b \<le> IO_SIZE" "off - ?rbo + b \<le> IO_SIZE"
    using hit unit b by linarith+
  let ?f = "f\<lparr>fl_read_size := round_up n, fl_buf_read_size := b\<rparr>"
  let ?x = "take b (drop (off - ?rbo) (fl_read_buf f))"
  let ?z1 = "z\<lparr>zs_mem := patch (zs_mem z) scratch ?x\<rparr>"
  have co: "copy_out (fl_read_buf f) (off - ?rbo) b scratch z = Inr ?z1"
    by (rule copy_out_ok) (use bb c(2) fit in linarith)+
  have "length (zs_mem ?z1) = length (zs_mem z)" using bb fit c(2) by (simp add: length_patch)
  then have fit2: "scratch + b + bs \<le> length (zs_mem ?z1)" using fit bb(4) by linarith
  have F1: "file_at pm media hwp zsz nz k g i bs cs ?f ?z1" using F by simp
  have "load_units pm g (scratch + b) (off + b) (round_up n) (?f, ?z1) = Inl (Exit ''Read size error'')"
    using bb n hit by (intro load_units_overruns [OF F1 _ n(1) _ n(3) fit2]) linarith+
  then show ?thesis using C(2) hit co by (simp add: read_flushed_def Let_def b [symmetric])
qed

lemma read_behind_cache:
  assumes "fl_use_read_buf f" "length (fl_read_buf f) = IO_SIZE"
    and "fl_read_buf_offset f \<le> off" "off < fl_read_buf_offset f + IO_SIZE" "fl_read_buf_offset f + IO_SIZE < off + n"
    and "off mod IO_SIZE < off - fl_read_buf_offset f"
  shows "read_flushed pm g off n scratch (f, z) = Inl (OutOfBounds ''buffer read'')"
proof -
  have "off mod IO_SIZE < IO_SIZE" by simp
  then have "length (fl_read_buf f) < (off - fl_read_buf_offset f) + (IO_SIZE - off mod IO_SIZE)" using assms(2,6) by linarith
  then have "mem_read (fl_read_buf f) (off - fl_read_buf_offset f) (IO_SIZE - off mod IO_SIZE) = Inl (OutOfBounds ''buffer read'')"
    by (simp add: mem_read_def del: minus_mod_eq_mult_div)
  then show ?thesis using assms(1,3-5) by (simp add: read_flushed_def Let_def copy_out_def)
qed

text \<open>
  The reads that fail, for a file with \<open>F\<close> flushed bytes. A range that ends in the write buffer or
  lies in the read buffer is safe. Otherwise whole units are loaded, from the offset or, when
  the range starts in the read buffer, from the next multiple of the unit; they must be flushed.
  And a read buffer that starts inside a unit must not be used behind the end of that unit.
\<close>

definition read_fault :: "nat \<Rightarrow> nat \<Rightarrow> nat \<Rightarrow> ZoadFile \<Rightarrow> fault option" where
  "read_fault F off n f =
     (let rbo = fl_read_buf_offset f; overrun = Exit ''Read size error'' in
      if F < off + n then None
      else if fl_use_read_buf f \<and> rbo \<le> off \<and> off < rbo + IO_SIZE then
        if off + n \<le> rbo + IO_SIZE then None
        else if off mod IO_SIZE < off - rbo then Some (OutOfBounds ''buffer read'')
        else if F < off + (IO_SIZE - off mod IO_SIZE) + round_up n then Some overrun else None
      else if F < off + round_up n then Some overrun else None)"

lemma read_flushed_spec:
  assumes F: "file_at pm media hwp zsz nz k g i bs cs f z" and C: "cache_holds cs f"
    and n: "0 < n" "n \<le> bs" "off + n \<le> length cs" and fit: "scratch + bs + IO_SIZE \<le> length (zs_mem z)"
  shows "case read_fault (length cs) off n f of
       Some e \<Rightarrow> read_flushed pm g off n scratch (f, z) = Inl e
     | None \<Rightarrow> \<exists>f' z'. read_flushed pm g off n scratch (f, z) = Inr (f', z') \<and> cache_holds cs f'
         \<and> read_done pm media hwp zsz nz k g i bs cs scratch (take n (drop off cs)) (f', z')"
proof -
  let ?o = "fl_read_buf_offset f" and ?f = "f\<lparr>fl_read_size := round_up n\<rparr>"
  have rb: "length (fl_read_buf f) = IO_SIZE" using C by (simp add: cache_holds_def)
  have F1: "file_at pm media hwp zsz nz k g i bs cs ?f z" using F by simp
  have fit': "scratch + n \<le> length (zs_mem z)" "scratch + bs \<le> length (zs_mem z)" using n fit by linarith+
  have miss: "\<exists>z' f'. load_units pm g scratch off (round_up n) (?f, z) = Inr (f', z')
     \<and> cache_holds cs f' \<and> cache_holds cs (f'\<lparr>fl_use_read_buf := True\<rparr>)
     \<and> read_done pm media hwp zsz nz k g i bs cs scratch (take n (drop off cs)) (f', z')" if "off + round_up n \<le> length cs"
    using read_miss [OF F1 _ n(1,2) that fit'(2)] rb by auto
  have over: "load_units pm g scratch off (round_up n) (?f, z) = Inl (Exit ''Read size error'')" if "length cs < off + round_up n"
    using n by (intro load_units_overruns [OF F1 n(1,2) _ that fit'(2)]) linarith
  consider (first) "\<not> fl_use_read_buf f" | (hit) "fl_use_read_buf f" "?o \<le> off" "off + n \<le> ?o + IO_SIZE"
    | (miss) "fl_use_read_buf f" "?o + IO_SIZE \<le> off \<or> off < ?o"
    | (part) "fl_use_read_buf f" "?o \<le> off" "off < ?o + IO_SIZE" "?o + IO_SIZE < off + n" by linarith
  then show ?thesis
  proof cases
    case first
    show ?thesis
    proof (cases "off + round_up n \<le> length cs")
      case True
      then obtain z' f' where "load_units pm g scratch off (round_up n) (?f, z) = Inr (f', z')" "cache_holds cs (f'\<lparr>fl_use_read_buf := True\<rparr>)"
        "read_done pm media hwp zsz nz k g i bs cs scratch (take n (drop off cs)) (f', z')" using miss by blast
      then show ?thesis using first n(3) True by (auto simp: read_fault_def Let_def read_flushed_def read_done_def)
    qed (use first n(3) over in \<open>simp add: read_fault_def Let_def read_flushed_def\<close>)
  next
    case hit
    from read_hit [OF F C hit fit'(1)] show ?thesis using hit n C by (auto simp: read_fault_def Let_def)
  next
    case miss': miss
    then have "read_flushed pm g off n scratch (f, z) = load_units pm g scratch off (round_up n) (?f, z)"
      "read_fault (length cs) off n f = (if length cs < off + round_up n then Some (Exit ''Read size error'') else None)"
      using n by (auto simp: read_flushed_def read_fault_def Let_def)
    then show ?thesis using miss over by fastforce
  next
    case part
    show ?thesis
      using read_behind_cache [OF part(1) rb part(2-4)] read_partial [OF F C part _ refl n(2) _ fit]
        read_partial_overruns [OF F C part _ refl n(2,3) _ fit] part n(3)
      by (auto simp: read_fault_def Let_def not_less)
  qed
qed

lemma patch_over:
  "p + length ys \<le> length mem \<Longrightarrow> m \<le> length ys \<Longrightarrow> p + m + length t \<le> length mem \<Longrightarrow>
   take (m + length t) (drop p (patch (patch mem p ys) (p + m) t)) = take m ys @ t"
  by (simp add: patch_def)

text \<open>The part of a read that lies in the write buffer.\<close>

lemma copy_tail:
  assumes F: "file_at pm media hwp zsz nz k g i bs cs f z" and a: "a + n \<le> fl_buf_pos f" and fit: "scratch + n \<le> length (zs_mem z)"
  shows "ebind (file_buf f) (\<lambda>buf. ebind (copy_out buf a n scratch z) (\<lambda>z. Inr (f, z))) =
       Inr (f, z\<lparr>zs_mem := patch (zs_mem z) scratch (take n (drop a (file_tail f)))\<rparr>)"
    "length (take n (drop a (file_tail f))) = n"
proof -
  obtain buf where buf: "fl_buf f = Some buf" "length buf = bs" "fl_buf_pos f \<le> bs" using file_atD(2) [OF F] by (auto simp: file_wf_def)
  have t: "take n (drop a (file_tail f)) = take n (drop a buf)" using buf a by (simp add: file_tail_def drop_take min_def)
  then show "ebind (file_buf f) (\<lambda>buf. ebind (copy_out buf a n scratch z) (\<lambda>z. Inr (f, z))) =
       Inr (f, z\<lparr>zs_mem := patch (zs_mem z) scratch (take n (drop a (file_tail f)))\<rparr>)"
    using buf a fit copy_out_ok [of a n buf scratch z] by (simp add: file_buf_def)
  show "length (take n (drop a (file_tail f))) = n" unfolding t using buf a by simp
qed

lemma file_tail_length: "file_at pm media hwp zsz nz k g i bs cs f z \<Longrightarrow> length (file_tail f) = fl_buf_pos f"
  by (auto simp: file_at_def file_wf_def file_tail_def)

lemma read_tail:
  assumes F: "file_at pm media hwp zsz nz k g i bs cs f z" and n: "0 < n" "length cs \<le> off" "off + n \<le> fl_file_size f"
    and fit: "scratch + n \<le> length (zs_mem z)"
  shows "\<exists>z'. ZoadFile_Read pm g off n scratch (f, z) = Inr (OK, (scratch, n), f, z')
     \<and> read_done pm media hwp zsz nz k g i bs cs scratch (take n (drop off (cs @ file_tail f))) (f, z')"
proof -
  let ?a = "off - length cs"
  have sz: "fl_file_size f = length cs + fl_buf_pos f" "fl_file_size f < 2 ^ 32" using file_atD(4,5) [OF F] .
  have fl: "u64_sub (fl_file_size f) (fl_buf_pos f) = length cs" using sz by (simp add: u64_sub_def)
  have a: "?a + n \<le> fl_buf_pos f" using n sz(1) by linarith
  note c = copy_tail [OF F a fit]
  have x: "take n (drop off (cs @ file_tail f)) = take n (drop ?a (file_tail f))" using n(2) by simp
  let ?z = "z\<lparr>zs_mem := patch (zs_mem z) scratch (take n (drop ?a (file_tail f)))\<rparr>"
  have "ZoadFile_Read pm g off n scratch (f, z) = Inr (OK, (scratch, n), f, ?z)"
    using n fl c(1) sz(1) by (cases "cs = []") (simp_all add: ZoadFile_Read_def Let_def)
  moreover have "take (length (take n (drop ?a (file_tail f)))) (drop scratch (zs_mem ?z)) = take n (drop ?a (file_tail f))"
    using patch_done [of scratch "take n (drop ?a (file_tail f))" "zs_mem z" n] c(2) fit by simp
  ultimately show ?thesis using F unfolding x by (simp add: read_done_def)
qed

lemma read_across:
  assumes F: "file_at pm media hwp zsz nz k g i bs cs f z" and n: "n \<le> bs" "off < length cs" "length cs < off + n" "off + n \<le> fl_file_size f"
    and fit: "scratch + bs \<le> length (zs_mem z)"
  shows "\<exists>z'. ZoadFile_Read pm g off n scratch (f, z) = Inr (OK, (scratch, n), f, z')
     \<and> read_done pm media hwp zsz nz k g i bs cs scratch (take n (drop off (cs @ file_tail f))) (f, z')"
proof -
  define m where "m = length cs - off"
  have m: "0 < m" "m < n" "off + m = length cs" "m \<le> bs" using n by (simp_all add: m_def)
  have sz: "fl_file_size f = length cs + fl_buf_pos f" "fl_file_size f < 2 ^ 32" using file_atD(4,5) [OF F] .
  have fl: "u64_sub (fl_file_size f) (fl_buf_pos f) = length cs" using sz by (simp add: u64_sub_def)
  have u: "u32 off = off" "u32 m = m" using n sz m by (simp_all add: u32_id)
  have wf: "fl_flag f < length (cf_lp_id g)" "cf_lp_id g ! fl_flag f = i + 1" using file_atD(2) [OF F] by (simp_all add: file_wf_def)
  have "off + m \<le> length cs" using m(3) by simp
  from file_load [OF F m(1,4) this fit] obtain z1 ys r where
    l: "z_load pm (cf_uid g) (i + 1) (fl_key f) scratch off m z = Inr (r, z1)" "zs_mem z1 = patch (zs_mem z) scratch ys"
      "m \<le> length ys" "length ys \<le> bs" "take m ys = take m (drop off cs)" "file_at pm media hwp zsz nz k g i bs cs f z1" by blast
  have len: "length (zs_mem z1) = length (zs_mem z)" using l(2,4) fit by (simp add: length_patch)
  have t: "0 + (n - m) \<le> fl_buf_pos f" using n(4) sz(1) m(3) by linarith
  have fit1: "scratch + m + (n - m) \<le> length (zs_mem z1)" using fit n(1) m(2) len by linarith
  note c = copy_tail [OF l(6) t fit1]
  let ?t = "take (n - m) (drop 0 (file_tail f))"
  let ?z = "z1\<lparr>zs_mem := patch (zs_mem z1) (scratch + m) ?t\<rparr>"
  have e: "off + n - length cs = n - m" "scratch + length cs - off = scratch + m" "length cs - off = m" using m(3) by auto
  have ne: "\<not> fl_file_size f < off" "\<not> fl_file_size f - off < n" "n \<noteq> 0" "fl_file_size f \<noteq> fl_buf_pos f" "\<not> length cs \<le> off"
    "\<not> off + n \<le> length cs" using n sz(1) m by auto
  have "ZoadFile_Read pm g off n scratch (f, z) = Inr (OK, (scratch, n), f, ?z)"
    using fl l(1) wf u c(1) e ne by (simp add: ZoadFile_Read_def Let_def)
  moreover have "take n (drop scratch (zs_mem ?z)) = take n (drop off (cs @ file_tail f))"
  proof -
    have e2: "n + off - length cs = n - m" using m(3) by linarith
    have "take (m + length ?t) (drop scratch (patch (patch (zs_mem z) scratch ys) (scratch + m) ?t)) = take m ys @ ?t"
      using l(3,4) fit n(1) m(2) c(2) by (intro patch_over) linarith+
    also have "take m ys @ ?t = take n (drop off (cs @ file_tail f))" using l(5) m n(2) e2 by simp
    finally show ?thesis using c(2) m(2) l(2) by simp
  qed
  moreover have "length (take n (drop off (cs @ file_tail f))) = n"
    using n file_tail_length [OF F] sz(1) by simp
  ultimately show ?thesis using l(6) by (simp add: read_done_def)
qed

lemma file_read_flushed:
  assumes F: "file_at pm media hwp zsz nz k g i bs cs f z" and n: "0 < n" "off + n \<le> length cs"
  shows "ZoadFile_Read pm g off n scratch (f, z) = ebind (read_flushed pm g off n scratch (f, z)) (\<lambda>(f, z). Inr (OK, (scratch, n), f, z))"
proof -
  have sz: "fl_file_size f = length cs + fl_buf_pos f" "fl_file_size f < 2 ^ 32" using file_atD(4,5) [OF F] .
  moreover have "u64_sub (fl_file_size f) (fl_buf_pos f) = length cs" using sz by (simp add: u64_sub_def)
  moreover have "cs \<noteq> []" "\<not> length cs + fl_buf_pos f - off < n" using n by auto
  ultimately show ?thesis using n by (simp add: ZoadFile_Read_def Let_def)
qed

lemma file_read_spec:
  assumes "file_at pm media hwp zsz nz k g i bs cs f z" and "cache_holds cs f"
    and "0 < n" and "n \<le> bs" and "off + n \<le> fl_file_size f" and "scratch + bs + IO_SIZE \<le> length (zs_mem z)"
  shows "case read_fault (length cs) off n f of
       Some e \<Rightarrow> ZoadFile_Read pm g off n scratch (f, z) = Inl e
     | None \<Rightarrow> \<exists>f' z'. ZoadFile_Read pm g off n scratch (f, z) = Inr (OK, (scratch, n), f', z')
         \<and> take n (drop scratch (zs_mem z')) = take n (drop off (cs @ file_tail f))
         \<and> file_at pm media hwp zsz nz k g i bs cs f' z' \<and> cache_holds cs f'"
proof -
  have len: "length (take n (drop off (cs @ file_tail f))) = n"
    using assms(5) file_tail_length [OF assms(1)] file_atD(4) [OF assms(1)] by simp
  have fit: "scratch + n \<le> length (zs_mem z)" "scratch + bs \<le> length (zs_mem z)" using assms(4,6) by linarith+
  consider (tail) "length cs \<le> off" | (across) "off < length cs" "length cs < off + n" | (dev) "off + n \<le> length cs" by linarith
  then show ?thesis
  proof cases
    case tail
    then have "read_fault (length cs) off n f = None" using assms(3) by (simp add: read_fault_def)
    then show ?thesis
      using read_tail [OF assms(1,3) tail assms(5) fit(1)] assms(2) unfolding read_done_def split_conv len by auto
  next
    case across
    then have "read_fault (length cs) off n f = None" by (simp add: read_fault_def)
    then show ?thesis
      using read_across [OF assms(1,4) across assms(5) fit(2)] assms(2) unfolding read_done_def split_conv len by auto
  next
    case dev
    have "take n (drop off (cs @ file_tail f)) = take n (drop off cs)" "length (take n (drop off cs)) = n" using dev by simp_all
    with read_flushed_spec [OF assms(1-4) dev assms(6)] file_read_flushed [OF assms(1,3) dev, of scratch] show ?thesis
      unfolding read_done_def by (fastforce split: option.splits)
  qed
qed

text \<open>
  C6: what a read of up to one stripe inside the file does, for every offset and whatever reads
  came before. With the bytes \<open>cs\<close> of the file flushed, the others in the write buffer, and a
  read buffer that holds some unit of \<open>cs\<close>, the read returns the bytes of the file, wherever they
  are: in the write buffer, on the device, across both, in the read buffer or partly in it; and
  the read buffer holds a unit of \<open>cs\<close> again. The only exceptions are the two that
  \<open>read_fault\<close> lists: the process ends when the whole units the file loads run past the flushed
  bytes, and a range that starts in a read buffer not aligned to units, behind the end of the unit
  that buffer starts in, reads behind the read buffer.
\<close>

theorem file_read_correct:
  assumes "file_at pm media hwp zsz nz k g i bs cs f z" and "cache_holds cs f"
    and "0 < n" and "n \<le> bs" and "off + n \<le> fl_file_size f" and "scratch + bs + IO_SIZE \<le> length (zs_mem z)"
  shows "case read_fault (length cs) off n f of
       Some e \<Rightarrow> ZoadFile_Read pm g off n scratch (f, z) = Inl e
     | None \<Rightarrow> \<exists>f' z'. ZoadFile_Read pm g off n scratch (f, z) = Inr (OK, (scratch, n), f', z')
         \<and> take n (drop scratch (zs_mem z')) = take n (drop off (cs @ file_tail f))
         \<and> file_at pm media hwp zsz nz k g i bs cs f' z' \<and> cache_holds cs f'"
  using file_read_spec [OF assms] .

section \<open>Files over the store\<close>

abbreviation write_req :: "byte list \<Rightarrow> nat \<Rightarrow> IO_request" where
  "write_req s u \<equiv> new_IO_request_write WRITE s (length s) u"

lemma flush_all_known:
  assumes "i < length (zs_parts z)" "pt_userdata_map (zs_parts z ! i) nm = Some u"
  shows "flush_all pm nm i ss z = set_part i ((zs_parts z ! i)\<lparr>pt_io_queue := pt_io_queue (zs_parts z ! i) @ map (\<lambda>s. write_req s u) ss\<rparr>) z"
  using assms
proof (induction ss arbitrary: z)
  case Nil
  then show ?case by (simp add: set_part_def)
next
  case (Cons s ss)
  let ?p = "zs_parts z ! i"
  let ?z = "set_part i (?p\<lparr>pt_io_queue := pt_io_queue ?p @ [write_req s u]\<rparr>) z"
  have "flushed pm nm s i z = ?z" using Cons.prems by (simp add: flushed_def Let_def)
  moreover have "i < length (zs_parts ?z)" "zs_parts ?z ! i = ?p\<lparr>pt_io_queue := pt_io_queue ?p @ [write_req s u]\<rparr>"
    using Cons.prems by (simp_all add: set_part_def)
  ultimately show ?case using Cons.IH [of ?z] Cons.prems by (simp add: set_part_def)
qed

lemma flush_all_new:
  assumes i: "i < length (zs_parts z)" and nm: "pt_userdata_map (zs_parts z ! i) nm = None" and ss: "ss \<noteq> []" and u: "u = length (zs_users z)"
  shows "flush_all pm nm i ss z =
     set_part i ((zs_parts z ! i)\<lparr>pt_userdata_map := (pt_userdata_map (zs_parts z ! i))(nm \<mapsto> u),
                   pt_io_queue := pt_io_queue (zs_parts z ! i) @ map (\<lambda>s. write_req s u) ss\<rparr>)
       (z\<lparr>zs_users := zs_users z @ [Some (new_Userdata (pm_seg0 pm) i)]\<rparr>)"
proof -
  obtain s ts where st: "ss = s # ts" using ss by (cases ss) auto
  let ?p = "(zs_parts z ! i)\<lparr>pt_userdata_map := (pt_userdata_map (zs_parts z ! i))(nm \<mapsto> u), pt_io_queue := pt_io_queue (zs_parts z ! i) @ [write_req s u]\<rparr>"
  let ?z = "set_part i ?p (z\<lparr>zs_users := zs_users z @ [Some (new_Userdata (pm_seg0 pm) i)]\<rparr>)"
  have "flushed pm nm s i z = ?z" using nm u by (simp add: flushed_def Let_def)
  moreover have "i < length (zs_parts ?z)" "zs_parts ?z ! i = ?p" using i by (simp_all add: set_part_def)
  ultimately show ?thesis using flush_all_known [of i ?z nm u pm ts] by (simp add: st set_part_def)
qed

lemma flush_all_sys:
  assumes "sys_ok pm media hwp zsz nz k z xss" "i < length (zs_parts z)"
  shows "sys_ok pm media hwp zsz nz k (flush_all pm nm i ss z)
     (if pt_userdata_map (zs_parts z ! i) nm = None \<and> ss \<noteq> [] then xss @ [[]] else xss)"
proof (cases "pt_userdata_map (zs_parts z ! i) nm")
  case None
  show ?thesis
  proof (cases "ss = []")
    case False
    from sys_ok_set_part [OF sys_ok_new_user [OF assms], of i] show ?thesis
      unfolding flush_all_new [OF assms(2) None False refl] using None False assms(2) by simp
  qed (simp add: assms(1))
next
  case (Some u)
  from sys_ok_set_part [OF assms, of "_\<lparr>pt_io_queue := _\<rparr>"] show ?thesis
    unfolding flush_all_known [OF assms(2) Some] using Some by simp
qed

lemma foldl_write:
  "u < length xss \<Longrightarrow> foldl abs_write xss (map (\<lambda>s. write_req s u) ss) = xss[u := xss ! u @ ss]"
proof (induction ss arbitrary: xss)
  case (Cons s ss)
  have "abs_write xss (write_req s u) = xss[u := xss ! u @ [s]]" by (simp add: abs_write_def new_IO_request_write_def)
  then show ?case using Cons by simp
qed simp

lemma part_usable_flush_all: "part_usable g i z \<Longrightarrow> part_usable g i (flush_all pm nm i ss z)"
  by (induction ss arbitrary: z) (simp_all add: part_usable_flushed)

text \<open>Serving the stripes of one file: its object grows by them.\<close>

lemma serve_stripes:
  assumes S: "sys_ok pm media hwp zsz nz k z xss" and P: "part_usable g i z" and p: "p = zs_parts z ! i" and bs: "bs = pt_izg_cnt p * IO_SIZE"
    and st: "pt_io_queue p = []" "pt_status p = OPEN" and ss: "ss \<noteq> []" "\<forall>s \<in> set ss. length s = bs"
    and cs: "cs = (case pt_userdata_map p nm of None \<Rightarrow> [] | Some u \<Rightarrow> concat (xss ! u))"
    and room: "k + length ss * pt_izg_cnt p \<le> nz" and size: "length cs + length ss * bs < 2 ^ 32" and n: "length ss \<le> n"
  shows "\<exists>z2 k' xss2 u. worker_main pm i n (flush_all pm nm i ss z) = Inr (False, z2) \<and> sys_ok pm media hwp zsz nz k' z2 xss2
     \<and> part_usable g i z2 \<and> pt_userdata_map (zs_parts z2 ! i) nm = Some u \<and> concat (xss2 ! u) = cs @ concat ss
     \<and> pt_io_queue (zs_parts z2 ! i) = [] \<and> pt_status (zs_parts z2 ! i) = OPEN \<and> pt_izg_cnt (zs_parts z2 ! i) = pt_izg_cnt p
     \<and> k' \<le> k + length ss * pt_izg_cnt p \<and> zs_mem z2 = zs_mem z"
proof -
  note i = part_usable_i [OF P]
  obtain l where l: "lib_ok z" "length (zs_parts z) < 2 ^ 32 - 1" "zs_user_map z (cf_uid g) = Some l" "i \<in> set l" "\<not> pt_deleted p"
    using P p by (auto simp: part_usable_def)
  let ?new = "pt_userdata_map p nm = None"
  define u where "u = (case pt_userdata_map p nm of None \<Rightarrow> length (zs_users z) | Some u \<Rightarrow> u)"
  define z1 where "z1 = flush_all pm nm i ss z"
  define xs where "xs = (if ?new then xss @ [[]] else xss)"
  have S1: "sys_ok pm media hwp zsz nz k z1 xs" using flush_all_sys [OF S i, of nm ss] ss(1) p by (simp add: z1_def xs_def)
  have z1: "zs_parts z1 ! i = p\<lparr>pt_userdata_map := (pt_userdata_map p)(nm \<mapsto> u), pt_io_queue := map (\<lambda>s. write_req s u) ss\<rparr>"
    "length (zs_parts z1) = length (zs_parts z)" "zs_mem z1 = zs_mem z"
    unfolding z1_def using i p st(1) flush_all_new [OF i _ ss(1) refl, of nm pm] flush_all_known [OF i, of nm u pm ss]
    by (cases "pt_userdata_map p nm"; simp add: u_def set_part_def map_upd_triv)+
  have P1: "part_usable g i z1" unfolding z1_def by (rule part_usable_flush_all [OF P])
  obtain d where u: "u < length (zs_users z1)" "zs_users z1 ! u = Some d" "ud_partition d = i"
    using part_usable_user [OF P1, of nm u] z1(1) by auto
  have cu: "concat (xs ! u) = cs"
    using cs sys_okD(5) [OF S] by (cases "pt_userdata_map p nm") (simp_all add: xs_def u_def nth_append)
  have ux: "u < length xs" using u(1) sys_okD(5) [OF S1] by simp
  let ?rs = "map (\<lambda>s. write_req s u) ss" and ?p1 = "zs_parts z1 ! i"
  have q: "pt_io_queue ?p1 = ?rs" "\<not> pt_deleted ?p1" "pt_status ?p1 = OPEN" "pt_izg_cnt ?p1 = pt_izg_cnt p" using z1(1) l st by simp_all
  have len: "length (xs ! u) * bs = length cs"
    using holds_length [OF S1 u] q(4) cu bs by simp
  have "\<exists>z2 k' p'. worker_main pm i n z1 = Inr (False, z2) \<and> sys_ok pm media hwp zsz nz k' z2 (foldl abs_write xs ?rs)
     \<and> zs_parts z2 = (zs_parts z1)[i := p'] \<and> pt_io_queue p' = [] \<and> \<not> pt_deleted p' \<and> pt_status p' = OPEN
     \<and> pt_izg_cnt p' = pt_izg_cnt ?p1 \<and> zs_mem z2 = zs_mem z1 \<and> k' \<le> k + length ?rs * pt_izg_cnt ?p1
     \<and> (\<forall>r'. stripe_req i (pt_izg_cnt ?p1) z1 r' \<longrightarrow> stripe_req i (pt_izg_cnt ?p1) z2 r')"
  proof (rule worker_main_serves [OF S1 _ refl q(1-3)])
    show "i < length (zs_parts z1)" using i z1(2) by simp
    show "\<forall>r \<in> set ?rs. stripe_req i (pt_izg_cnt ?p1) z1 r"
      using ss(2) u q(4) bs by (simp add: stripe_req_def new_IO_request_write_def)
    show "k + length ?rs * pt_izg_cnt ?p1 \<le> nz" using room q(4) by simp
    show "\<forall>r \<in> set ?rs. (length (xs ! ir_data r) + length ?rs) * (pt_izg_cnt ?p1 * IO_SIZE) < 2 ^ 32"
      using size len q(4) bs by (simp add: new_IO_request_write_def add_mult_distrib)
    show "length ?rs \<le> n" using n by simp
  qed
  then obtain z2 k' p' where w: "worker_main pm i n z1 = Inr (False, z2)" "sys_ok pm media hwp zsz nz k' z2 (foldl abs_write xs ?rs)"
     "zs_parts z2 = (zs_parts z1)[i := p']" "pt_io_queue p' = []" "\<not> pt_deleted p'" "pt_status p' = OPEN" "pt_izg_cnt p' = pt_izg_cnt p"
     "zs_mem z2 = zs_mem z" "k' \<le> k + length ss * pt_izg_cnt p" using q(4) z1(3) by auto
  have i2: "zs_parts z2 ! i = p'" using w(3) i z1(2) by simp
  have m: "lib_ok z2" "pt_userdata_map (zs_parts z2 ! i) = pt_userdata_map ?p1" "length (zs_parts z2) = length (zs_parts z1)"
    "zs_user_map z2 = zs_user_map z1" using worker_main_lib [OF w(1), of i] P1 i z1(2) by (simp_all add: part_usable_def)
  have "part_usable g i z2" using P1 m w(5) i2 unfolding part_usable_def by simp
  moreover have "concat (foldl abs_write xs ?rs ! u) = cs @ concat ss" unfolding foldl_write [OF ux] using ux cu by simp
  moreover have "pt_userdata_map (zs_parts z2 ! i) nm = Some u" using m(2) z1(1) by simp
  ultimately show ?thesis using w i2 unfolding z1_def by blast
qed

text \<open>The read buffer stays right when the file grows.\<close>

lemma cache_kept:
  assumes "file_rest f' = file_rest (f\<lparr>fl_file_size := n\<rparr>)"
  shows "(cache_ok cs f \<longrightarrow> cache_ok (cs @ ys) f') \<and> fl_use_read_buf f' = fl_use_read_buf f"
  using assms by (cases f; cases f') (auto simp: cache_ok_def file_rest_def)

lemma file_append_served:
  assumes F: "file_at pm media hwp zsz nz k g i bs cs f z" and p: "p = zs_parts z ! i"
    and st: "pt_io_queue p = []" "pt_status p = OPEN"
    and size: "fl_file_size f + length data < 2 ^ 32" and room: "k + (fl_buf_pos f + length data) div bs * pt_izg_cnt p \<le> nz"
    and n: "(fl_buf_pos f + length data) div bs \<le> n"
  shows "\<exists>f' z1 z2 k' cs'. ZoadFile_Append pm g data (f, z) = Inr (OK, f', z1) \<and> worker_main pm i n z1 = Inr (False, z2)
     \<and> file_at pm media hwp zsz nz k' g i bs cs' f' z2 \<and> cs' @ file_tail f' = cs @ file_tail f @ data
     \<and> pt_io_queue (zs_parts z2 ! i) = [] \<and> pt_status (zs_parts z2 ! i) = OPEN
     \<and> k' \<le> k + (fl_buf_pos f + length data) div bs * pt_izg_cnt p \<and> zs_mem z2 = zs_mem z
     \<and> (cache_ok cs f \<longrightarrow> cache_ok cs' f') \<and> fl_use_read_buf f' = fl_use_read_buf f"
proof -
  note P = file_atD(1) [OF F] and wf = file_atD(2) [OF F] and bs = file_atD(3) [OF F, folded p] and sz = file_atD(4) [OF F]
  note i = part_usable_i [OF P]
  have ndel: "\<not> pt_deleted p" using P p by (simp add: part_usable_def)
  let ?f = "f\<lparr>fl_file_size := u64 (fl_file_size f + length data)\<rparr>"
  obtain f' z1 where ap: "ZoadFile_Append pm g data (f, z) = Inr (OK, f', z1)" "written pm g i bs data ?f z f' z1"
    using append_written [OF wf P] by blast
  have t: "file_tail ?f = file_tail f" by (simp add: file_tail_def split: option.split)
  obtain ss where w: "file_wf g i bs f'" "file_rest f' = file_rest ?f" "z1 = flush_all pm (fl_key f) i ss z" "\<forall>s \<in> set ss. length s = bs"
    "concat ss @ file_tail f' = file_tail f @ data" using ap(2) unfolding written_def t by auto
  have key: "fl_key f' = fl_key f" "fl_file_size f' = fl_file_size f + length data"
    using file_restD(1,3) [OF w(2)] size by (simp_all add: u64_def)
  have tl: "length (file_tail f) = fl_buf_pos f" "length (file_tail f') = fl_buf_pos f'"
    using wf w(1) by (auto simp: file_wf_def file_tail_def)
  have cl: "length (concat ss) = length ss * bs" using w(4) by (intro length_concat_even) simp
  have sum: "length ss * bs + fl_buf_pos f' = fl_buf_pos f + length data" using arg_cong [OF w(5), of length] cl tl by simp
  have bs0: "0 < bs" using wf by (simp add: file_wf_def)
  have k: "length ss \<le> (fl_buf_pos f + length data) div bs" using sum bs0 by (simp add: less_eq_div_iff_mult_less_eq)
  have e: "(cs @ concat ss) @ file_tail f' = cs @ file_tail f @ data" using w(5) by simp
  have big: "fl_file_size f' = length (cs @ concat ss) + fl_buf_pos f'" "fl_file_size f' < 2 ^ 32" using key(2) sz sum cl size by simp_all
  have c: "(cache_ok cs f \<longrightarrow> cache_ok (cs @ concat ss) f') \<and> fl_use_read_buf f' = fl_use_read_buf f"
    using cache_kept [OF w(2)] by simp
  obtain xss where S: "sys_ok pm media hwp zsz nz k z xss"
    and cs: "cs = (case pt_userdata_map p (fl_key f) of None \<Rightarrow> [] | Some u \<Rightarrow> concat (xss ! u))" using file_atD(6) [OF F] p by blast
  show ?thesis
  proof (cases "ss = []")
    case True
    then have "z1 = z" using w(3) by simp
    moreover have "worker_main pm i n z = Inr (False, z)" using worker_main_idle [of i z pm n] i st ndel p by simp
    moreover have "file_at pm media hwp zsz nz k g i bs (cs @ concat ss) f' z"
      unfolding file_at_def using P w(1) bs big S cs key(1) True p by auto
    ultimately show ?thesis
      using ap(1) e st p c by (intro exI [of _ f'] exI [of _ z] exI [of _ k] exI [of _ "cs @ concat ss"]) simp
  next
    case False
    have "length ss * pt_izg_cnt p \<le> (fl_buf_pos f + length data) div bs * pt_izg_cnt p" using k by (rule mult_le_mono1)
    then have r: "k + length ss * pt_izg_cnt p \<le> nz" using room by linarith
    have s: "length cs + length ss * bs < 2 ^ 32" using big sum cl by simp
    obtain z2 k' xss2 u where z2: "worker_main pm i n z1 = Inr (False, z2)" "sys_ok pm media hwp zsz nz k' z2 xss2" "part_usable g i z2"
      "pt_userdata_map (zs_parts z2 ! i) (fl_key f) = Some u" "concat (xss2 ! u) = cs @ concat ss" "pt_io_queue (zs_parts z2 ! i) = []"
      "pt_status (zs_parts z2 ! i) = OPEN" "pt_izg_cnt (zs_parts z2 ! i) = pt_izg_cnt p" "k' \<le> k + length ss * pt_izg_cnt p" "zs_mem z2 = zs_mem z"
      using serve_stripes [OF S P p bs st False w(4) cs r s order_trans [OF k n]] unfolding w(3) [symmetric] by blast
    have "file_at pm media hwp zsz nz k' g i bs (cs @ concat ss) f' z2"
      unfolding file_at_def using z2 w(1) bs big key(1) by (intro conjI exI [of _ xss2]) simp_all
    moreover have "k' \<le> k + (fl_buf_pos f + length data) div bs * pt_izg_cnt p"
      using z2(9) \<open>length ss * pt_izg_cnt p \<le> _\<close> by linarith
    ultimately show ?thesis
      using ap(1) z2 e c by (intro exI [of _ f'] exI [of _ z1] exI [of _ z2] exI [of _ k'] exI [of _ "cs @ concat ss"]) simp
  qed
qed

text \<open>
  C4: a file implements an append-only sequence of bytes, \<open>cs @ file_tail f\<close>. Appending
  never fails; once the worker has served the requests, as many as the data fills buffers, the
  sequence is the old one followed by the data, nothing is left in the queue, and a read buffer
  that agreed with the flushed bytes still does.
\<close>

theorem file_append_refines:
  assumes "file_at pm media hwp zsz nz k g i bs cs f z"
    and "pt_io_queue (zs_parts z ! i) = []" and "pt_status (zs_parts z ! i) = OPEN"
    and "fl_file_size f + length data < 2 ^ 32"
    and "k + (fl_buf_pos f + length data) div bs * pt_izg_cnt (zs_parts z ! i) \<le> nz"
    and "(fl_buf_pos f + length data) div bs \<le> n"
  shows "\<exists>f' z1 z2 k' cs'. ZoadFile_Append pm g data (f, z) = Inr (OK, f', z1) \<and> worker_main pm i n z1 = Inr (False, z2)
     \<and> file_at pm media hwp zsz nz k' g i bs cs' f' z2 \<and> cs' @ file_tail f' = cs @ file_tail f @ data
     \<and> pt_io_queue (zs_parts z2 ! i) = [] \<and> (cache_ok cs f \<longrightarrow> cache_ok cs' f')"
  using file_append_served [OF assms(1) refl assms(2-6)] by blast

definition emu_cfg :: cfg where
  "emu_cfg = \<lparr>cf_uid = 7, cf_lp_name = [''lp''], cf_io_level = [1], cf_lp_id = [1], cf_buf_size = [IO_SIZE]\<rparr>"

lemma emu_file:
  "\<exists>f z. new_ZoadFile emu_cfg (\<lambda>_. 0) 0 0 0 ''db/1.log'' 5 = Inr f
     \<and> file_at emu_pm fst snd (2 * IO_BLOCKS) 40 0 emu_cfg 0 IO_SIZE [] f z \<and> cache_ok [] f \<and> fl_buf_pos f = 0 \<and> fl_file_size f = 0
     \<and> pt_io_queue (zs_parts z ! 0) = [] \<and> pt_status (zs_parts z ! 0) = OPEN \<and> pt_izg_cnt (zs_parts z ! 0) = 1
     \<and> file_tail f = [] \<and> \<not> fl_use_read_buf f \<and> zs_mem z = replicate (2 * IO_SIZE) 9"
proof -
  obtain z where z: "reachable emu_pm z" "sys_ok emu_pm fst snd (2 * IO_BLOCKS) 40 0 z []" "zs_parts z = [opened emu_pm ''lp'' 1 0]"
    "zs_user_map z = [7 \<mapsto> [0]]" "zs_mem z = replicate (2 * IO_SIZE) 9" using emu_opened by blast
  obtain f where f: "new_ZoadFile emu_cfg (\<lambda>_. 0) 0 0 0 ''db/1.log'' 5 = Inr f" "fl_buf_pos f = 0" "fl_file_size f = 0" "fl_flag f = 0"
    "length (fl_read_buf f) = IO_SIZE" "\<not> fl_use_read_buf f" "\<exists>b. fl_buf f = Some b \<and> length b = IO_SIZE"
    by (simp add: new_ZoadFile_def emu_cfg_def)
  have "file_wf emu_cfg 0 IO_SIZE f" using f by (simp add: file_wf_def emu_cfg_def) (simp add: IO_SIZE_def)
  moreover have "part_usable emu_cfg 0 z" using z reachable_lib [OF z(1)] by (simp add: part_usable_def emu_cfg_def)
  ultimately have "file_at emu_pm fst snd (2 * IO_BLOCKS) 40 0 emu_cfg 0 IO_SIZE [] f z"
    using z f unfolding file_at_def by auto
  moreover have "file_tail f = []" using f by (auto simp: file_tail_def)
  ultimately show ?thesis using f z by (intro exI [of _ f] exI [of _ z]) (simp add: cache_ok_def)
qed

theorem file_append_conserves_witness:
  "\<exists>f z f' z'. new_ZoadFile emu_cfg (\<lambda>_. 0) 0 0 0 ''db/1.log'' 5 = Inr f
     \<and> ZoadFile_Append emu_pm emu_cfg [1, 2, 3] (f, z) = Inr (OK, f', z') \<and> fl_file_size f' = 3"
proof -
  obtain f z where f: "new_ZoadFile emu_cfg (\<lambda>_. 0) 0 0 0 ''db/1.log'' 5 = Inr f" "fl_file_size f = 0"
    "file_at emu_pm fst snd (2 * IO_BLOCKS) 40 0 emu_cfg 0 IO_SIZE [] f z" using emu_file by blast
  from file_append_conserves [OF file_atD(2,1) [OF f(3)], of emu_pm "[1, 2, 3]"] f(1,2) show ?thesis by (auto simp: u64_def)
qed

theorem file_append_refines_witness:
  "\<exists>f z f' z1 z2 k' cs'. ZoadFile_Append emu_pm emu_cfg (replicate IO_SIZE 3 @ [4, 5]) (f, z) = Inr (OK, f', z1)
     \<and> worker_main emu_pm 0 1 z1 = Inr (False, z2)
     \<and> file_at emu_pm fst snd (2 * IO_BLOCKS) 40 k' emu_cfg 0 IO_SIZE cs' f' z2 \<and> cs' @ file_tail f' = replicate IO_SIZE 3 @ [4, 5]"
proof -
  obtain f z where f: "file_at emu_pm fst snd (2 * IO_BLOCKS) 40 0 emu_cfg 0 IO_SIZE [] f z" "fl_buf_pos f = 0" "fl_file_size f = 0"
    "pt_io_queue (zs_parts z ! 0) = []" "pt_status (zs_parts z ! 0) = OPEN" "pt_izg_cnt (zs_parts z ! 0) = 1" "file_tail f = []"
    using emu_file by blast
  let ?d = "replicate IO_SIZE 3 @ [4, 5] :: byte list"
  have d: "(fl_buf_pos f + length ?d) div IO_SIZE = 1" using f(2) by (simp add: IO_SIZE_def)
  have "\<exists>f' z1 z2 k' cs'. ZoadFile_Append emu_pm emu_cfg ?d (f, z) = Inr (OK, f', z1) \<and> worker_main emu_pm 0 1 z1 = Inr (False, z2)
     \<and> file_at emu_pm fst snd (2 * IO_BLOCKS) 40 k' emu_cfg 0 IO_SIZE cs' f' z2 \<and> cs' @ file_tail f' = [] @ file_tail f @ ?d
     \<and> pt_io_queue (zs_parts z2 ! 0) = [] \<and> (cache_ok [] f \<longrightarrow> cache_ok cs' f')"
  proof (rule file_append_refines [OF f(1,4,5)])
    show "fl_file_size f + length ?d < 2 ^ 32" using f(3) by (simp add: IO_SIZE_def)
    show "0 + (fl_buf_pos f + length ?d) div IO_SIZE * pt_izg_cnt (zs_parts z ! 0) \<le> 40" unfolding d using f(6) by simp
    show "(fl_buf_pos f + length ?d) div IO_SIZE \<le> 1" unfolding d by simp
  qed
  then show ?thesis unfolding f(7) append_Nil by blast
qed

text \<open>The flushed part is whole stripes.\<close>

lemma flushed_stripes:
  assumes F: "file_at pm media hwp zsz nz k g i bs cs f z"
  shows "bs dvd length cs"
proof (cases "cs = []")
  case False
  from file_object [OF F this] show ?thesis by (metis dvd_triv_right)
qed simp

text \<open>A file of one stripe and two bytes on the emulator.\<close>

lemma emu_file_flushed:
  "\<exists>f z k. file_at emu_pm fst snd (2 * IO_BLOCKS) 40 k emu_cfg 0 IO_SIZE (replicate IO_SIZE 3) f z
     \<and> file_tail f = [4, 5] \<and> \<not> fl_use_read_buf f \<and> cache_ok (replicate IO_SIZE 3) f \<and> fl_file_size f = IO_SIZE + 2
     \<and> zs_mem z = replicate (2 * IO_SIZE) 9"
proof -
  obtain f z where f: "file_at emu_pm fst snd (2 * IO_BLOCKS) 40 0 emu_cfg 0 IO_SIZE [] f z" "fl_buf_pos f = 0" "fl_file_size f = 0"
    "pt_io_queue (zs_parts z ! 0) = []" "pt_status (zs_parts z ! 0) = OPEN" "pt_izg_cnt (zs_parts z ! 0) = 1" "file_tail f = []"
    "cache_ok [] f" "\<not> fl_use_read_buf f" "zs_mem z = replicate (2 * IO_SIZE) 9"
    using emu_file by blast
  let ?d = "replicate IO_SIZE 3 @ [4, 5] :: byte list"
  have d: "(fl_buf_pos f + length ?d) div IO_SIZE = 1" using f(2) by (simp add: IO_SIZE_def)
  have "fl_file_size f + length ?d < 2 ^ 32" using f(3) by (simp add: IO_SIZE_def)
  from file_append_served [OF f(1) refl f(4,5) this, unfolded d f(6,7), of 1] f(8-10) obtain f' z' k' cs' where
    s: "file_at emu_pm fst snd (2 * IO_BLOCKS) 40 k' emu_cfg 0 IO_SIZE cs' f' z'" "cs' @ file_tail f' = ?d"
      "zs_mem z' = replicate (2 * IO_SIZE) 9" "cache_ok cs' f'" "\<not> fl_use_read_buf f'" by auto
  have t: "length (file_tail f') = fl_buf_pos f'" by (rule file_tail_length [OF s(1)])
  have "fl_buf_pos f' \<le> IO_SIZE" using file_atD(2) [OF s(1)] by (simp add: file_wf_def)
  moreover have l: "length cs' + length (file_tail f') = IO_SIZE + 2" using arg_cong [OF s(2), of length] by simp
  moreover obtain m where m: "length cs' = IO_SIZE * m" using flushed_stripes [OF s(1)] by (auto elim: dvdE)
  moreover have "m = 1" if "2 \<le> IO_SIZE * m" "IO_SIZE * m \<le> IO_SIZE + 2" using that by (cases m) (auto simp: IO_SIZE_def)
  ultimately have "length cs' = IO_SIZE" using t by fastforce
  with s(2) have e: "cs' = replicate IO_SIZE 3" "file_tail f' = [4, 5]" by (simp_all add: append_eq_append_conv)
  have "fl_file_size f' = IO_SIZE + 2" using file_atD(4) [OF s(1)] l t by simp
  with s e show ?thesis by blast
qed

theorem file_read_correct_witness:
  "\<exists>f z f' z'. file_tail f = [4, 5] \<and> ZoadFile_Read emu_pm emu_cfg (IO_SIZE - 1) 2 0 (f, z) = Inr (OK, (0, 2), f', z')
     \<and> take 2 (zs_mem z') = [3, 4] \<and> ZoadFile_Read emu_pm emu_cfg 1 2 0 (f, z) = Inl (Exit ''Read size error'')"
proof -
  obtain f z k where F: "file_at emu_pm fst snd (2 * IO_BLOCKS) 40 k emu_cfg 0 IO_SIZE (replicate IO_SIZE 3) f z"
    and f: "file_tail f = [4, 5]" "\<not> fl_use_read_buf f" "cache_ok (replicate IO_SIZE 3) f" "fl_file_size f = IO_SIZE + 2"
      "zs_mem z = replicate (2 * IO_SIZE) 9"
    using emu_file_flushed by blast
  have io: "2 < IO_SIZE" by (simp add: IO_SIZE_def)
  have "replicate IO_SIZE 3 = replicate (IO_SIZE - 1) 3 @ [3 :: byte]"
    using io by (metis One_nat_def Suc_lessD Suc_pred replicate_Suc replicate_append_same zero_less_Suc less_trans numeral_2_eq_2)
  then have d: "drop (IO_SIZE - 1) (replicate IO_SIZE 3 @ [4, 5]) = [3, 4, 5 :: byte]" by simp
  have r: "read_fault IO_SIZE (IO_SIZE - 1) 2 f = None" "read_fault IO_SIZE 1 2 f = Some (Exit ''Read size error'')"
    using f(2) by (simp_all add: read_fault_def round_up_def IO_SIZE_def)
  note read = file_read_correct [OF F cache_ok_holds [OF f(3)], of 2 _ 0]
  from read [of "IO_SIZE - 1"] r(1) io f(4,5) d f(1) obtain f' z' where
    "ZoadFile_Read emu_pm emu_cfg (IO_SIZE - 1) 2 0 (f, z) = Inr (OK, (0, 2), f', z')" "take 2 (zs_mem z') = [3, 4]"
    by (fastforce simp: numeral_2_eq_2)
  moreover from read [of 1] r(2) io f(4,5) have "ZoadFile_Read emu_pm emu_cfg 1 2 0 (f, z) = Inl (Exit ''Read size error'')" by simp
  ultimately show ?thesis using f(1) by blast
qed

text \<open>
  C38: the first read of a file rounds its size up to whole units. When the rounded range
  leaves the flushed part the read ends the process, although every byte asked for is flushed.
\<close>

theorem file_read_near_end:
  assumes F: "file_at pm media hwp zsz nz k g i bs cs f z" and first: "\<not> fl_use_read_buf f"
    and n: "0 < n" "n \<le> bs" "off + n \<le> length cs" "length cs < off + round_up n" and fit: "scratch + bs \<le> length (zs_mem z)"
  shows "ZoadFile_Read pm g off n scratch (f, z) = Inl (Exit ''Read size error'')"
proof -
  have F1: "file_at pm media hwp zsz nz k g i bs cs (f\<lparr>fl_read_size := round_up n\<rparr>) z" using F by simp
  have "off < length cs" using n(1,3) by linarith
  then have "read_flushed pm g off n scratch (f, z) = Inl (Exit ''Read size error'')"
    using first load_units_overruns [OF F1 n(1,2) _ n(4) fit] by (simp add: read_flushed_def)
  then show ?thesis using file_read_flushed [OF F n(1,3), of scratch] by simp
qed

theorem file_read_near_end_witness:
  "\<exists>f z. fl_file_size f = IO_SIZE + 2 \<and> ZoadFile_Read emu_pm emu_cfg 1 2 0 (f, z) = Inl (Exit ''Read size error'')"
proof -
  obtain f z k where F: "file_at emu_pm fst snd (2 * IO_BLOCKS) 40 k emu_cfg 0 IO_SIZE (replicate IO_SIZE 3) f z"
    and f: "\<not> fl_use_read_buf f" "fl_file_size f = IO_SIZE + 2" "zs_mem z = replicate (2 * IO_SIZE) 9"
    using emu_file_flushed by blast
  have "ZoadFile_Read emu_pm emu_cfg 1 2 0 (f, z) = Inl (Exit ''Read size error'')"
    by (rule file_read_near_end [OF F f(1)]) (simp_all add: round_up_def IO_SIZE_def f(3))
  with f(2) show ?thesis by blast
qed



end
