(* ===== verification/Zoad_Env_Safety.thy ===== *)
theory Zoad_Env_Safety
  imports Zoad_Env Zoad_File_Store
begin

text \<open>
  What holds in every state the environment can reach from \<^verbatim>\<open>ZoadDefault\<close> by calls of the
  database, rounds of the background thread and iterations of the workers, in any order: the
  invariant \<open>env_ok\<close> of the table of files and of the library below it, what the calls on files
  return, and the laws of locks and background work.
\<close>

section \<open>The steps of the store below the files\<close>

text \<open>
  Files use the library for data only: they flush, load, sync and delete objects, the workers
  run, and the application writes its memory. These steps leave the partitions as they are: the
  users' lists, and of each partition its name, its id, its size and whether it is open or
  deleted.
\<close>

inductive io_step :: "'d params \<Rightarrow> 'd zoad \<Rightarrow> 'd zoad \<Rightarrow> bool" for pm where
  flush: "z_flush pm uid lp nm b n fl z = Inr (r, z') \<Longrightarrow> io_step pm z z'"
| load: "z_load pm uid lp nm q off n z = Inr (r, z') \<Longrightarrow> io_step pm z z'"
| sync: "z_sync uid lp nm z = Inr (r, z') \<Longrightarrow> io_step pm z z'"
| del: "z_del uid lp nm z = Inr (r, z') \<Longrightarrow> io_step pm z z'"
| worker: "worker_iter pm i z = Inr (c, z') \<Longrightarrow> io_step pm z z'"
| memory: "io_step pm z (z\<lparr>zs_mem := m\<rparr>)"

lemma io_step_lib: "io_step pm z z' \<Longrightarrow> lib_step pm z z'"
  by (induction rule: io_step.induct) (rule lib_step.intros; assumption)+

definition pt_shape :: "Partition \<Rightarrow> string \<times> nat \<times> nat \<times> nat \<times> bool" where
  "pt_shape p = (pt_name p, pt_id p, pt_izg_cnt p, pt_status p, pt_deleted p)"

definition same_shape :: "'d zoad \<Rightarrow> 'd zoad \<Rightarrow> bool" where
  "same_shape z z' \<longleftrightarrow> zs_user_map z' = zs_user_map z \<and> map pt_shape (zs_parts z') = map pt_shape (zs_parts z)"

lemma same_shape_refl [simp]: "same_shape z z"
  by (simp add: same_shape_def)

lemma same_shape_trans: "same_shape z z1 \<Longrightarrow> same_shape z1 z2 \<Longrightarrow> same_shape z z2"
  by (simp add: same_shape_def)

lemma same_shapeD:
  assumes "same_shape z z'" "i < length (zs_parts z)"
  shows "length (zs_parts z') = length (zs_parts z)" "pt_shape (zs_parts z' ! i) = pt_shape (zs_parts z ! i)"
proof -
  show l: "length (zs_parts z') = length (zs_parts z)" using assms(1) unfolding same_shape_def by (metis length_map)
  show "pt_shape (zs_parts z' ! i) = pt_shape (zs_parts z ! i)" using assms l unfolding same_shape_def by (metis nth_map)
qed

lemma set_part_shape:
  assumes "pt_shape p = pt_shape (zs_parts z ! i)" "zs_user_map z' = zs_user_map z" "zs_parts z' = zs_parts z"
  shows "same_shape z (set_part i p z')"
proof -
  have "map pt_shape ((zs_parts z)[i := p]) = map pt_shape (zs_parts z)"
    using assms(1) by (metis list_update_id map_update)
  then show ?thesis using assms(2,3) by (simp add: same_shape_def set_part_def)
qed

lemma on_partition_shape:
  assumes run: "on_partition cl uid lp f z = Inr (r, z')" and f: "\<And>i z r z'. f i z = Inr (r, z') \<Longrightarrow> same_shape z z'"
  shows "same_shape z z'"
proof -
  consider "z' = z\<lparr>zs_lock := False\<rparr>" | i where "f i (z\<lparr>zs_lock := False\<rparr>) = Inr (r, z')"
    using run by (auto simp: on_partition_def lock_all_def unlock_all_def fault_simps split: if_splits option.splits)
  then show ?thesis
  proof cases
    case 2
    from f [OF this] show ?thesis by (simp add: same_shape_def)
  qed (simp add: same_shape_def)
qed

lemmas part_op_defs = lock_partition_def unlock_partition_def get_status_def alive_def get_userdata_def new_userdata_def
  new_request_def invalid_userdata_def

lemma z_flush_on_shape: "z_flush_on pm nm b n fl i z = Inr (r, z') \<Longrightarrow> same_shape z z'"
  by (auto simp: z_flush_on_def part_op_defs vec_at_def Let_def fault_simps pt_shape_def split: if_splits option.splits
      intro!: set_part_shape)

lemma z_del_on_shape: "z_del_on nm i z = Inr (r, z') \<Longrightarrow> same_shape z z'"
  by (auto simp: z_del_on_def part_op_defs vec_at_def Let_def fault_simps pt_shape_def split: if_splits option.splits
      intro!: set_part_shape)

lemma set_part_shape':
  assumes "same_shape z z'" "pt_shape p = pt_shape (zs_parts z' ! i)"
  shows "same_shape z (set_part i p z')"
  using same_shape_trans [OF assms(1) set_part_shape [OF assms(2) refl refl]] .

lemma with_userdata_shape:
  assumes run: "with_userdata nm f i z = Inr (r, z')" and f: "\<And>u z z'. f u z = Inr z' \<Longrightarrow> same_shape z z'"
  shows "same_shape z z'"
proof -
  let ?p = "(zs_parts z ! i)\<lparr>pt_locked := False\<rparr>"
  have s: "same_shape z (set_part i ?p z)" by (rule set_part_shape) (simp_all add: pt_shape_def)
  consider "z' = set_part i ?p z" | u where "f u (set_part i ?p z) = Inr z'"
    using run by (auto simp: with_userdata_def part_op_defs vec_at_def Let_def fault_simps split: if_splits option.splits)
  then show ?thesis using s f same_shape_trans by cases blast+
qed

lemma user_read_shape: "user_read pm u q off n z = Inr z' \<Longrightarrow> same_shape z z'"
  by (auto simp: user_read_def Read_def vec_at_def Let_def fault_simps pt_shape_def split: if_splits intro!: set_part_shape)

lemma user_sync_shape: "user_sync u z = Inr z' \<Longrightarrow> same_shape z z'"
  by (auto simp: user_sync_def set_user_def same_shape_def fault_simps)

lemma z_sync_on_shape:
  assumes "z_sync_on nm i z = Inr (r, z')"
  shows "same_shape z z'"
proof -
  let ?p = "(zs_parts z ! i)\<lparr>pt_locked := False\<rparr>"
  have s: "same_shape z (set_part i ?p z)" by (rule set_part_shape) (simp_all add: pt_shape_def)
  consider "z' = set_part i ?p z" | u where "user_sync u (set_part i ?p z) = Inr z'"
    using assms by (auto simp: z_sync_on_def part_op_defs vec_at_def Let_def fault_simps split: if_splits option.splits)
  then show ?thesis using s user_sync_shape same_shape_trans by cases blast+
qed

lemma pt_core_shape: "pt_core p = pt_core q \<Longrightarrow> pt_shape p = pt_shape q"
  by (cases p; cases q) (simp add: pt_core_def pt_shape_def)

lemma serve_shape:
  assumes "serve pm msg r z = Inr z'"
  shows "same_shape z z'"
proof -
  have "map pt_core (zs_parts z') = map pt_core (zs_parts z)" by (rule serve_core [OF assms])
  then have "map pt_shape (zs_parts z') = map pt_shape (zs_parts z)"
    by (auto simp: list_eq_iff_nth_eq intro: pt_core_shape)
  then show ?thesis using serve_user_map [OF assms] by (simp add: same_shape_def)
qed

lemma worker_iter_shape:
  assumes "worker_iter pm i z = Inr (c, z')"
  shows "same_shape z z'"
proof -
  have i: "i < length (zs_parts z)" using assms by (auto simp: worker_iter_def vec_at_def fault_simps split: if_splits)
  let ?p = "zs_parts z ! i"
  consider "z' = z" | r msg rs where "serve pm msg r (set_part i (?p\<lparr>pt_io_queue := rs\<rparr>) z) = Inr z'"
    using assms i by (auto simp: worker_iter_def fault_simps split: if_splits)
  then show ?thesis
  proof cases
    case 2
    have "same_shape z (set_part i (?p\<lparr>pt_io_queue := rs\<rparr>) z)" by (rule set_part_shape) (simp_all add: pt_shape_def)
    from same_shape_trans [OF this serve_shape [OF 2]] show ?thesis .
  qed simp
qed

lemma io_step_shape: "io_step pm z z' \<Longrightarrow> same_shape z z'"
proof (induction rule: io_step.induct)
  case (load uid lp nm q off n z r z')
  then show ?case
    unfolding z_load_def z_load_on_def by (rule on_partition_shape) (blast intro: with_userdata_shape user_read_shape)
qed (auto simp: z_flush_def z_sync_def z_del_def same_shape_def [of _ "_\<lparr>zs_mem := _\<rparr>"]
      intro: on_partition_shape z_flush_on_shape z_sync_on_shape z_del_on_shape worker_iter_shape)

text \<open>A usable partition stays usable.\<close>

lemma part_usable_step:
  assumes "io_step pm z z'" "part_usable g i z"
  shows "part_usable g i z'"
proof -
  note i = part_usable_i [OF assms(2)]
  note s = io_step_shape [OF assms(1)] same_shapeD [OF io_step_shape [OF assms(1)] i]
  have "lib_ok z'" using lib_step_lib [OF io_step_lib [OF assms(1)]] assms(2) by (simp add: part_usable_def)
  then show ?thesis using assms(2) s by (auto simp: part_usable_def same_shape_def pt_shape_def)
qed

lemma part_usable_steps: "(io_step pm)\<^sup>*\<^sup>* z z' \<Longrightarrow> part_usable g i z \<Longrightarrow> part_usable g i z'"
  by (induction rule: rtranclp_induct) (blast intro: part_usable_step)+

lemma reachable_steps: "(io_step pm)\<^sup>*\<^sup>* z z' \<Longrightarrow> reachable pm z \<Longrightarrow> reachable pm z'"
  by (induction rule: rtranclp_induct) (auto intro: reachable.step io_step_lib)

section \<open>What a file operation keeps\<close>

text \<open>
  Whatever an operation of a file does, it reaches the store only by calls of the library; it
  keeps the name, the key and the flag of the file, and its write buffer stays in bounds.
\<close>

definition file_kept :: "'d params \<Rightarrow> ZoadFile \<times> 'd zoad \<Rightarrow> ZoadFile \<times> 'd zoad \<Rightarrow> bool" where
  "file_kept pm = (\<lambda>(f, z) (f', z').
     fl_name f' = fl_name f \<and> fl_key f' = fl_key f \<and> fl_flag f' = fl_flag f \<and> fl_refs f' = fl_refs f
     \<and> (\<forall>b. fl_buf f = Some b \<longrightarrow> (\<exists>b'. fl_buf f' = Some b' \<and> length b' = length b
          \<and> (fl_buf_pos f \<le> length b \<longrightarrow> fl_buf_pos f' \<le> length b))) \<and> (io_step pm)\<^sup>*\<^sup>* z z')"

lemma file_kept_refl [simp]: "file_kept pm s s"
  by (cases s) (simp add: file_kept_def)

lemma file_kept_trans [trans]: "file_kept pm s t \<Longrightarrow> file_kept pm t u \<Longrightarrow> file_kept pm s u"
  by (cases s; cases t; cases u) (auto simp: file_kept_def)

lemma io_steps:
  "z_flush pm uid lp nm b n fl z = Inr (r, z') \<Longrightarrow> (io_step pm)\<^sup>*\<^sup>* z z'"
  "z_load pm uid lp nm q off n z = Inr (r, z') \<Longrightarrow> (io_step pm)\<^sup>*\<^sup>* z z'"
  "z_sync uid lp nm z = Inr (r, z') \<Longrightarrow> (io_step pm)\<^sup>*\<^sup>* z z'"
  "z_del uid lp nm z = Inr (r, z') \<Longrightarrow> (io_step pm)\<^sup>*\<^sup>* z z'"
  by (blast intro: io_step.intros)+

lemma Flush_file_buffer_kept:
  assumes "Flush_file_buffer pm g (f, z) = Inr (st, f', z')"
  shows "file_kept pm (f, z) (f', z')"
proof -
  obtain bs where bs: "vec_at (cf_buf_size g) (fl_flag f) = Inr bs" using assms by (auto simp: Flush_file_buffer_def fault_simps)
  show ?thesis
  proof (cases "bs \<le> fl_buf_pos f")
    case True
    have "\<exists>lp buf n r. z_flush pm (cf_uid g) lp (fl_key f) buf n Z_APPEND z = Inr (r, z')"
      using assms bs True by (auto simp: Flush_file_buffer_def Let_def fault_simps split: if_splits)
    moreover have "fl_name f' = fl_name f \<and> fl_key f' = fl_key f \<and> fl_flag f' = fl_flag f \<and> fl_refs f' = fl_refs f
        \<and> (\<forall>b. fl_buf f = Some b \<longrightarrow> (\<exists>b'. fl_buf f' = Some b' \<and> length b' = length b
             \<and> (fl_buf_pos f \<le> length b \<longrightarrow> fl_buf_pos f' \<le> length b)))"
      using assms bs True
      by (auto simp: Flush_file_buffer_def Let_def file_buf_def fault_simps split: if_splits
          dest!: mem_write_InrD intro: order_trans [OF mod_less_eq_dividend])
    ultimately show ?thesis by (auto simp: file_kept_def dest: io_steps)
  next
    case False
    then show ?thesis using assms bs by (simp add: Flush_file_buffer_def Let_def)
  qed
qed

lemma fill_buffer_kept: "fill_buffer g data f = Inr (c, f') \<Longrightarrow> file_kept pm (f, z) (f', z)"
  by (auto simp: fill_buffer_def Let_def file_buf_def fault_simps file_kept_def dest: mem_write_InrD)

lemma write_unbuffered_round_kept:
  assumes "write_unbuffered_round pm g (d, f, z) = Inr (d', f', z')"
  shows "file_kept pm (f, z) (f', z')"
proof -
  obtain c f1 bs st where "fill_buffer g d f = Inr (c, f1)"
    "(if bs \<le> fl_buf_pos f1 then Flush_file_buffer pm g (f1, z) else Inr (OK, f1, z)) = Inr (st, f', z')"
    using assms by (auto simp: write_unbuffered_round_def fault_simps)
  then show ?thesis
    by (auto split: if_splits intro: fill_buffer_kept file_kept_trans [OF fill_buffer_kept] Flush_file_buffer_kept)
qed

lemma WriteUnbuffered_kept:
  assumes "WriteUnbuffered pm g data (f, z) = Inr (st, f', z')"
  shows "file_kept pm (f, z) (f', z')"
proof -
  obtain d where "ewhile (length data + 1) ''WriteUnbuffered'' (\<lambda>(data, _). 0 < length data) (write_unbuffered_round pm g) (data, f, z)
      = Inr (d, f', z')" using assms by (auto simp: WriteUnbuffered_def fault_simps)
  from ewhile_keeps [where P = "\<lambda>(d, t). file_kept pm (f, z) t", OF _ this] show ?thesis
    by (auto intro: file_kept_trans write_unbuffered_round_kept)
qed

lemma ZoadFile_Append_kept:
  assumes "ZoadFile_Append pm g data (f, z) = Inr (st, f', z')"
  shows "file_kept pm (f, z) (f', z')"
proof -
  let ?f = "f\<lparr>fl_file_size := u64 (fl_file_size f + length data)\<rparr>"
  obtain c f1 where c: "fill_buffer g data ?f = Inr (c, f1)"
    and r: "(if length data - c = 0 then Inr (OK, f1, z) else ebind (Flush_file_buffer pm g (f1, z)) (\<lambda>(status, f, z).
       if status \<noteq> OK then Inr (status, f, z) else WriteUnbuffered pm g (drop c data) (f, z))) = Inr (st, f', z')"
    using assms by (auto simp: ZoadFile_Append_def fault_simps)
  have "file_kept pm (f, z) (?f, z)" by (simp add: file_kept_def)
  also have "file_kept pm (?f, z) (f1, z)" by (rule fill_buffer_kept [OF c])
  also have "file_kept pm (f1, z) (f', z')"
  proof (cases "length data - c = 0")
    case False
    then obtain st1 f2 z2 where "Flush_file_buffer pm g (f1, z) = Inr (st1, f2, z2)"
      "(if st1 \<noteq> OK then Inr (st1, f2, z2) else WriteUnbuffered pm g (drop c data) (f2, z2)) = Inr (st, f', z')"
      using r by (auto simp: fault_simps)
    then show ?thesis by (auto split: if_splits intro: file_kept_trans Flush_file_buffer_kept WriteUnbuffered_kept)
  qed (use r in simp)
  finally show ?thesis .
qed

lemma FlushBuffer_kept: "FlushBuffer pm g (f, z) = Inr (st, f', z') \<Longrightarrow> file_kept pm (f, z) (f', z')"
  unfolding FlushBuffer_def by (rule Flush_file_buffer_kept)

lemma z_sync_kept: "z_sync uid lp nm z = Inr (r, z') \<Longrightarrow> file_kept pm (f, z) (f, z')"
  by (auto simp: file_kept_def dest: io_steps)

lemma ZoadFile_Sync_kept:
  assumes "ZoadFile_Sync pm g (f, z) = Inr (st, f', z')"
  shows "file_kept pm (f, z) (f', z')"
proof -
  obtain f1 z1 where "Flush_file_buffer pm g (f, z) = Inr (st, f1, z1)"
    "(f', z') = (f1, z1) \<or> f' = f1 \<and> (\<exists>lp r. z_sync (cf_uid g) lp (fl_key f1) z1 = Inr (r, z'))"
    using assms by (auto simp: ZoadFile_Sync_def fault_simps split: if_splits)
  then show ?thesis
    by (auto intro: file_kept_trans [OF Flush_file_buffer_kept z_sync_kept] Flush_file_buffer_kept)
qed

lemma copy_out_kept: "copy_out src pos n scratch z = Inr z' \<Longrightarrow> file_kept pm (f, z) (f, z')"
  by (auto simp: copy_out_def fault_simps file_kept_def intro: io_step.memory)

lemma load_units_kept:
  assumes "load_units pm g scratch off rs (f, z) = Inr (f', z')"
  shows "file_kept pm (f, z) (f', z')"
  using assms by (auto simp: load_units_def fault_simps file_kept_def dest: io_steps)

lemma file_kept_cache [simp]:
  "file_kept pm (f\<lparr>fl_read_size := n\<rparr>, z) s = file_kept pm (f, z) s"
  "file_kept pm (f\<lparr>fl_buf_read_size := n\<rparr>, z) s = file_kept pm (f, z) s"
  "file_kept pm s (f\<lparr>fl_use_read_buf := b\<rparr>, z) = file_kept pm s (f, z)"
  by (cases s; simp add: file_kept_def)+

lemma read_flushed_kept:
  assumes "read_flushed pm g off n scratch (f, z) = Inr (f', z')"
  shows "file_kept pm (f, z) (f', z')"
  using assms unfolding read_flushed_def Let_def
  by (auto simp: fault_simps split: if_splits dest!: load_units_kept intro: copy_out_kept file_kept_trans [OF copy_out_kept])

lemma z_load_kept: "z_load pm uid lp nm q off n z = Inr (r, z') \<Longrightarrow> file_kept pm (f, z) (f, z')"
  by (auto simp: file_kept_def dest: io_steps)

lemma ZoadFile_Read_kept:
  assumes "ZoadFile_Read pm g off n scratch (f, z) = Inr (st, res, f', z')"
  shows "file_kept pm (f, z) (f', z')"
  using assms unfolding ZoadFile_Read_def Let_def
  by (auto simp: fault_simps split: if_splits
      intro: copy_out_kept read_flushed_kept file_kept_trans [OF z_load_kept copy_out_kept])

section \<open>The environment\<close>

text \<open>
  The configuration \<^verbatim>\<open>ZoadDefault\<close> makes, and the files that fit it: a write buffer of the
  size the flag asks for, the partition of the flag.
\<close>

definition env_cfg :: cfg where
  "env_cfg = default_cfg\<lparr>cf_lp_id := [1, 2]\<rparr>"

abbreviation file_fits :: "ZoadFile \<Rightarrow> bool" where
  "file_fits f \<equiv> file_wf env_cfg (fl_flag f) (cf_buf_size env_cfg ! fl_flag f) f"

text \<open>
  The table of files: sorted by name, every entry is a live file that carries its name. The
  file objects carry the numbers 0, 1, \<open>\<dots>\<close> as keys, modulo \<open>2^32\<close>. The library below is in a
  reachable state, with both partitions.
\<close>

definition env_ok :: "'d params \<Rightarrow> 'd zenv \<Rightarrow> bool" where
  "env_ok pm e \<longleftrightarrow> map_ok (en_file_map e)
     \<and> (\<forall>nm i. map_of (en_file_map e) nm = Some i \<longrightarrow>
          i < length (en_files e) \<and> fl_name (en_files e ! i) = nm \<and> file_fits (en_files e ! i))
     \<and> (\<forall>i < length (en_files e). fl_key (en_files e ! i) = to_string (u32 i))
     \<and> en_global_key e = u32 (length (en_files e)) \<and> en_cfg e = env_cfg
     \<and> reachable pm (en_z e) \<and> part_usable env_cfg 0 (en_z e) \<and> part_usable env_cfg 1 (en_z e)"

lemma env_okD:
  assumes "env_ok pm e"
  shows "map_ok (en_file_map e)"
    "\<And>nm i. map_of (en_file_map e) nm = Some i \<Longrightarrow>
       i < length (en_files e) \<and> fl_name (en_files e ! i) = nm \<and> file_fits (en_files e ! i)"
    "\<And>i. i < length (en_files e) \<Longrightarrow> fl_key (en_files e ! i) = to_string (u32 i)"
    "en_global_key e = u32 (length (en_files e))" "en_cfg e = env_cfg"
    "reachable pm (en_z e)" "part_usable env_cfg 0 (en_z e)" "part_usable env_cfg 1 (en_z e)"
  using assms unfolding env_ok_def by blast+

lemma env_store_steps:
  assumes "env_ok pm e" "(io_step pm)\<^sup>*\<^sup>* (en_z e) z"
  shows "reachable pm z" "part_usable env_cfg 0 z" "part_usable env_cfg 1 z"
  using env_okD(6-8) [OF assms(1)] reachable_steps [OF assms(2)] part_usable_steps [OF assms(2)] by blast+

lemma file_kept_fits: "file_kept pm (f, z) (f', z') \<Longrightarrow> file_fits f \<Longrightarrow> file_fits f'"
  by (fastforce simp: file_kept_def file_wf_def)

lemma on_file_Inr:
  "on_file i m e = Inr (x, e') \<longleftrightarrow> (\<exists>f z. i < length (en_files e) \<and> m (en_files e ! i, en_z e) = Inr (x, f, z)
     \<and> e' = e\<lparr>en_files := (en_files e)[i := f], en_z := z\<rparr>)"
  by (auto simp: on_file_def vec_at_def fault_simps split: if_splits)

text \<open>An operation that keeps its file keeps the environment.\<close>

lemma on_file_ok:
  assumes ok: "env_ok pm e" and run: "on_file i m e = Inr (x, e')"
    and kept: "\<And>f z y f' z'. m (f, z) = Inr (y, f', z') \<Longrightarrow> file_kept pm (f, z) (f', z')"
  shows "env_ok pm e'"
proof -
  obtain f' z' where i: "i < length (en_files e)" and m: "m (en_files e ! i, en_z e) = Inr (x, f', z')"
    and e': "e' = e\<lparr>en_files := (en_files e)[i := f'], en_z := z'\<rparr>" using run by (auto simp: on_file_Inr)
  have k: "fl_name f' = fl_name (en_files e ! i)" "fl_key f' = fl_key (en_files e ! i)" "(io_step pm)\<^sup>*\<^sup>* (en_z e) z'"
    using kept [OF m] by (simp_all add: file_kept_def)
  show ?thesis
    unfolding env_ok_def e' using env_okD [OF ok] k env_store_steps [OF ok k(3)] file_kept_fits [OF kept [OF m]] i
    by (auto simp: nth_list_update)
qed

lemma upd_file_Inr:
  "upd_file i h e = Inr e' \<longleftrightarrow> i < length (en_files e) \<and> e' = e\<lparr>en_files := (en_files e)[i := h (en_files e ! i)]\<rparr>"
  by (auto simp: upd_file_def vec_at_def fault_simps split: if_splits)

text \<open>Reference counts are not part of the invariant.\<close>

lemma refs_ok:
  assumes "env_ok pm e" "upd_file i h e = Inr e'" "h = Ref \<or> h = Unref"
  shows "env_ok pm e'"
  using assms by (auto simp: upd_file_Inr env_ok_def nth_list_update Ref_def Unref_def file_wf_def)

lemma new_FileImpl_ok: "env_ok pm e \<Longrightarrow> new_FileImpl i e = Inr (h, e') \<Longrightarrow> env_ok pm e'"
  by (auto simp: new_FileImpl_def fault_simps intro: refs_ok)

lemma new_SequentialFileImpl_ok: "env_ok pm e \<Longrightarrow> new_SequentialFileImpl i e = Inr (h, e') \<Longrightarrow> env_ok pm e'"
  by (auto simp: new_SequentialFileImpl_def fault_simps intro: refs_ok)

lemma ZoadFile_Delete_steps:
  "ZoadFile_Delete g (f, z) = Inr (st, f', z') \<Longrightarrow>
     (io_step pm)\<^sup>*\<^sup>* z z' \<and> fl_name f' = fl_name f \<and> fl_key f' = fl_key f"
  by (auto simp: ZoadFile_Delete_def fault_simps split: if_splits dest: io_steps)

lemma DeleteFileInternal_ok:
  assumes ok: "env_ok pm e" and run: "DeleteFileInternal fname e = Inr e'"
  shows "env_ok pm e' \<and> map_of (en_file_map e') = (map_of (en_file_map e))(fname := None) \<and> length (en_files e') = length (en_files e)
     \<and> (\<forall>j. map_of (en_file_map e) fname \<noteq> Some j \<longrightarrow> en_files e' ! j = en_files e ! j)"
proof (cases "map_of (en_file_map e) fname")
  case None
  then show ?thesis using ok run by (simp add: DeleteFileInternal_def fun_upd_idem)
next
  case (Some i)
  then obtain st f z where d: "i < length (en_files e)" "ZoadFile_Delete (en_cfg e) (en_files e ! i, en_z e) = Inr (st, f, z)"
    and e': "e' = e\<lparr>en_files := (en_files e)[i := Unref f], en_z := z, en_file_map := map_erase fname (en_file_map e)\<rparr>"
    using run by (auto simp: DeleteFileInternal_def fault_simps on_file_Inr upd_file_Inr)
  note s = ZoadFile_Delete_steps [OF d(2), of pm]
  have m: "map_of (map_erase fname (en_file_map e)) = (map_of (en_file_map e))(fname := None)"
    by (rule stdm.lookup_erase [OF env_okD(1) [OF ok]])
  moreover have "map_ok (map_erase fname (en_file_map e))" by (rule stdm.inv_erase [OF env_okD(1) [OF ok]])
  moreover have "j \<noteq> i" if "map_of (en_file_map e) nm = Some j" "nm \<noteq> fname" for nm j
    using env_okD(2) [OF ok] Some that by blast
  ultimately have "env_ok pm e'"
    unfolding env_ok_def e' using env_okD(2-5) [OF ok] env_store_steps [OF ok conjunct1 [OF s]] s d(1) by (auto simp: nth_list_update Unref_def)
  with m e' Some show ?thesis by simp
qed

lemma env_cfg_sel:
  "cf_buf_size env_cfg = [4 * IO_SIZE, 12 * IO_SIZE]" "cf_lp_id env_cfg = [1, 2]" "cf_uid env_cfg = 0"
  "cf_lp_name env_cfg = [''0'', ''1'']" "cf_io_level env_cfg = [4, 12]"
proof -
  have "map to_string [0..<2] = [''0'', ''1'']" by code_simp
  then show "cf_lp_name env_cfg = [''0'', ''1'']" by (simp add: env_cfg_def default_cfg_def MAX_FLAG_def)
qed (simp_all add: env_cfg_def default_cfg_def IO_SIZE_def u32_def)

lemma env_cfg_flag:
  assumes "flag < 2"
  shows "cf_lp_id env_cfg ! flag = flag + 1" "IO_SIZE dvd cf_buf_size env_cfg ! flag" "0 < cf_buf_size env_cfg ! flag"
    "cf_buf_size env_cfg ! flag < 2 ^ 32" "cf_buf_size env_cfg ! flag = cf_io_level env_cfg ! flag * IO_SIZE"
  using assms by (auto simp: less_2_cases_iff env_cfg_sel IO_SIZE_def)

lemma new_file_fits:
  assumes "new_ZoadFile env_cfg raw refs0 flag lv fname key = Inr f"
  shows "file_fits f" "fl_flag f < 2"
proof -
  have "flag < 2" using assms by (auto simp: new_ZoadFile_def vec_at_def env_cfg_sel fault_simps split: if_splits)
  with env_cfg_flag [OF this] assms show "file_fits f" "fl_flag f < 2"
    by (auto simp: new_ZoadFile_def file_wf_def env_cfg_sel(2) fault_simps vec_at_def split: if_splits)
qed

lemma make_file_ok:
  assumes ok: "env_ok pm e" and run: "make_file pm refs0 fname lv flag e = Inr (i, e')"
  shows "env_ok pm e' \<and> map_of (en_file_map e') = (map_of (en_file_map e))(fname \<mapsto> length (en_files e))
     \<and> i = length (en_files e) \<and> length (en_files e') = Suc (length (en_files e)) \<and> fl_file_size (en_files e' ! i) = 0
     \<and> (\<forall>j < length (en_files e). en_files e' ! j = en_files e ! j)"
proof -
  obtain f where f: "new_ZoadFile (en_cfg e) (pm_raw pm) refs0 flag lv fname (en_global_key e) = Inr f" and i: "i = length (en_files e)"
    and e': "e' = e\<lparr>en_files := en_files e @ [f], en_global_key := u32 (en_global_key e + 1), en_file_map := map_assign fname i (en_file_map e)\<rparr>"
    using run by (auto simp: make_file_def fault_simps Let_def)
  have new: "fl_name f = fname" "fl_key f = to_string (u32 (length (en_files e)))" "file_fits f" "fl_file_size f = 0"
    using f env_okD(4,5) [OF ok] new_file_fits by (auto simp: new_ZoadFile_def fault_simps)
  have m: "map_of (map_assign fname i (en_file_map e)) = (map_of (en_file_map e))(fname \<mapsto> i)"
    by (rule stdm.lookup_assign [OF env_okD(1) [OF ok]])
  have "u32 (en_global_key e + 1) = u32 (Suc (length (en_files e)))"
    using env_okD(4) [OF ok] by (simp add: u32_def mod_Suc_eq)
  then have "env_ok pm e'"
    unfolding env_ok_def e' using env_okD [OF ok] new m i stdm.inv_assign [OF env_okD(1) [OF ok]]
    by (auto simp: nth_append less_Suc_eq)
  with m e' i new show ?thesis by (simp add: nth_append)
qed

lemma RenameFile_ok:
  assumes ok: "env_ok pm e" and run: "RenameFile src target e = Inr (st, e')"
  shows "env_ok pm e' \<and> length (en_files e') = length (en_files e)"
proof (cases "map_of (en_file_map e) src")
  case None
  then show ?thesis using ok run by (auto simp: RenameFile_def)
next
  case (Some i)
  have e': "e' = e\<lparr>en_files := (en_files e)[i := Rename target (en_files e ! i)], en_file_map := map_erase src (map_assign target i (en_file_map e))\<rparr>"
    "i < length (en_files e)" using run Some by (auto simp: RenameFile_def fault_simps upd_file_Inr)
  note mv = stdm.lookup_move [OF env_okD(1) [OF ok] Some, of target] and inv = stdm.inv_move [OF env_okD(1) [OF ok], of src target i]
  have "j \<noteq> i" if "map_of (en_file_map e) nm = Some j" "nm \<noteq> src" for nm j
    using env_okD(2) [OF ok] Some that by blast
  then show ?thesis
    unfolding env_ok_def e'(1) using env_okD [OF ok] Some mv inv e'(2) by (auto simp: nth_list_update Rename_def file_wf_def split: if_splits)
qed

section \<open>The start\<close>

text \<open>
  The state \<^verbatim>\<open>ZoadDefault\<close> leaves, from the state \<open>z\<close> of the library just started: two open
  partitions of 4 and 12 IZGs, and 16 IZGs left.
\<close>

definition default_zoad :: "'d params \<Rightarrow> 'd zoad \<Rightarrow> 'd zoad" where
  "default_zoad pm z = z\<lparr>
     zs_world := (zs_world z)\<lparr>wd_pool := (wd_pool (zs_world z))\<lparr>pl_available_izg_cnt := 16\<rparr>\<rparr>,
     zs_parts := [opened pm ''0'' 4 Z_ASYNC, (opened pm ''1'' 12 Z_ASYNC)\<lparr>pt_id := 2\<rparr>], zs_next_partition_id := 3,
     zs_user_map := [0 \<mapsto> [0, 1]], zs_open_list := [MAX_PARTITION \<mapsto> [], QOS_PARTITION \<mapsto> [0, 1]]\<rparr>"

definition env_of :: "'d zoad \<Rightarrow> 'd zenv" where
  "env_of z = \<lparr>en_z = z, en_cfg = env_cfg, en_files = [], en_file_map = [], en_global_key = 0, en_locks = {},
     en_started = False, en_thread = NotStarted, en_work = []\<rparr>"

lemma alloc_qos:
  "lv \<le> k \<Longrightarrow> 0 < lv \<Longrightarrow> k \<le> 32 \<Longrightarrow> pl_available_izg_cnt q = k \<Longrightarrow>
   alloc_izg QOS_PARTITION lv q = (int lv, q\<lparr>pl_available_izg_cnt := k - lv\<rparr>)"
  by (simp add: alloc_izg_def Let_def partition_flags s32_id u32_sub_def nat_diff_distrib nat_mod_distrib)

lemma zoad_init_fields:
  assumes "zoad_init pm mem d = Inr z"
  shows "zs_users z = []" "zs_parts z = []" "zs_next_partition_id z = 1" "zs_user_map z = Map.empty" "\<not> zs_lock z"
    "zs_open_list z = [MAX_PARTITION \<mapsto> [], QOS_PARTITION \<mapsto> []]" "pl_available_izg_cnt (wd_pool (zs_world z)) = 32" "zs_mem z = mem"
proof -
  show f: "zs_users z = []" "zs_parts z = []" "zs_next_partition_id z = 1" "zs_user_map z = Map.empty" "\<not> zs_lock z"
    "zs_open_list z = [MAX_PARTITION \<mapsto> [], QOS_PARTITION \<mapsto> []]" "zs_mem z = mem"
    using assms by (auto simp: zoad_init_def fault_simps)
  show "pl_available_izg_cnt (wd_pool (zs_world z)) = 32"
    using lib_okD(6) [OF reachable_lib [OF reachable.start [OF assms]]] f(2) by (simp add: qos_izgs_def IZG_DISTANCE_def)
qed

lemma default_cfg_sel:
  "cf_lp_id default_cfg = [0, 0]" "cf_uid default_cfg = 0" "cf_lp_name default_cfg = [''0'', ''1'']" "cf_io_level default_cfg = [4, 12]"
  using env_cfg_sel(3-5) by (simp_all add: env_cfg_def) (simp add: default_cfg_def MAX_FLAG_def numeral_2_eq_2)

lemma ZoadDefault_run:
  assumes "zoad_init pm mem d = Inr z"
  shows "ZoadDefault pm mem d = Inr (env_of (default_zoad pm z)) \<and> reachable pm (default_zoad pm z)"
proof -
  note f = zoad_init_fields [OF assms]
  let ?q = "\<lambda>i nm lv. new_Partition (pm_raw pm) i nm lv QOS_PARTITION"
  let ?w = "\<lambda>n. (zs_world z)\<lparr>wd_pool := (wd_pool (zs_world z))\<lparr>pl_available_izg_cnt := n\<rparr>\<rparr>"
  define z1 where "z1 = z\<lparr>zs_world := ?w 28, zs_parts := [?q 1 ''0'' 4], zs_next_partition_id := 2, zs_user_map := [0 \<mapsto> [0]]\<rparr>"
  define z2 where "z2 = z\<lparr>zs_world := ?w 16, zs_parts := [?q 1 ''0'' 4, ?q 2 ''1'' 12], zs_next_partition_id := 3, zs_user_map := [0 \<mapsto> [0, 1]]\<rparr>"
  define z3 where "z3 = z2\<lparr>zs_parts := [opened pm ''0'' 4 Z_ASYNC, ?q 2 ''1'' 12], zs_open_list := [MAX_PARTITION \<mapsto> [], QOS_PARTITION \<mapsto> [0]]\<rparr>"
  note defs = z_mklp_def lock_all_def unlock_all_def mklp_def add_part_def u32_def s32_id new_Partition_def
  have 1: "z_mklp pm 0 ''/dev/nvme0n1'' ''0'' QOS_PARTITION 4 z = Inr (1, z1)"
    using f alloc_qos [of 4 32 "wd_pool (zs_world z)"] by (cases z) (simp add: defs z1_def)
  have 2: "z_mklp pm 0 ''/dev/nvme0n1'' ''1'' QOS_PARTITION 12 z1 = Inr (2, z2)"
    using f alloc_qos [of 12 28 "(wd_pool (zs_world z))\<lparr>pl_available_izg_cnt := 28\<rparr>"] by (cases z) (simp add: defs z1_def z2_def)
  note odefs = z_openlp_def lock_all_def unlock_all_def opened_def new_Partition_def Partition_open_def alive_def status_defs set_part_def
    s32_id partition_flags
  have 3: "z_openlp 0 ''0'' Z_ASYNC z2 = Inr (1, z3)"
    using f by (cases z) (simp add: odefs z2_def z3_def)
  have 4: "z_openlp 0 ''1'' Z_ASYNC z3 = Inr (2, default_zoad pm z)"
    using f by (cases z) (simp add: odefs z2_def z3_def default_zoad_def)
  have "reachable pm (default_zoad pm z)"
    using reachable.start [OF assms] 1 2 3 4 by (meson reachable.step lib_step.mklp lib_step.openlp)
  moreover have "efor 0 MAX_FLAG (make_partition pm) (default_cfg, z) = Inr (env_cfg, z2)"
    using 1 2 by (simp add: make_partition_def MAX_FLAG_def numeral_2_eq_2 vec_at_def vec_set_def default_cfg_sel env_cfg_def)
  moreover have "efor 0 MAX_FLAG open_partition (env_cfg, z2) = Inr (env_cfg, default_zoad pm z)"
    using 3 4 by (simp add: open_partition_def MAX_FLAG_def numeral_2_eq_2 vec_at_def env_cfg_sel)
  ultimately show ?thesis by (simp add: ZoadDefault_def assms env_of_def)
qed

lemma env_start_ok:
  assumes "ZoadDefault pm mem d = Inr e"
  shows "env_ok pm e"
proof -
  obtain z where z: "zoad_init pm mem d = Inr z" using assms by (auto simp: ZoadDefault_def fault_simps)
  have e: "e = env_of (default_zoad pm z)" and r: "reachable pm (default_zoad pm z)" using ZoadDefault_run [OF z] assms by simp_all
  have "part_usable env_cfg i (default_zoad pm z)" if "i < 2" for i
    using reachable_lib [OF r] that by (auto simp: part_usable_def default_zoad_def env_cfg_sel less_2_cases_iff)
  then show ?thesis using r by (simp add: env_ok_def e env_of_def map_ok_def u32_def)
qed

text \<open>
  A step of the environment: a call of the database, a turn of the background thread, an
  iteration of a worker, or a write of the database to its memory.
\<close>

inductive env_step :: "'d params \<Rightarrow> 'd zenv \<Rightarrow> 'd zenv \<Rightarrow> bool" for pm where
  writable: "NewWritableFile pm refs0 fname lv flag e = Inr (st, h, e') \<Longrightarrow> env_step pm e e'"
| appendable: "NewAppendableFile pm refs0 fname lv flag e = Inr (st, h, e') \<Longrightarrow> env_step pm e e'"
| sequential: "NewSequentialFile fname e = Inr (st, sh, e') \<Longrightarrow> env_step pm e e'"
| random_access: "NewRandomAccessFile fname e = Inr (st, rh, e') \<Longrightarrow> env_step pm e e'"
| release: "delete_FileImpl i e = Inr e' \<Longrightarrow> env_step pm e e'"
| delete_file: "DeleteFile fname e = Inr (st, e') \<Longrightarrow> env_step pm e e'"
| rename_file: "RenameFile src target e = Inr (st, e') \<Longrightarrow> env_step pm e e'"
| append: "WritableFile_Append pm i data e = Inr (st, e') \<Longrightarrow> env_step pm e e'"
| close: "WritableFile_Close pm i e = Inr (st, e') \<Longrightarrow> env_step pm e e'"
| flush: "WritableFile_Flush pm i e = Inr (st, e') \<Longrightarrow> env_step pm e e'"
| sync: "WritableFile_Sync pm i e = Inr (st, e') \<Longrightarrow> env_step pm e e'"
| read_at: "RandomAccessFile_Read pm i off n scratch e = Inr (res, e') \<Longrightarrow> env_step pm e e'"
| read_next: "SequentialFile_Read pm n scratch (sf, e) = Inr (st, res, sf', e') \<Longrightarrow> env_step pm e e'"
| skip: "SequentialFile_Skip n (sf, e) = Inr (st, sf', e') \<Longrightarrow> env_step pm e e'"
| lock: "LockFile fname e = (st, lk, e') \<Longrightarrow> env_step pm e e'"
| unlock: "UnlockFile lk e = (st, e') \<Longrightarrow> env_step pm e e'"
| schedule: "env_step pm e (Schedule item e)"
| background: "background_turn e it e' \<Longrightarrow> env_step pm e e'"
| worker: "worker_iter pm i (en_z e) = Inr (c, z') \<Longrightarrow> env_step pm e (e\<lparr>en_z := z'\<rparr>)"
| memory: "env_step pm e (e\<lparr>en_z := (en_z e)\<lparr>zs_mem := m\<rparr>\<rparr>)"

inductive reachable_env :: "'d params \<Rightarrow> 'd zenv \<Rightarrow> bool" for pm where
  start: "ZoadDefault pm mem d = Inr e \<Longrightarrow> reachable_env pm e"
| step: "reachable_env pm e \<Longrightarrow> env_step pm e e' \<Longrightarrow> reachable_env pm e'"

lemma NewWritableFile_ok:
  assumes ok: "env_ok pm e" and run: "NewWritableFile pm refs0 fname lv flag e = Inr (st, h, e')"
  shows "env_ok pm e'"
proof -
  obtain e1 e2 where 1: "(if map_of (en_file_map e) fname \<noteq> None then DeleteFileInternal fname e else Inr e) = Inr e1"
    and 2: "make_file pm refs0 fname lv flag e1 = Inr (h, e2)" "new_FileImpl h e2 = Inr (h, e')"
    using run by (auto simp: NewWritableFile_def new_FileImpl_def fault_simps)
  have "env_ok pm e1" using 1 ok DeleteFileInternal_ok [OF ok] by (auto split: if_splits)
  with 2 show ?thesis using make_file_ok new_FileImpl_ok by blast
qed

lemma NewAppendableFile_ok:
  assumes ok: "env_ok pm e" and run: "NewAppendableFile pm refs0 fname lv flag e = Inr (st, h, e')"
  shows "env_ok pm e'"
proof -
  obtain i e1 where "(case map_of (en_file_map e) fname of None \<Rightarrow> make_file pm refs0 fname lv flag e | Some i \<Rightarrow> Inr (i, e)) = Inr (i, e1)"
    "new_FileImpl i e1 = Inr (h, e')" using run by (auto simp: NewAppendableFile_def fault_simps)
  moreover from this(1) have "env_ok pm e1" using ok by (auto split: option.splits dest: make_file_ok [OF ok])
  ultimately show ?thesis using new_FileImpl_ok by blast
qed

lemma env_ok_other:
  assumes "env_ok pm e" "en_z e' = en_z e" "en_cfg e' = en_cfg e" "en_files e' = en_files e" "en_file_map e' = en_file_map e"
    "en_global_key e' = en_global_key e"
  shows "env_ok pm e'"
  using assms by (simp add: env_ok_def)

lemma env_ok_store:
  assumes "env_ok pm e" "io_step pm (en_z e) z"
  shows "env_ok pm (e\<lparr>en_z := z\<rparr>)"
proof -
  have "(io_step pm)\<^sup>*\<^sup>* (en_z e) z" using assms(2) by blast
  from env_store_steps [OF assms(1) this] env_okD [OF assms(1)] show ?thesis by (simp add: env_ok_def)
qed

lemma env_step_ok: "env_step pm e e' \<Longrightarrow> env_ok pm e \<Longrightarrow> env_ok pm e'"
proof (induction rule: env_step.induct)
  case (writable refs0 fname lv flag e st h e')
  then show ?case using NewWritableFile_ok by blast
next
  case (appendable refs0 fname lv flag e st h e')
  then show ?case using NewAppendableFile_ok by blast
next
  case (sequential fname e st sh e')
  then show ?case by (auto simp: NewSequentialFile_def fault_simps split: option.splits intro: new_SequentialFileImpl_ok)
next
  case (random_access fname e st rh e')
  then show ?case by (auto simp: NewRandomAccessFile_def fault_simps split: option.splits intro: new_FileImpl_ok)
next
  case (release i e e')
  then show ?case by (auto simp: delete_FileImpl_def intro: refs_ok)
next
  case (delete_file fname e st e')
  then show ?case by (auto simp: DeleteFile_def fault_simps split: option.splits dest: DeleteFileInternal_ok)
next
  case (rename_file src target e st e')
  then show ?case using RenameFile_ok by blast
next
  case (append i data e st e')
  from append.hyps show ?case unfolding WritableFile_Append_def by (rule on_file_ok [OF append.prems]) (rule ZoadFile_Append_kept)
next
  case (close i e st e')
  from close.hyps show ?case unfolding WritableFile_Close_def by (rule on_file_ok [OF close.prems]) (rule FlushBuffer_kept)
next
  case (flush i e st e')
  from flush.hyps show ?case unfolding WritableFile_Flush_def by (rule on_file_ok [OF flush.prems]) (rule FlushBuffer_kept)
next
  case (sync i e st e')
  from sync.hyps show ?case unfolding WritableFile_Sync_def by (rule on_file_ok [OF sync.prems]) (rule ZoadFile_Sync_kept)
next
  case (read_at i off n scratch e res e')
  from read_at.hyps show ?case
    unfolding RandomAccessFile_Read_def by (rule on_file_ok [OF read_at.prems]) (auto simp: fault_simps intro: ZoadFile_Read_kept)
next
  case (read_next n scratch sf e st res sf' e')
  then obtain x where "on_file (sq_file sf) (\<lambda>s. ebind (ZoadFile_Read pm (en_cfg e) (sq_pos sf) n scratch s)
       (\<lambda>(st, result, f, z). Inr ((st, result), f, z))) e = Inr (x, e')" by (auto simp: SequentialFile_Read_def fault_simps)
  with read_next.prems show ?case by (rule on_file_ok) (auto simp: fault_simps intro: ZoadFile_Read_kept)
next
  case (skip n sf e st sf' e')
  then show ?case by (auto simp: SequentialFile_Skip_def Let_def fault_simps split: if_splits)
next
  case (lock fname e st lk e')
  then show ?case by (auto simp: LockFile_def lock_Insert_def Let_def split: if_splits intro: env_ok_other)
next
  case (unlock lk e st e')
  then show ?case by (auto simp: UnlockFile_def intro: env_ok_other)
next
  case (schedule e item)
  then show ?case by (auto simp: Schedule_def Let_def intro: env_ok_other)
next
  case (background e it e')
  then show ?case by (auto simp: background_turn_def BackgroundThreadMain_def fault_simps split: if_splits intro: env_ok_other)
qed (auto intro: env_ok_store io_step.intros)

lemma reachable_env_ok: "reachable_env pm e \<Longrightarrow> env_ok pm e"
  by (induction rule: reachable_env.induct) (blast intro: env_start_ok env_step_ok)+

section \<open>The calls return\<close>

text \<open>The key of a file is a number written in decimal; it can be read back.\<close>

definition of_digits :: "string \<Rightarrow> nat" where
  "of_digits s = foldl (\<lambda>n c. n * 10 + (of_char c - 48)) 0 s"

lemma of_digits_to_string: "of_digits (to_string n) = n"
proof (induction n rule: to_string.induct)
  case (1 n)
  show ?case
  proof (cases "n < 10")
    case True
    then have "to_string n = [char_of (48 + n)]" by (subst to_string.simps) simp
    then show ?thesis using True by (simp add: of_digits_def)
  next
    case False
    then have "to_string n = to_string (n div 10) @ [char_of (48 + n mod 10)]" by (subst to_string.simps) simp
    then have "of_digits (to_string n) = of_digits (to_string (n div 10)) * 10 + n mod 10" by (simp add: of_digits_def)
    then show ?thesis using 1 False by simp
  qed
qed

lemma to_string_inj: "to_string m = to_string n \<longleftrightarrow> m = n"
  by (metis of_digits_to_string)

lemma z_del_returns:
  assumes P: "part_usable g i z"
  shows "\<exists>r z'. z_del (cf_uid g) (i + 1) nm z = Inr (r, z')"
proof -
  note i = part_usable_i [OF P]
  obtain l where l: "lib_ok z" "length (zs_parts z) < 2 ^ 32 - 1" "zs_user_map z (cf_uid g) = Some l" "i \<in> set l"
    "\<not> pt_deleted (zs_parts z ! i)" using P by (auto simp: part_usable_def)
  have "\<not> pt_locked (zs_parts z ! i)" using part_regD(1) [OF lib_okD(3) [OF l(1) i]] .
  then show ?thesis
    unfolding z_del_def on_partition_found [OF l(1-4)] using l(5) i by (simp add: z_del_on_eq split: option.split)
qed

lemma fits_usable:
  assumes "env_ok pm e" "file_fits f"
  shows "part_usable env_cfg (fl_flag f) (en_z e)" "fl_flag f < 2"
proof -
  show "fl_flag f < 2" using assms(2) by (simp add: file_wf_def env_cfg_sel)
  then show "part_usable env_cfg (fl_flag f) (en_z e)" using env_okD(7,8) [OF assms(1)] by (auto simp: less_2_cases_iff)
qed

lemma ZoadFile_Delete_returns:
  assumes "env_ok pm e" "file_fits f"
  shows "\<exists>f' z'. ZoadFile_Delete env_cfg (f, en_z e) = Inr (OK, f', z')"
proof -
  note u = fits_usable [OF assms]
  obtain r z' where "z_del (cf_uid env_cfg) (fl_flag f + 1) (fl_key f) (en_z e) = Inr (r, z')" using z_del_returns [OF u(1)] by blast
  moreover have "cf_lp_id env_cfg ! fl_flag f = fl_flag f + 1" by (rule env_cfg_flag(1) [OF u(2)])
  ultimately show ?thesis
    using assms(2) by (auto simp: ZoadFile_Delete_def file_wf_def file_buf_def vec_at_def)
qed

lemma DeleteFileInternal_returns:
  assumes ok: "env_ok pm e"
  shows "\<exists>e'. DeleteFileInternal fname e = Inr e'"
proof (cases "map_of (en_file_map e) fname")
  case (Some i)
  note l = env_okD(2) [OF ok Some]
  obtain f z where "ZoadFile_Delete env_cfg (en_files e ! i, en_z e) = Inr (OK, f, z)"
    using ZoadFile_Delete_returns [OF ok] l by blast
  then show ?thesis using Some l env_okD(5) [OF ok] by (simp add: DeleteFileInternal_def on_file_def upd_file_def)
qed (simp add: DeleteFileInternal_def)

lemma Flush_returns:
  assumes "env_ok pm e" "file_fits f"
  shows "\<exists>f' z'. FlushBuffer pm env_cfg (f, en_z e) = Inr (OK, f', z')"
proof (cases "fl_buf_pos f < cf_buf_size env_cfg ! fl_flag f")
  case True
  from flush_partial [OF assms(2) this] show ?thesis unfolding FlushBuffer_def by blast
next
  case False
  then have "fl_buf_pos f = cf_buf_size env_cfg ! fl_flag f" using assms(2) by (simp add: file_wf_def)
  from flush_full [OF assms(2) this fits_usable(1) [OF assms]] show ?thesis unfolding FlushBuffer_def by blast
qed

text \<open>
  C16: the calls on a file of the table return without an error, in every reachable
  state: appending, flushing and closing.
\<close>

theorem file_calls_return:
  assumes "reachable_env pm e" and "map_of (en_file_map e) nm = Some i"
  shows "(\<exists>e'. WritableFile_Append pm i data e = Inr (OK, e')) \<and> (\<exists>e'. WritableFile_Flush pm i e = Inr (OK, e'))
     \<and> (\<exists>e'. WritableFile_Close pm i e = Inr (OK, e'))"
proof -
  note ok = reachable_env_ok [OF assms(1)]
  note l = env_okD(2) [OF ok assms(2)] and g = env_okD(5) [OF ok]
  have fits: "file_fits (en_files e ! i)" using l by blast
  obtain f1 z1 where 1: "ZoadFile_Append pm env_cfg data (en_files e ! i, en_z e) = Inr (OK, f1, z1)"
    using append_written [OF fits fits_usable(1) [OF ok fits]] by blast
  obtain f2 z2 where 2: "FlushBuffer pm env_cfg (en_files e ! i, en_z e) = Inr (OK, f2, z2)"
    using Flush_returns [OF ok fits] by blast
  from 1 2 l g show ?thesis by (simp add: WritableFile_Append_def WritableFile_Flush_def WritableFile_Close_def on_file_def)
qed

text \<open>
  C17: every entry of the table is a live file object that carries the name of the entry, two
  entries are different objects, and as long as no more than 2^32 files have been made, so that the
  32-bit counter of keys has not wrapped around, their keys differ: no file can write into the
  object of another.
\<close>

theorem files_do_not_share:
  assumes "reachable_env pm e" and "map_of (en_file_map e) nm = Some i"
  shows "fl_name (en_files e ! i) = nm \<and> fl_buf (en_files e ! i) \<noteq> None
     \<and> (\<forall>nm' j. map_of (en_file_map e) nm' = Some j \<and> nm' \<noteq> nm \<longrightarrow>
          i \<noteq> j \<and> (length (en_files e) \<le> 2 ^ 32 \<longrightarrow> fl_key (en_files e ! i) \<noteq> fl_key (en_files e ! j)))"
proof -
  note ok = reachable_env_ok [OF assms(1)]
  note a = env_okD(2) [OF ok assms(2)]
  have "i \<noteq> j \<and> (length (en_files e) \<le> 2 ^ 32 \<longrightarrow> fl_key (en_files e ! i) \<noteq> fl_key (en_files e ! j))"
    if j: "map_of (en_file_map e) nm' = Some j" "nm' \<noteq> nm" for nm' j
  proof -
    note b = env_okD(2) [OF ok j(1)]
    have "i \<noteq> j" using a b j(2) by blast
    moreover have "u32 i = i" "u32 j = j" if "length (en_files e) \<le> 2 ^ 32" using a b that by (simp_all add: u32_id)
    ultimately show ?thesis using env_okD(3) [OF ok] a b by (simp add: to_string_inj)
  qed
  with a show ?thesis by (auto simp: file_wf_def)
qed

lemma make_file_returns:
  assumes "env_ok pm e" "flag < 2"
  shows "\<exists>e'. make_file pm refs0 fname lv flag e = Inr (length (en_files e), e')"
  using assms env_okD(5) [OF assms(1)] by (simp add: make_file_def new_ZoadFile_def vec_at_def env_cfg_sel Let_def)

lemma NewWritableFile_returns:
  assumes ok: "env_ok pm e" and flag: "flag < 2"
  shows "\<exists>e'. NewWritableFile pm refs0 fname lv flag e = Inr (OK, length (en_files e), e')
     \<and> map_of (en_file_map e') = (map_of (en_file_map e))(fname \<mapsto> length (en_files e))
     \<and> length (en_files e') = Suc (length (en_files e)) \<and> fl_file_size (en_files e' ! length (en_files e)) = 0
     \<and> (\<forall>nm j. nm \<noteq> fname \<and> map_of (en_file_map e) nm = Some j \<longrightarrow> en_files e' ! j = en_files e ! j)"
proof -
  obtain e1 where e1: "(if map_of (en_file_map e) fname \<noteq> None then DeleteFileInternal fname e else Inr e) = Inr e1"
    using DeleteFileInternal_returns [OF ok, of fname] by (cases "map_of (en_file_map e) fname") auto
  then have 1: "env_ok pm e1" "length (en_files e1) = length (en_files e)"
    "(map_of (en_file_map e1))(fname \<mapsto> x) = (map_of (en_file_map e))(fname \<mapsto> x)"
    "map_of (en_file_map e) fname \<noteq> Some j \<Longrightarrow> en_files e1 ! j = en_files e ! j" for x j
    using ok DeleteFileInternal_ok [OF ok] by (auto split: if_splits)
  obtain e2 where e2: "make_file pm refs0 fname lv flag e1 = Inr (length (en_files e), e2)"
    using make_file_returns [OF 1(1) flag, unfolded 1(2)] by blast
  note 2 = make_file_ok [OF 1(1) e2, unfolded 1(2)]
  let ?h = "length (en_files e)" and ?e = "e2\<lparr>en_files := (en_files e2)[length (en_files e) := Ref (en_files e2 ! length (en_files e))]\<rparr>"
  have run: "NewWritableFile pm refs0 fname lv flag e = Inr (OK, ?h, ?e)"
    using e1 e2 2 1(2) by (simp add: NewWritableFile_def new_FileImpl_def upd_file_def)
  have "\<forall>nm j. nm \<noteq> fname \<and> map_of (en_file_map e) nm = Some j \<longrightarrow> en_files ?e ! j = en_files e ! j"
  proof (intro allI impI)
    fix nm j assume that: "nm \<noteq> fname \<and> map_of (en_file_map e) nm = Some j"
    then have "map_of (en_file_map e) fname \<noteq> Some j" using env_okD(2) [OF ok] that by blast
    moreover have "j < length (en_files e)" using env_okD(2) [OF ok] that by blast
    ultimately show "en_files ?e ! j = en_files e ! j" using 1(2,4) 2 by simp
  qed
  moreover have "fl_file_size (en_files ?e ! ?h) = 0" using 2 1(2) by (simp add: Ref_def)
  ultimately show ?thesis using run 1(2,3) 2 by (intro exI [of _ ?e]) simp
qed

text \<open>
  C18: making a writable file returns in every reachable state, whether the name exists or
  not; the file is in the table under its name, a new object, empty; and every other name keeps its
  entry, with the file object it stands for unchanged: its key, its buffers and its size.
\<close>

theorem new_writable_file:
  assumes "reachable_env pm e" and "flag < 2"
  shows "\<exists>h e'. NewWritableFile pm refs0 fname lv flag e = Inr (OK, h, e')
     \<and> h = length (en_files e) \<and> map_of (en_file_map e') fname = Some h \<and> GetFileSize fname e' = Inr (OK, Some 0)
     \<and> (\<forall>nm. nm \<noteq> fname \<longrightarrow> map_of (en_file_map e') nm = map_of (en_file_map e) nm
          \<and> FileExists nm e' = FileExists nm e \<and> GetFileSize nm e' = GetFileSize nm e
          \<and> (\<forall>j. map_of (en_file_map e) nm = Some j \<longrightarrow> j < h \<and> en_files e' ! j = en_files e ! j))"
proof -
  note ok = reachable_env_ok [OF assms(1)]
  obtain e' where w: "NewWritableFile pm refs0 fname lv flag e = Inr (OK, length (en_files e), e')"
    "map_of (en_file_map e') = (map_of (en_file_map e))(fname \<mapsto> length (en_files e))"
    "length (en_files e') = Suc (length (en_files e))" "fl_file_size (en_files e' ! length (en_files e)) = 0"
    "\<forall>nm j. nm \<noteq> fname \<and> map_of (en_file_map e) nm = Some j \<longrightarrow> en_files e' ! j = en_files e ! j"
    using NewWritableFile_returns [OF ok assms(2)] by blast
  have lt: "j < length (en_files e)" if "map_of (en_file_map e) nm = Some j" for nm j using env_okD(2) [OF ok that] by blast
  have "GetFileSize nm e' = GetFileSize nm e" if "nm \<noteq> fname" for nm
  proof (cases "map_of (en_file_map e) nm")
    case (Some j)
    with lt [OF Some] that w show ?thesis by (simp add: GetFileSize_def)
  qed (use that w in \<open>simp add: GetFileSize_def\<close>)
  with w lt show ?thesis by (auto simp: FileExists_def GetFileSize_def Size_def)
qed

text \<open>
  C19: deleting a file of the table returns; the name is gone and every other name keeps
  its file. Deleting an unknown name is an error and changes nothing.
\<close>

theorem delete_file:
  assumes "reachable_env pm e"
  shows "\<exists>e'. DeleteFile nm e = Inr (if FileExists nm e then OK else IOError nm ''File not found'', e')
     \<and> \<not> FileExists nm e' \<and> (\<forall>nm'. nm' \<noteq> nm \<longrightarrow> FileExists nm' e' = FileExists nm' e \<and> GetFileSize nm' e' = GetFileSize nm' e)"
proof (cases "map_of (en_file_map e) nm")
  case (Some i)
  note ok = reachable_env_ok [OF assms]
  obtain e' where e': "DeleteFileInternal nm e = Inr e'" using DeleteFileInternal_returns [OF ok] by blast
  note d = DeleteFileInternal_ok [OF ok e']
  have "GetFileSize nm' e' = GetFileSize nm' e" if "nm' \<noteq> nm" for nm'
  proof (cases "map_of (en_file_map e) nm'")
    case (Some j)
    then have "j < length (en_files e)" "map_of (en_file_map e) nm \<noteq> Some j" using env_okD(2) [OF ok] that by blast+
    with Some that d show ?thesis by (simp add: GetFileSize_def)
  qed (use that d in \<open>simp add: GetFileSize_def\<close>)
  with Some e' d show ?thesis by (auto simp: DeleteFile_def FileExists_def)
qed (auto simp: DeleteFile_def FileExists_def)

text \<open>
  C20: renaming moves the file to the new name, whatever was there before; renaming a file
  to its own name removes it from the table.
\<close>

theorem rename_file:
  assumes "reachable_env pm e" and "map_of (en_file_map e) src = Some i"
  shows "\<exists>e'. RenameFile src target e = Inr (OK, e') \<and> FileExists target e' = (target \<noteq> src) \<and> \<not> FileExists src e'
     \<and> (target \<noteq> src \<longrightarrow> map_of (en_file_map e') target = Some i \<and> en_files e' ! i = (en_files e ! i)\<lparr>fl_name := target\<rparr>)
     \<and> (\<forall>nm. nm \<noteq> src \<and> nm \<noteq> target \<longrightarrow> map_of (en_file_map e') nm = map_of (en_file_map e) nm)"
proof -
  note ok = reachable_env_ok [OF assms(1)]
  have i: "i < length (en_files e)" using env_okD(2) [OF ok assms(2)] by blast
  note mv = stdm.lookup_move [OF env_okD(1) [OF ok] assms(2), of target]
  from assms(2) i mv show ?thesis by (auto simp: RenameFile_def upd_file_def FileExists_def Rename_def)
qed

section \<open>Listing, locks and background work\<close>

lemma child_name:
  "length dir + 1 \<le> length s \<and> s ! length dir = c \<and> take (length dir) s = dir \<longleftrightarrow> s = dir @ c # drop (length dir + 1) s"
proof
  assume a: "length dir + 1 \<le> length s \<and> s ! length dir = c \<and> take (length dir) s = dir"
  then have "drop (length dir) s = c # drop (length dir + 1) s" using Cons_nth_drop_Suc [of "length dir" s] by simp
  then show "s = dir @ c # drop (length dir + 1) s" using a append_take_drop_id [of "length dir" s] by simp
next
  assume a: "s = dir @ c # drop (length dir + 1) s"
  then have "length s = length (dir @ c # drop (length dir + 1) s)" by metis
  moreover have "s ! length dir = c" "take (length dir) s = dir" by (subst a, simp)+
  ultimately show "length dir + 1 \<le> length s \<and> s ! length dir = c \<and> take (length dir) s = dir" by simp
qed

text \<open>
  C21: the children of a directory are what follows \<open>dir/\<close> in the names of the files,
  each once.
\<close>

theorem get_children:
  assumes "reachable_env pm e"
  shows "set (GetChildren dir e) = {c. FileExists (dir @ ''/'' @ c) e} \<and> distinct (GetChildren dir e)"
proof -
  note ok = env_okD(1) [OF reachable_env_ok [OF assms]]
  let ?p = "\<lambda>s. length dir + 1 \<le> length s \<and> s ! length dir = CHR ''/'' \<and> take (length dir) s = dir"
  let ?l = "filter ?p (map_keys (en_file_map e))"
  have p: "?p s \<longleftrightarrow> s = dir @ CHR ''/'' # drop (length dir + 1) s" for s by (rule child_name)
  have "set (GetChildren dir e) = {c. dir @ ''/'' @ c \<in> set (map_keys (en_file_map e))}"
  proof (intro set_eqI iffI; clarsimp)
    fix c assume "c \<in> set (GetChildren dir e)"
    then obtain s where s: "c = drop (length dir + 1) s" "s \<in> set (map_keys (en_file_map e))" "?p s" by (auto simp: GetChildren_def)
    then show "dir @ CHR ''/'' # c \<in> set (map_keys (en_file_map e))" using p [of s] by simp
  next
    fix c assume "dir @ CHR ''/'' # c \<in> set (map_keys (en_file_map e))"
    then have "dir @ CHR ''/'' # c \<in> set ?l" by simp
    from imageI [OF this, of "drop (length dir + 1)"] show "c \<in> set (GetChildren dir e)" by (simp add: GetChildren_def)
  qed
  moreover have "inj_on (drop (length dir + 1)) (set ?l)"
  proof (rule inj_onI)
    fix s t assume "s \<in> set ?l" "t \<in> set ?l" and d: "drop (length dir + 1) s = drop (length dir + 1) t"
    then have "?p s" "?p t" by simp_all
    then show "s = t" unfolding p using d by metis
  qed
  moreover have "distinct (map_keys (en_file_map e))" using ok by (auto simp: map_ok_def map_keys_def strict_sorted_iff)
  ultimately show ?thesis using stdm.lookup_keys [OF ok] by (simp add: GetChildren_def FileExists_def distinct_map)
qed

text \<open>A sequence of calls on file locks, and their results.\<close>

datatype lock_call = Lock string | Unlock string

fun lock_run :: "lock_call list \<Rightarrow> 'd zenv \<Rightarrow> Status list" where
  "lock_run [] e = []"
| "lock_run (Lock nm # cs) e = (case LockFile nm e of (st, _, e) \<Rightarrow> st # lock_run cs e)"
| "lock_run (Unlock nm # cs) e = (case UnlockFile nm e of (st, e) \<Rightarrow> st # lock_run cs e)"

lemma LockFile_sel:
  "fst (LockFile nm e) = OK \<longleftrightarrow> nm \<notin> en_locks e" "en_locks (snd (snd (LockFile nm e))) = insert nm (en_locks e)"
  by (simp_all add: LockFile_def lock_Insert_def Let_def)

lemma UnlockFile_sel: "fst (UnlockFile nm e) = OK" "en_locks (snd (UnlockFile nm e)) = en_locks e - {nm}"
  by (simp_all add: UnlockFile_def lock_Remove_def)

lemma lock_run_Cons:
  "lock_run (Lock nm # cs) e = fst (LockFile nm e) # lock_run cs (snd (snd (LockFile nm e)))"
  "lock_run (Unlock nm # cs) e = fst (UnlockFile nm e) # lock_run cs (snd (UnlockFile nm e))"
  by (simp_all add: split_beta)

declare lock_run.simps(2,3) [simp del] and lock_run_Cons [simp]

definition lock_after :: "lock_call \<Rightarrow> 'd zenv \<Rightarrow> 'd zenv" where
  "lock_after c e = (case c of Lock nm \<Rightarrow> snd (snd (LockFile nm e)) | Unlock nm \<Rightarrow> snd (UnlockFile nm e))"

lemma lock_run_Suc: "lock_run (c # cs) e ! Suc k = lock_run cs (lock_after c e) ! k"
  by (cases c) (simp_all add: lock_after_def)

lemma lock_after_held:
  "nm \<in> en_locks (lock_after c e) \<longleftrightarrow> c = Lock nm \<or> nm \<in> en_locks e \<and> c \<noteq> Unlock nm"
  by (cases c) (auto simp: lock_after_def LockFile_sel UnlockFile_sel)

lemma held_needs_unlock:
  "nm \<in> en_locks e \<Longrightarrow> j < length cs \<Longrightarrow> cs ! j = Lock nm \<Longrightarrow> lock_run cs e ! j = OK \<Longrightarrow> \<exists>k < j. cs ! k = Unlock nm"
proof (induction cs arbitrary: e j)
  case (Cons c cs)
  show ?case
  proof (cases "c = Unlock nm")
    case True
    then show ?thesis using Cons.prems(3) by (intro exI [of _ 0]) (auto intro: gr0I)
  next
    case False
    obtain i where j: "j = Suc i" using Cons.prems by (cases j) (auto simp: LockFile_sel)
    have "nm \<in> en_locks (lock_after c e)" using Cons.prems(1) False by (simp add: lock_after_held)
    from Cons.IH [OF this, of i] Cons.prems j obtain k where "k < i" "cs ! k = Unlock nm" by (auto simp: lock_run_Suc)
    then show ?thesis using j by (intro exI [of _ "Suc k"]) simp
  qed
qed simp

text \<open>
  C22: a file lock is held by at most one owner: between two successful calls that lock the
  same name there is a call that unlocks it.
\<close>

theorem lock_exclusive:
  assumes "i < j" and "j < length cs" and "cs ! i = Lock nm" and "cs ! j = Lock nm" and "lock_run cs e ! i = OK" and "lock_run cs e ! j = OK"
  shows "\<exists>k. i < k \<and> k < j \<and> cs ! k = Unlock nm"
  using assms
proof (induction cs arbitrary: e i j)
  case (Cons c cs)
  obtain j' where j: "j = Suc j'" using Cons.prems(1) by (cases j) auto
  show ?case
  proof (cases i)
    case 0
    then have "nm \<in> en_locks (lock_after c e)" using Cons.prems(3) by (simp add: lock_after_held)
    from held_needs_unlock [OF this, of j' cs] Cons.prems j obtain k where "k < j'" "cs ! k = Unlock nm" by (auto simp: lock_run_Suc)
    then show ?thesis using 0 j by (intro exI [of _ "Suc k"]) simp
  next
    case (Suc i')
    with Cons.IH [of i' j' "lock_after c e"] Cons.prems j obtain k where "i' < k" "k < j'" "cs ! k = Unlock nm"
      by (auto simp: lock_run_Suc)
    then show ?thesis using Suc j by (intro exI [of _ "Suc k"]) simp
  qed
qed simp

text \<open>
  Background work, from the state \<open>e0\<close>: the items scheduled and the items run so far, in order, in
  any interleaving of calls of \<open>Schedule\<close>, turns of the thread, and steps that touch neither the
  queue nor the thread.
\<close>

inductive bg_trace :: "'d zenv \<Rightarrow> work list \<Rightarrow> work list \<Rightarrow> 'd zenv \<Rightarrow> bool" for e0 where
  bg_start: "bg_trace e0 [] [] e0"
| bg_schedule: "bg_trace e0 ss rs e \<Longrightarrow> bg_trace e0 (ss @ [item]) rs (Schedule item e)"
| bg_turn: "bg_trace e0 ss rs e \<Longrightarrow> background_turn e it e' \<Longrightarrow> bg_trace e0 ss (rs @ case_option [] (\<lambda>item. [item]) it) e'"
| bg_other: "bg_trace e0 ss rs e \<Longrightarrow> en_work e' = en_work e \<Longrightarrow> en_started e' = en_started e \<Longrightarrow> en_thread e' = en_thread e \<Longrightarrow>
     bg_trace e0 ss rs e'"

text \<open>No lost wake-up: when work is queued, the thread exists and is not blocked.\<close>

definition bg_inv :: "'d zenv \<Rightarrow> bool" where
  "bg_inv e \<longleftrightarrow> (en_started e \<longleftrightarrow> en_thread e \<noteq> NotStarted) \<and> (en_work e \<noteq> [] \<longrightarrow> en_thread e = Running)"

lemma Schedule_sel:
  "en_work (Schedule item e) = en_work e @ [item]" "en_started (Schedule item e)"
  "bg_inv e \<Longrightarrow> en_thread (Schedule item e) = Running"
  by (auto simp: Schedule_def Let_def stdq.items_push stdq.is_empty_items cv_Signal_def bg_inv_def) (cases "en_thread e"; simp)+

lemma turn_iff:
  "background_turn e it e' \<longleftrightarrow> en_thread e = Running \<and>
     (case en_work e of [] \<Rightarrow> it = None \<and> e' = e\<lparr>en_thread := Waiting\<rparr> | item # q \<Rightarrow> it = Some item \<and> e' = e\<lparr>en_work := q\<rparr>)"
  by (cases "en_work e") (auto simp: background_turn_def BackgroundThreadMain_def stdq.is_empty_items stdq.front_items stdq.items_pop)

lemma bg_trace_inv:
  assumes "bg_trace e0 ss rs e" "bg_inv e0" "en_work e0 = []"
  shows "bg_inv e \<and> rs @ en_work e = ss"
  using assms
proof (induction rule: bg_trace.induct)
  case (bg_schedule ss rs e item)
  then show ?case using Schedule_sel [where item = item and e = e] by (auto simp: bg_inv_def)
next
  case (bg_turn ss rs e it e')
  then show ?case by (auto simp: turn_iff bg_inv_def split: list.splits)
qed (auto simp: bg_inv_def)

text \<open>Turns of the thread alone: one for each item, and one more that blocks.\<close>

lemma turns_bounded:
  "((\<lambda>x y. \<exists>it. background_turn x it y) ^^ n) e e' \<Longrightarrow> bg_inv e \<Longrightarrow> bg_inv e' \<and> n \<le> length (en_work e) + 1"
proof (induction n arbitrary: e)
  case (Suc n)
  then obtain it x where x: "background_turn e it x" "((\<lambda>x y. \<exists>it. background_turn x it y) ^^ n) x e'"
    using relpowp_Suc_D2 [OF Suc.prems(1)] by blast
  show ?case
  proof (cases "en_work e")
    case Nil
    then have w: "en_thread x = Waiting" "bg_inv x" using x(1) Suc.prems(2) by (auto simp: turn_iff bg_inv_def)
    then have stop: "\<not> background_turn x it y" for it y by (simp add: turn_iff)
    have "n = 0"
    proof (cases n)
      case (Suc m)
      from relpowp_Suc_D2 [OF x(2) [unfolded Suc]] stop show ?thesis by blast
    qed
    then have "n = 0 \<and> e' = x" using x(2) by simp
    then show ?thesis using w by simp
  next
    case (Cons item q)
    then have "bg_inv x" "length (en_work e) = Suc (length (en_work x))" using x(1) Suc.prems(2) by (auto simp: turn_iff bg_inv_def)
    then show ?thesis using Suc.IH [OF x(2)] by simp
  qed
qed simp

text \<open>
  C23: background work is run in the order in which it was scheduled, each item once, and all of
  it. Whatever the order in which calls of \<open>Schedule\<close> and turns of the thread happened since the start,
  the items run, followed by those in the queue, are the items scheduled; while there is work the
  thread exists, is not blocked and takes the front item next (no wake-up is lost); and if the
  thread runs on its own it is blocked after at most one turn more than there are items, and then
  nothing is left to run.
\<close>

theorem background_runs_all:
  assumes "bg_trace e0 ss rs e" and "\<not> en_started e0" and "en_thread e0 = NotStarted" and "en_work e0 = []"
  shows "rs @ en_work e = ss
     \<and> (en_work e \<noteq> [] \<longrightarrow> (\<exists>e'. background_turn e (Some (hd (en_work e))) e'))
     \<and> (\<forall>n e'. ((\<lambda>x y. \<exists>it. background_turn x it y) ^^ n) e e' \<longrightarrow>
          n \<le> length (en_work e) + 1 \<and> ((\<nexists>it y. background_turn e' it y) \<longrightarrow> en_work e' = []))"
proof -
  have i: "bg_inv e" "rs @ en_work e = ss" using bg_trace_inv [OF assms(1)] assms(2-4) by (simp_all add: bg_inv_def)
  have go: "\<exists>y. background_turn x (Some (hd (en_work x))) y" if "bg_inv x" "en_work x \<noteq> []" for x :: "'a zenv"
    using that by (cases "en_work x") (auto simp: turn_iff bg_inv_def)
  have "n \<le> length (en_work e) + 1 \<and> ((\<nexists>it y. background_turn e' it y) \<longrightarrow> en_work e' = [])"
    if "((\<lambda>x y. \<exists>it. background_turn x it y) ^^ n) e e'" for n e'
    using turns_bounded [OF that i(1)] go [of e'] by blast
  with i go [OF i(1)] show ?thesis by blast
qed

section \<open>The default environment\<close>

lemma default_sys:
  assumes st: "start_ok pm media hwp zsz nz d" and sz: "12 * zsz < 2147483648"
  shows "\<exists>z. zoad_init pm mem d = Inr z \<and> sys_ok pm media hwp zsz nz 0 (default_zoad pm z) []"
proof -
  obtain w where w: "zoad_init pm mem d =
       Inr \<lparr>zs_world = w, zs_users = [], zs_parts = [], zs_next_partition_id = 1, zs_user_map = Map.empty,
            zs_open_list = [MAX_PARTITION \<mapsto> [], QOS_PARTITION \<mapsto> []], zs_lock = False, zs_mem = mem\<rparr>"
    "world_ok (pm_ops pm) media hwp zsz nz 0 w" using zoad_init_sys [OF st, of mem] by blast
  let ?w = "w\<lparr>wd_pool := (wd_pool w)\<lparr>pl_available_izg_cnt := 16\<rparr>\<rparr>"
  have "world_ok (pm_ops pm) media hwp zsz nz 0 ?w" using w(2) by (simp add: world_ok_def pool_rep_def)
  moreover have "part_sys (wd_c w) zsz 0 (opened pm ''0'' 4 Z_ASYNC)"
    using sz by (intro new_part_sys) simp_all
  moreover have "part_sys (wd_c w) zsz 0 ((opened pm ''1'' 12 Z_ASYNC)\<lparr>pt_id := 2\<rparr>)"
    using new_part_sys [of 12 zsz "wd_c w" 0 pm "''1''" Z_ASYNC] sz
    by (simp add: part_sys_def part_ok_def zone_nos_def last_zones_def)
  moreover have "zone_nos (opened pm ''0'' 4 Z_ASYNC) = []" "zone_nos ((opened pm ''1'' 12 Z_ASYNC)\<lparr>pt_id := 2\<rparr>) = []"
    by (simp_all add: zone_nos_def opened_def new_Partition_def)
  ultimately show ?thesis
    using w(1) st by (simp add: sys_ok_def default_zoad_def start_ok_def less_Suc_eq)
qed

text \<open>
  C15: the first call of the default environment starts on every device that meets the contract
  and has 32 to 1024 zones, block addresses below 2^32 and zones of less than 2^31 / 12 blocks: two open
  partitions of 4 and 12 IZGs with the ids 1 and 2, 16 IZGs left, an empty table of files,
  and a store in which every object can be read.
\<close>

theorem zoad_default_starts:
  assumes "start_ok pm media hwp zsz nz d" and "12 * zsz < 2 ^ 31"
  shows "\<exists>e. ZoadDefault pm mem d = Inr e \<and> sys_ok pm media hwp zsz nz 0 (en_z e) []
     \<and> map (\<lambda>p. (pt_id p, pt_name p, pt_izg_cnt p, pt_status p)) (zs_parts (en_z e)) = [(1, ''0'', 4, OPEN), (2, ''1'', 12, OPEN)]
     \<and> pl_available_izg_cnt (wd_pool (zs_world (en_z e))) = 16 \<and> zs_user_map (en_z e) 0 = Some [0, 1]
     \<and> cf_lp_id (en_cfg e) = [1, 2] \<and> cf_buf_size (en_cfg e) = [4 * IO_SIZE, 12 * IO_SIZE] \<and> en_file_map e = []"
proof -
  obtain z where z: "zoad_init pm mem d = Inr z" "sys_ok pm media hwp zsz nz 0 (default_zoad pm z) []"
    using default_sys [OF assms(1)] assms(2) by auto
  have "pt_id (opened pm ''0'' 4 Z_ASYNC) = 1" "pt_name (opened pm nm k fl) = nm" for nm k fl
    by (simp_all add: opened_def new_Partition_def)
  with z ZoadDefault_run [OF z(1)] show ?thesis
    by (intro exI [of _ "env_of (default_zoad pm z)"]) (simp add: env_of_def default_zoad_def env_cfg_sel)
qed

theorem zoad_default_starts_witness:
  "\<exists>e. ZoadDefault emu_pm [] (emu_init (2 * IO_BLOCKS)) = Inr e \<and> length (zs_parts (en_z e)) = 2"
proof -
  have "12 * (2 * IO_BLOCKS) < 2 ^ 31" by (simp add: IO_BLOCKS_def)
  from zoad_default_starts [OF emu_start this, of "[]"] show ?thesis by (auto dest: arg_cong [of _ _ length])
qed

lemma emu_env:
  "\<exists>e. ZoadDefault emu_pm mem (emu_init (2 * IO_BLOCKS)) = Inr e \<and> reachable_env emu_pm e \<and> en_files e = [] \<and> en_file_map e = []
     \<and> en_locks e = {} \<and> en_work e = [] \<and> \<not> en_started e \<and> en_thread e = NotStarted"
proof -
  obtain z where "zoad_init emu_pm mem (emu_init (2 * IO_BLOCKS)) = Inr z" using default_sys [OF emu_start] by (auto simp: IO_BLOCKS_def)
  from ZoadDefault_run [OF this] show ?thesis by (auto simp: env_of_def intro: reachable_env.start)
qed

text \<open>An environment with two files.\<close>

lemma emu_two_files:
  "\<exists>e. reachable_env emu_pm e \<and> map_of (en_file_map e) = [''db/1'' \<mapsto> 0, ''db/2'' \<mapsto> 1] \<and> length (en_files e) = 2"
proof -
  obtain e0 where 0: "reachable_env emu_pm e0" "en_files e0 = []" "en_file_map e0 = []" using emu_env [of "[]"] by blast
  from NewWritableFile_returns [OF reachable_env_ok [OF 0(1)], of 0 0 "''db/1''" 0] 0(2,3) obtain e1 where
    1: "NewWritableFile emu_pm 0 ''db/1'' 0 0 e0 = Inr (OK, 0, e1)" "map_of (en_file_map e1) = [''db/1'' \<mapsto> 0]" "length (en_files e1) = 1"
    by auto
  have r: "reachable_env emu_pm e1" using 0(1) env_step.writable [OF 1(1)] by (rule reachable_env.step)
  have "(1 :: nat) < 2" by simp
  from NewWritableFile_returns [OF reachable_env_ok [OF r] this, of 0 "''db/2''" 0, unfolded 1(2,3)] obtain e2 where
    2: "NewWritableFile emu_pm 0 ''db/2'' 0 1 e1 = Inr (OK, 1, e2)"
      "map_of (en_file_map e2) = [''db/1'' \<mapsto> 0, ''db/2'' \<mapsto> 1]" "length (en_files e2) = Suc 1" by blast
  have "reachable_env emu_pm e2" using r env_step.writable [OF 2(1)] by (rule reachable_env.step)
  then show ?thesis using 2(2,3) by (intro exI [of _ e2]) simp
qed

theorem file_calls_return_witness:
  "\<exists>e e'. reachable_env emu_pm e \<and> WritableFile_Append emu_pm 0 [1, 2, 3] e = Inr (OK, e')"
proof -
  obtain e where e: "reachable_env emu_pm e" "map_of (en_file_map e) = [''db/1'' \<mapsto> 0, ''db/2'' \<mapsto> 1]" using emu_two_files by blast
  from file_calls_return [OF e(1), of "''db/1''" 0 "[1, 2, 3]"] e show ?thesis by auto
qed

theorem files_do_not_share_witness:
  "\<exists>e. reachable_env emu_pm e \<and> fl_name (en_files e ! 0) = ''db/1'' \<and> fl_key (en_files e ! 0) \<noteq> fl_key (en_files e ! 1)"
proof -
  obtain e where e: "reachable_env emu_pm e" "map_of (en_file_map e) = [''db/1'' \<mapsto> 0, ''db/2'' \<mapsto> 1]" "length (en_files e) = 2"
    using emu_two_files by blast
  then have m: "map_of (en_file_map e) ''db/1'' = Some 0" "map_of (en_file_map e) ''db/2'' = Some 1" by simp_all
  note f = files_do_not_share [OF e(1) m(1)]
  have "fl_key (en_files e ! 0) \<noteq> fl_key (en_files e ! 1)"
    using f [THEN conjunct2, THEN conjunct2, rule_format, of "''db/2''" 1] m(2) e(3) by simp
  with conjunct1 [OF f] e(1) show ?thesis by blast
qed

theorem new_writable_file_witness:
  "\<exists>e e'. NewWritableFile emu_pm 0 ''db/1'' 0 1 e = Inr (OK, 2, e') \<and> GetFileSize ''db/1'' e' = Inr (OK, Some 0)
     \<and> FileExists ''db/2'' e' \<and> en_files e' ! 1 = en_files e ! 1"
proof -
  obtain e where e: "reachable_env emu_pm e" "map_of (en_file_map e) = [''db/1'' \<mapsto> 0, ''db/2'' \<mapsto> 1]" "length (en_files e) = 2"
    using emu_two_files by blast
  have x: "FileExists ''db/2'' e" "map_of (en_file_map e) ''db/2'' = Some 1" using e(2) by (simp_all add: FileExists_def)
  have "(1 :: nat) < 2" by simp
  from new_writable_file [OF e(1) this, of 0 "''db/1''" 0] obtain h e' where
    n: "NewWritableFile emu_pm 0 ''db/1'' 0 1 e = Inr (OK, h, e')" "h = length (en_files e)" "GetFileSize ''db/1'' e' = Inr (OK, Some 0)"
      "\<forall>nm. nm \<noteq> ''db/1'' \<longrightarrow> map_of (en_file_map e') nm = map_of (en_file_map e) nm
         \<and> FileExists nm e' = FileExists nm e \<and> GetFileSize nm e' = GetFileSize nm e
         \<and> (\<forall>j. map_of (en_file_map e) nm = Some j \<longrightarrow> j < h \<and> en_files e' ! j = en_files e ! j)" by blast
  have "FileExists ''db/2'' e'" "en_files e' ! 1 = en_files e ! 1" using n(4) [rule_format, of "''db/2''"] x by simp_all
  with n(1-3) e(3) show ?thesis by (intro exI [of _ e] exI [of _ e']) simp
qed

theorem delete_file_witness:
  "\<exists>(e :: emu zenv) e'. DeleteFile ''db/1'' e = Inr (OK, e') \<and> \<not> FileExists ''db/1'' e' \<and> FileExists ''db/2'' e'"
proof -
  obtain e where e: "reachable_env emu_pm e" "map_of (en_file_map e) = [''db/1'' \<mapsto> 0, ''db/2'' \<mapsto> 1]" using emu_two_files by blast
  have x: "FileExists ''db/1'' e" "FileExists ''db/2'' e" using e(2) by (simp_all add: FileExists_def)
  obtain e' where n: "DeleteFile ''db/1'' e = Inr (OK, e')" "\<not> FileExists ''db/1'' e'"
    "\<forall>nm'. nm' \<noteq> ''db/1'' \<longrightarrow> FileExists nm' e' = FileExists nm' e \<and> GetFileSize nm' e' = GetFileSize nm' e"
    using delete_file [OF e(1), of "''db/1''"] x(1) by auto
  have "FileExists ''db/2'' e'" using n(3) [rule_format, of "''db/2''"] x(2) by simp
  with n(1,2) show ?thesis by blast
qed

theorem rename_file_witness:
  "\<exists>(e :: emu zenv) e' e''. RenameFile ''db/1'' ''db/2'' e = Inr (OK, e') \<and> FileExists ''db/2'' e' \<and> \<not> FileExists ''db/1'' e'
     \<and> RenameFile ''db/1'' ''db/1'' e = Inr (OK, e'') \<and> \<not> FileExists ''db/1'' e''"
proof -
  obtain e where e: "reachable_env emu_pm e" "map_of (en_file_map e) ''db/1'' = Some 0" using emu_two_files by auto
  obtain e' where 1: "RenameFile ''db/1'' ''db/2'' e = Inr (OK, e')" "FileExists ''db/2'' e'" "\<not> FileExists ''db/1'' e'"
    using rename_file [OF e, of "''db/2''"] by auto
  obtain e'' where "RenameFile ''db/1'' ''db/1'' e = Inr (OK, e'')" "\<not> FileExists ''db/1'' e''" using rename_file [OF e, of "''db/1''"] by auto
  with 1 show ?thesis by blast
qed

theorem get_children_witness:
  "\<exists>e. reachable_env emu_pm e \<and> set (GetChildren ''db'' e) = {''1'', ''2''}"
proof -
  obtain e where e: "reachable_env emu_pm e" "map_of (en_file_map e) = [''db/1'' \<mapsto> 0, ''db/2'' \<mapsto> 1]" using emu_two_files by blast
  have "{c. FileExists (''db'' @ ''/'' @ c) e} = {''1'', ''2''}" using e(2) by (auto simp: FileExists_def split: if_splits)
  with get_children [OF e(1), of "''db''"] e(1) show ?thesis by auto
qed

theorem lock_exclusive_witness:
  "\<exists>e :: emu zenv. en_locks e = {} \<and> lock_run [Lock ''LOCK'', Lock ''LOCK'', Unlock ''LOCK'', Lock ''LOCK''] e ! 1 \<noteq> OK
     \<and> (\<exists>k. 0 < k \<and> k < 3 \<and> [Lock ''LOCK'', Lock ''LOCK'', Unlock ''LOCK'', Lock ''LOCK''] ! k = Unlock ''LOCK'')"
proof -
  obtain e :: "emu zenv" where e: "en_locks e = {}" using emu_env by blast
  let ?cs = "[Lock ''LOCK'', Lock ''LOCK'', Unlock ''LOCK'', Lock ''LOCK'']"
  have r: "lock_run ?cs e ! 0 = OK" "lock_run ?cs e ! 1 \<noteq> OK" "lock_run ?cs e ! 3 = OK"
    using e by (simp_all add: LockFile_sel UnlockFile_sel numeral_3_eq_3)
  from lock_exclusive [of 0 3 ?cs "''LOCK''" e] r e show ?thesis by (intro exI [of _ e]) simp
qed

text \<open>The thread runs an item, blocks, and is woken up for the next one.\<close>

theorem background_runs_all_witness:
  "\<exists>e0 e e' :: emu zenv. ZoadDefault emu_pm [] (emu_init (2 * IO_BLOCKS)) = Inr e0 \<and> bg_trace e0 [(1, 2), (3, 4)] [(1, 2)] e
     \<and> background_turn e (Some (3, 4)) e' \<and> en_work e' = []"
proof -
  obtain e0 :: "emu zenv" where d: "ZoadDefault emu_pm [] (emu_init (2 * IO_BLOCKS)) = Inr e0"
    and e0: "\<not> en_started e0" "en_thread e0 = NotStarted" "en_work e0 = []" using emu_env by blast
  define e1 where "e1 = Schedule (1, 2) e0"
  have e1: "en_work e1 = [(1, 2)]" "en_thread e1 = Running" "en_started e1"
    using e0 Schedule_sel [where item = "(1, 2)" and e = e0] by (simp_all add: e1_def bg_inv_def)
  let ?e2 = "e1\<lparr>en_work := []\<rparr>" and ?e3 = "e1\<lparr>en_work := [], en_thread := Waiting\<rparr>"
  define e where "e = Schedule (3, 4) ?e3"
  have "bg_trace e0 [(1, 2)] [] e1" using bg_schedule [OF bg_start, of e0 "(1, 2)"] by (simp add: e1_def)
  from bg_turn [OF this, of "Some (1, 2)" ?e2] have "bg_trace e0 [(1, 2)] [(1, 2)] ?e2" using e1 by (simp add: turn_iff)
  from bg_turn [OF this, of None ?e3] have "bg_trace e0 [(1, 2)] [(1, 2)] ?e3" using e1 by (simp add: turn_iff)
  from bg_schedule [OF this, of "(3, 4)"] have t: "bg_trace e0 [(1, 2), (3, 4)] [(1, 2)] e" by (simp add: e_def)
  from background_runs_all [OF t e0] obtain e' where "background_turn e (Some (3, 4)) e'" "en_work e = [(3, 4)]" by auto
  moreover then have "en_work e' = []" by (auto simp: turn_iff)
  ultimately show ?thesis using d t by blast
qed

end
