(* ===== verification/Zoad_Store.thy ===== *)
theory Zoad_Store
  imports Zoad_Registry
begin

text \<open>
  The library as a store of named objects: stripes flushed under names, in any order of the
  names, become objects that hold the stripes of their name in the order of the flushes, and a
  load of up to one stripe reads them back.
\<close>

section \<open>A batch of flushes\<close>

text \<open>A client that flushes a list of buffers, each under a name, and collects the results.\<close>

fun z_flushes ::
  "'d params \<Rightarrow> nat \<Rightarrow> nat \<Rightarrow> (string \<times> byte list) list \<Rightarrow> 'd zoad \<Rightarrow> (int list \<times> 'd zoad) res" where
  "z_flushes pm uid lp_id [] z = Inr ([], z)"
| "z_flushes pm uid lp_id ((nm, b) # fs) z =
     ebind (z_flush pm uid lp_id nm b (length b) Z_APPEND z) (\<lambda>(r, z).
     ebind (z_flushes pm uid lp_id fs z) (\<lambda>(rs, z). Inr (r # rs, z)))"

text \<open>The specification: the stripes of one name, in order.\<close>

definition stripes_of :: "string \<Rightarrow> (string \<times> byte list) list \<Rightarrow> byte list list" where
  "stripes_of nm fs = map snd (filter (\<lambda>(m, _). m = nm) fs)"

lemma stripes_of_simps [simp]:
  "stripes_of nm [] = []" "stripes_of nm (fs @ [(m, b)]) = stripes_of nm fs @ (if m = nm then [b] else [])"
  by (simp_all add: stripes_of_def)

text \<open>The stripes of the object of a name; \<open>yss\<close> lists the stripes of every object.\<close>

definition named :: "byte list list list \<Rightarrow> (string \<rightharpoonup> nat) \<Rightarrow> string \<Rightarrow> byte list list" where
  "named yss m nm = (case m nm of None \<Rightarrow> [] | Some u \<Rightarrow> yss ! u)"

lemma foldl_abs_write_length [simp]: "length (foldl abs_write xss rs) = length xss"
  by (induction rs arbitrary: xss) (simp_all add: abs_write_def)

lemma foldl_abs_write_snoc:
  "\<forall>r \<in> set rs. ir_data r < length xss \<Longrightarrow> foldl abs_write (xss @ [[]]) rs = foldl abs_write xss rs @ [[]]"
proof (induction rs arbitrary: xss)
  case (Cons r rs)
  have "abs_write (xss @ [[]]) r = abs_write xss r @ [[]]" using Cons.prems by (simp add: abs_write_def list_update_append nth_append)
  then show ?case using Cons.IH [of "abs_write xss r"] Cons.prems by (simp add: abs_write_def)
qed simp

text \<open>
  The state after some flushes into the only partition, before the worker has run: the queue
  holds the flushes, and written out they give the objects of the specification.
\<close>

definition batch ::
  "'d params \<Rightarrow> ('d \<Rightarrow> nat \<Rightarrow> byte) \<Rightarrow> ('d \<Rightarrow> nat \<Rightarrow> nat) \<Rightarrow> nat \<Rightarrow> nat \<Rightarrow> nat \<Rightarrow> nat \<Rightarrow> byte list
    \<Rightarrow> byte list list list \<Rightarrow> (string \<times> byte list) list \<Rightarrow> 'd zoad \<Rightarrow> bool" where
  "batch pm media hwp zsz nz uid izg mem xss fs z \<longleftrightarrow>
     (let p = zs_parts z ! 0 in
      sys_ok pm media hwp zsz nz 0 z xss \<and> lib_ok z \<and> zs_user_map z = [uid \<mapsto> [0]] \<and> length (zs_parts z) = 1
      \<and> \<not> pt_deleted p \<and> pt_status p = OPEN \<and> pt_izg_cnt p = izg \<and> zs_mem z = mem
      \<and> length (pt_io_queue p) = length fs \<and> (\<forall>r \<in> set (pt_io_queue p). stripe_req 0 izg z r) \<and> (\<forall>xs \<in> set xss. xs = [])
      \<and> (\<forall>nm. named (foldl abs_write xss (pt_io_queue p)) (pt_userdata_map p) nm = stripes_of nm fs))"

lemma batchD:
  assumes "batch pm media hwp zsz nz uid izg mem xss fs z"
  shows "sys_ok pm media hwp zsz nz 0 z xss" "lib_ok z" "zs_user_map z = [uid \<mapsto> [0]]" "length (zs_parts z) = 1"
    "\<not> pt_deleted (zs_parts z ! 0)" "pt_status (zs_parts z ! 0) = OPEN" "pt_izg_cnt (zs_parts z ! 0) = izg" "zs_mem z = mem"
    "length (pt_io_queue (zs_parts z ! 0)) = length fs" "\<forall>r \<in> set (pt_io_queue (zs_parts z ! 0)). stripe_req 0 izg z r"
    "\<forall>xs \<in> set xss. xs = []"
    "named (foldl abs_write xss (pt_io_queue (zs_parts z ! 0))) (pt_userdata_map (zs_parts z ! 0)) nm = stripes_of nm fs"
  using assms by (auto simp: batch_def Let_def)

lemma stripe_req_flushed: "stripe_req i izg z r \<Longrightarrow> stripe_req i izg (flushed pm nm b j z) r"
  by (auto simp: stripe_req_def flushed_def Let_def set_part_def nth_append split: option.split)

lemma named_write:
  assumes "m nm = Some u" and "u < length yss" and inj: "inj_on m (dom m)"
  shows "named (abs_write yss (new_IO_request_write WRITE b k u)) m nm' = named yss m nm' @ (if nm = nm' then [b] else [])"
proof (cases "m nm'")
  case (Some v)
  have "v = u \<longleftrightarrow> nm = nm'" using assms(1) Some inj_onD [OF inj, of nm nm'] by auto
  then show ?thesis using Some assms(2) by (auto simp: named_def abs_write_def new_IO_request_write_def)
qed (use assms in \<open>auto simp: named_def\<close>)

lemma named_new:
  assumes "m nm = None" and "\<forall>r \<in> set rs. ir_data r < length xss" and "\<And>v. m k = Some v \<Longrightarrow> v < length xss"
  shows "named (foldl abs_write (xss @ [[]]) rs) (m(nm \<mapsto> length xss)) k = named (foldl abs_write xss rs) m k"
  using assms by (cases "k = nm"; cases "m k") (auto simp: named_def foldl_abs_write_snoc nth_append)

lemma batch_flush:
  assumes B: "batch pm media hwp zsz nz uid izg mem xss fs z" and b: "length b = izg * IO_SIZE"
  shows "\<exists>z' xss'. z_flush pm uid 1 nm b (length b) fl z = Inr (0, z') \<and> batch pm media hwp zsz nz uid izg mem xss' (fs @ [(nm, b)]) z'"
proof -
  note B' = batchD(1-11) [OF B]
  let ?p = "zs_parts z ! 0"
  have i: "0 < length (zs_parts z)" using B'(4) by simp
  note reg = lib_okD(3) [OF B'(2) i]
  define z' where "z' = flushed pm nm b 0 z"
  define u where "u = (case pt_userdata_map ?p nm of Some u \<Rightarrow> u | None \<Rightarrow> length (zs_users z))"
  define xss' where "xss' = (if pt_userdata_map ?p nm = None then xss @ [[]] else xss)"
  have few: "length (zs_parts z) < 2 ^ 32 - 1" using B'(4) by simp
  have run: "z_flush pm uid 1 nm b (length b) fl z = Inr (0, z')"
    using z_flush_eq [OF B'(2) few, of uid "[0]" 0 "length b" b pm nm fl] B' by (simp add: z'_def)
  have S: "sys_ok pm media hwp zsz nz 0 z' xss'" using flushed_sys [OF B'(1) i, of nm b] by (simp add: z'_def xss'_def)
  have ok: "lib_ok z'" using flushed_lib [OF B'(2) i] by (simp add: z'_def)
  have p': "zs_parts z' ! 0 = ?p\<lparr>pt_userdata_map := (pt_userdata_map ?p)(nm \<mapsto> u),
      pt_io_queue := pt_io_queue ?p @ [new_IO_request_write WRITE b (length b) u]\<rparr>"
    "length (zs_parts z') = 1" "zs_user_map z' = zs_user_map z" "zs_mem z' = zs_mem z"
    using i B'(4) by (cases "pt_userdata_map ?p nm"; simp add: z'_def u_def flushed_def set_part_def Let_def map_upd_triv)+
  have i': "0 < length (zs_parts z')" using p'(2) by simp
  have u: "u < length (zs_users z')" "\<exists>d. zs_users z' ! u = Some d \<and> ud_partition d = 0"
    using part_regD(6) [OF lib_okD(3) [OF ok i'], of nm u] p'(1) by (auto simp: live_def owners_def)
  have new: "stripe_req 0 izg z' (new_IO_request_write WRITE b (length b) u)"
    using u b by (simp add: stripe_req_def new_IO_request_write_def)
  have reqs: "\<forall>r \<in> set (pt_io_queue (zs_parts z' ! 0)). stripe_req 0 izg z' r"
    using new B'(10) stripe_req_flushed [of 0 izg z _ pm nm b 0] p'(1) by (auto simp: z'_def)
  have live: "\<forall>r \<in> set (pt_io_queue ?p). ir_data r < length xss" using B'(10) sys_okD(5) [OF B'(1)] by (auto simp: stripe_req_def)
  have ux: "u < length xss'" using u(1) sys_okD(5) [OF S] by simp
  have old: "named (foldl abs_write xss' (pt_io_queue ?p)) ((pt_userdata_map ?p)(nm \<mapsto> u)) k = stripes_of k fs" for k
  proof (cases "pt_userdata_map ?p nm")
    case None
    have "v < length xss" if "pt_userdata_map ?p k = Some v" for v
      using part_regD(6) [OF reg that] sys_okD(5) [OF B'(1)] by (simp add: live_def owners_def)
    from named_new [where m = "pt_userdata_map ?p" and nm = nm and k = k, OF None live this] show ?thesis
      using batchD(12) [OF B, of k] None sys_okD(5) [OF B'(1)] by (simp add: xss'_def u_def)
  next
    case (Some v)
    then have "(pt_userdata_map ?p)(nm \<mapsto> u) = pt_userdata_map ?p" by (simp add: u_def map_upd_triv)
    then show ?thesis using batchD(12) [OF B, of k] Some by (simp add: xss'_def)
  qed
  have inj: "inj_on ((pt_userdata_map ?p)(nm \<mapsto> u)) (dom ((pt_userdata_map ?p)(nm \<mapsto> u)))"
    using part_regD(8) [OF lib_okD(3) [OF ok i']] p'(1) by simp
  have "named (foldl abs_write xss' (pt_io_queue (zs_parts z' ! 0))) (pt_userdata_map (zs_parts z' ! 0)) k = stripes_of k (fs @ [(nm, b)])" for k
    using named_write [OF _ _ inj, of nm u "foldl abs_write xss' (pt_io_queue ?p)" b "length b" k] ux old [of k] p'(1) by simp
  moreover have "\<forall>xs \<in> set xss'. xs = []" using B'(11) by (simp add: xss'_def)
  ultimately have "batch pm media hwp zsz nz uid izg mem xss' (fs @ [(nm, b)]) z'"
    using S ok p' reqs B' by (simp add: batch_def Let_def)
  with run show ?thesis by blast
qed

lemma batch_flushes:
  assumes "batch pm media hwp zsz nz uid izg mem xss gs z" "\<forall>(nm, b) \<in> set fs. length b = izg * IO_SIZE"
  shows "\<exists>z' xss'. z_flushes pm uid 1 fs z = Inr (replicate (length fs) 0, z') \<and> batch pm media hwp zsz nz uid izg mem xss' (gs @ fs) z'"
  using assms
proof (induction fs arbitrary: xss gs z)
  case (Cons f fs)
  obtain nm b where f: "f = (nm, b)" by (cases f)
  obtain z1 xss1 where 1: "z_flush pm uid 1 nm b (length b) Z_APPEND z = Inr (0, z1)" "batch pm media hwp zsz nz uid izg mem xss1 (gs @ [f]) z1"
    using batch_flush [OF Cons.prems(1), of b nm Z_APPEND] Cons.prems(2) f by auto
  from Cons.IH [OF 1(2)] Cons.prems(2) show ?case using 1(1) f by auto
qed auto

section \<open>Serving the batch and reading the objects\<close>

lemma batch_served:
  assumes B: "batch pm media hwp zsz nz uid izg mem xss fs z" and room: "length fs * izg \<le> nz" "length fs * (izg * IO_SIZE) < 2 ^ 32"
    and n: "length fs \<le> rounds"
  shows "\<exists>z' k' yss. worker_main pm 0 rounds z = Inr (False, z') \<and> sys_ok pm media hwp zsz nz k' z' yss \<and> lib_ok z'
     \<and> zs_user_map z' = [uid \<mapsto> [0]] \<and> length (zs_parts z') = 1 \<and> \<not> pt_deleted (zs_parts z' ! 0) \<and> pt_status (zs_parts z' ! 0) = OPEN
     \<and> pt_izg_cnt (zs_parts z' ! 0) = izg \<and> zs_mem z' = mem \<and> pt_io_queue (zs_parts z' ! 0) = []
     \<and> (\<forall>nm. named yss (pt_userdata_map (zs_parts z' ! 0)) nm = stripes_of nm fs)"
proof -
  note B' = batchD(1-11) [OF B]
  let ?p = "zs_parts z ! 0" and ?rs = "pt_io_queue (zs_parts z ! 0)"
  have i: "0 < length (zs_parts z)" using B'(4) by simp
  have empty: "xss ! ir_data r = []" if "r \<in> set ?rs" for r
  proof -
    have "ir_data r < length xss" using that B'(10) sys_okD(5) [OF B'(1)] by (auto simp: stripe_req_def)
    then show ?thesis using B'(11) by simp
  qed
  have "\<exists>z' k' p'. worker_main pm 0 rounds z = Inr (False, z') \<and> sys_ok pm media hwp zsz nz k' z' (foldl abs_write xss ?rs)
     \<and> zs_parts z' = (zs_parts z)[0 := p'] \<and> pt_io_queue p' = [] \<and> \<not> pt_deleted p' \<and> pt_status p' = OPEN
     \<and> pt_izg_cnt p' = pt_izg_cnt ?p \<and> zs_mem z' = zs_mem z \<and> k' \<le> 0 + length ?rs * pt_izg_cnt ?p
     \<and> (\<forall>r'. stripe_req 0 (pt_izg_cnt ?p) z r' \<longrightarrow> stripe_req 0 (pt_izg_cnt ?p) z' r')"
    by (rule worker_main_serves [OF B'(1) i refl refl B'(5,6)]) (use B' room n empty in auto)
  then obtain z' k' p' where w: "worker_main pm 0 rounds z = Inr (False, z')" "sys_ok pm media hwp zsz nz k' z' (foldl abs_write xss ?rs)"
    "zs_parts z' = (zs_parts z)[0 := p']" "pt_io_queue p' = []" "\<not> pt_deleted p'" "pt_status p' = OPEN" "pt_izg_cnt p' = izg" "zs_mem z' = mem"
    using B'(7,8) by blast
  have p': "zs_parts z' ! 0 = p'" "length (zs_parts z') = 1" using w(3) B'(4) by simp_all
  note m = worker_main_lib [OF w(1) B'(2) i]
  have "named (foldl abs_write xss ?rs) (pt_userdata_map (zs_parts z' ! 0)) nm = stripes_of nm fs" for nm
    using m batchD(12) [OF B] by simp
  then show ?thesis using w p' m B'(3)
    by (intro exI [of _ z'] exI [of _ k'] exI [of _ "foldl abs_write xss ?rs"]) simp
qed

lemma named_load:
  assumes S: "sys_ok pm media hwp zsz nz k z yss" and ok: "lib_ok z" and um: "zs_user_map z = [uid \<mapsto> [0]]" "length (zs_parts z) = 1"
    and p: "\<not> pt_deleted (zs_parts z ! 0)" "pt_status (zs_parts z ! 0) = OPEN" "pt_izg_cnt (zs_parts z ! 0) = izg"
    and obj: "named yss (pt_userdata_map (zs_parts z ! 0)) nm = ss"
    and n: "0 < n" "n \<le> izg * IO_SIZE" "off + n \<le> length (concat ss)" and fit: "buf + izg * IO_SIZE \<le> length (zs_mem z)"
  shows "\<exists>z'. z_load pm uid 1 nm buf off n z = Inr (0, z') \<and> take n (drop buf (zs_mem z')) = take n (drop off (concat ss))"
proof -
  obtain u where u: "pt_userdata_map (zs_parts z ! 0) nm = Some u" "yss ! u = ss" using obj n by (auto simp: named_def split: option.splits)
  have i: "0 < length (zs_parts z)" "length (zs_parts z) < 2 ^ 32 - 1" using um(2) by simp_all
  obtain d where d: "u < length (zs_users z)" "zs_users z ! u = Some d" "ud_partition d = 0"
    using part_regD(6) [OF lib_okD(3) [OF ok i(1)] u(1)] by (auto simp: live_def owners_def)
  have "stored (media (c_dev (wd_c (zs_world z)))) (nz * zsz) (wd_iv (zs_world z)) izg ss (ud_file_segment d)"
    using sys_okD(7) [OF S d(1,2)] d(3) p(3) u(2) by (simp add: holds_def)
  note st = storedD [OF this]
  have len: "length (concat ss) = length ss * (izg * IO_SIZE)"
    by (rule length_concat_even) (use st(6) in \<open>auto simp: in_set_conv_nth\<close>)
  from user_read_ok [OF S d(1,2) refl, of n off buf] d(3) p(3) n fit len u(2) obtain rb ys where
    r: "user_read pm u buf off n z = Inr (set_part 0 ((zs_parts z ! 0)\<lparr>pt_read_buf := rb\<rparr>) (z\<lparr>zs_mem := patch (zs_mem z) buf ys\<rparr>))"
      "length ys \<le> izg * IO_SIZE" "n \<le> length ys" "take n ys = take n (drop off (concat ss))" by auto
  let ?z = "set_part 0 ((zs_parts z ! 0)\<lparr>pt_read_buf := rb\<rparr>) (z\<lparr>zs_mem := patch (zs_mem z) buf ys\<rparr>)"
  have "z_load pm uid 1 nm buf off n z = Inr (0, ?z)"
    using z_load_eq [OF ok i(2), of uid "[0]" 0 nm u pm buf off n] um(1) p u(1) r(1) by simp
  moreover have "take n (drop buf (patch (zs_mem z) buf ys)) = take n ys" using r(2,3) fit by (intro patch_at) simp_all
  ultimately show ?thesis using r(4) by (intro exI [of _ ?z]) (simp add: set_part_def)
qed

text \<open>
  C10: what is flushed through the calls of the library can be loaded. On a started library with
  one open partition of \<open>izg\<close> IZGs, any list of flushes of one stripe each (\<open>izg\<close> times 192 KiB), under
  any names in any order, succeeds while there are zones for them and they are less than 4 GiB;
  once the worker has served them, a load of up to one stripe at any offset of an object returns the
  bytes of the stripes flushed under its name, one after the other. (A single flush of several
  stripes is not covered: the offset of a later read of it is ignored by \<^verbatim>\<open>izg_read\<close>.)
\<close>

theorem flush_then_load:
  assumes "start_ok pm media hwp zsz nz d" and "0 < izg" and "izg \<le> 32" and "izg * zsz < 2 ^ 31"
    and "\<forall>(m, b) \<in> set fs. length b = izg * IO_SIZE" and "length fs * izg \<le> nz" and "length fs * (izg * IO_SIZE) < 2 ^ 32"
    and "length fs \<le> rounds"
    and "0 < n" and "n \<le> izg * IO_SIZE" and "off + n \<le> length (concat (stripes_of nm fs))" and "buf + izg * IO_SIZE \<le> length mem"
  shows "\<exists>z0 z1 z2 z3 z4 z5. zoad_init pm mem d = Inr z0 \<and> z_mklp pm uid dev lp QOS_PARTITION izg z0 = Inr (1, z1)
     \<and> z_openlp uid lp fl z1 = Inr (1, z2) \<and> z_flushes pm uid 1 fs z2 = Inr (replicate (length fs) 0, z3)
     \<and> worker_main pm 0 rounds z3 = Inr (False, z4) \<and> z_load pm uid 1 nm buf off n z4 = Inr (0, z5)
     \<and> take n (drop buf (zs_mem z5)) = take n (drop off (concat (stripes_of nm fs)))"
proof -
  have sz: "izg * zsz < 2147483648" using assms(4) by simp
  from setup_ok [OF assms(1-3) sz, of mem uid dev lp fl] obtain z0 z1 z where
    s: "zoad_init pm mem d = Inr z0" "z_mklp pm uid dev lp QOS_PARTITION izg z0 = Inr (1, z1)" "z_openlp uid lp fl z1 = Inr (1, z)"
    and S: "sys_ok pm media hwp zsz nz 0 z []" "reachable pm z" and p: "zs_parts z = [opened pm lp izg fl]" "zs_user_map z = [uid \<mapsto> [0]]"
      "zs_mem z = mem" by blast
  have "batch pm media hwp zsz nz uid izg mem [] [] z"
    using S p reachable_lib [OF S(2)] by (simp add: batch_def opened_def new_Partition_def named_def)
  from batch_flushes [OF this assms(5)] obtain z3 xss where
    f: "z_flushes pm uid 1 fs z = Inr (replicate (length fs) 0, z3)" "batch pm media hwp zsz nz uid izg mem xss fs z3" by auto
  from batch_served [OF f(2) assms(6-8)] obtain z4 k yss where
    w: "worker_main pm 0 rounds z3 = Inr (False, z4)" "sys_ok pm media hwp zsz nz k z4 yss" "lib_ok z4" "zs_user_map z4 = [uid \<mapsto> [0]]"
      "length (zs_parts z4) = 1" "\<not> pt_deleted (zs_parts z4 ! 0)" "pt_status (zs_parts z4 ! 0) = OPEN" "pt_izg_cnt (zs_parts z4 ! 0) = izg"
      "zs_mem z4 = mem" "named yss (pt_userdata_map (zs_parts z4 ! 0)) nm = stripes_of nm fs" by blast
  from named_load [OF w(2-8,10) assms(9-11)] assms(12) w(9) obtain z5 where
    "z_load pm uid 1 nm buf off n z4 = Inr (0, z5)" "take n (drop buf (zs_mem z5)) = take n (drop off (concat (stripes_of nm fs)))" by auto
  with s f(1) w(1) show ?thesis by blast
qed

text \<open>Two objects, one of two stripes with the stripe of the other flushed in between.\<close>

theorem flush_then_load_witness:
  "\<exists>z0 z1 z2 z3 z4 z5. zoad_init emu_pm (replicate IO_SIZE 0) (emu_init (2 * IO_BLOCKS)) = Inr z0
     \<and> z_mklp emu_pm 7 ''dev'' ''lp'' QOS_PARTITION 1 z0 = Inr (1, z1) \<and> z_openlp 7 ''lp'' Z_ASYNC z1 = Inr (1, z2)
     \<and> z_flushes emu_pm 7 1 [(''f'', replicate IO_SIZE 3), (''g'', replicate IO_SIZE 4), (''f'', replicate IO_SIZE 5)] z2 = Inr ([0, 0, 0], z3)
     \<and> worker_main emu_pm 0 3 z3 = Inr (False, z4) \<and> z_load emu_pm 7 1 ''f'' 0 (IO_SIZE - 1) 2 z4 = Inr (0, z5)
     \<and> take 2 (zs_mem z5) = [3, 5]"
proof -
  let ?fs = "[(''f'', replicate IO_SIZE 3), (''g'', replicate IO_SIZE 4), (''f'', replicate IO_SIZE 5)] :: (string \<times> byte list) list"
  have io: "0 < IO_SIZE" "2 \<le> IO_SIZE" by (simp_all add: IO_SIZE_def)
  have o: "concat (stripes_of ''f'' ?fs) = replicate IO_SIZE 3 @ replicate IO_SIZE 5" by (simp add: stripes_of_def)
  have r: "replicate IO_SIZE x = replicate (IO_SIZE - 1) x @ [x]" "replicate IO_SIZE x = x # replicate (IO_SIZE - 1) x" for x :: byte
    using io(1) by (simp_all add: replicate_append_same flip: replicate_Suc)
  have d: "take 2 (drop (IO_SIZE - 1) (replicate IO_SIZE 3 @ replicate IO_SIZE (5 :: byte))) = [3, 5]"
    unfolding r(1) [of 3] r(2) [of 5] by (simp add: numeral_2_eq_2)
  have "\<exists>z0 z1 z2 z3 z4 z5. zoad_init emu_pm (replicate IO_SIZE 0) (emu_init (2 * IO_BLOCKS)) = Inr z0
     \<and> z_mklp emu_pm 7 ''dev'' ''lp'' QOS_PARTITION 1 z0 = Inr (1, z1) \<and> z_openlp 7 ''lp'' Z_ASYNC z1 = Inr (1, z2)
     \<and> z_flushes emu_pm 7 1 ?fs z2 = Inr (replicate (length ?fs) 0, z3)
     \<and> worker_main emu_pm 0 3 z3 = Inr (False, z4) \<and> z_load emu_pm 7 1 ''f'' 0 (IO_SIZE - 1) 2 z4 = Inr (0, z5)
     \<and> take 2 (drop 0 (zs_mem z5)) = take 2 (drop (IO_SIZE - 1) (concat (stripes_of ''f'' ?fs)))"
    using io by (intro flush_then_load [OF emu_start]) (simp_all add: o, simp_all add: IO_SIZE_def IO_BLOCKS_def)
  moreover have "replicate (length ?fs) 0 = [0, 0, 0 :: int]" by (simp add: numeral_3_eq_3)
  ultimately show ?thesis unfolding o d by simp
qed

end
