(* ===== verification/Coding.thy ===== *)
theory Coding
  imports Zoad_Prelude
begin

unbundle bit_operations_syntax

text \<open>
  The encodings of \<^verbatim>\<open>src/util/coding.h\<close>, \<^verbatim>\<open>coding_lean.h\<close> and \<^verbatim>\<open>coding.cc\<close>: numbers of
  fixed width, numbers of variable length (\<^verbatim>\<open>varint\<close>), signed numbers in zigzag form and
  strings with their length in front; and the mask of checksums of \<^verbatim>\<open>crc32c.h\<close>. A pointer
  with its limit and a \<^verbatim>\<open>Slice\<close> are the bytes they span; a routine that returns the null
  pointer or \<^verbatim>\<open>false\<close> returns \<open>None\<close>.
\<close>

section \<open>Numbers of fixed width\<close>

text \<open>
  The bytes are the same on a little-endian machine, where the code copies the number, and on a
  big-endian one, where it shifts.
\<close>

definition EncodeFixed16 :: "16 word \<Rightarrow> byte list" where
  "EncodeFixed16 v = [ucast (v AND 0xff), ucast (drop_bit 8 v AND 0xff)]"

definition EncodeFixed32 :: "32 word \<Rightarrow> byte list" where
  "EncodeFixed32 v = [ucast (v AND 0xff), ucast (drop_bit 8 v AND 0xff), ucast (drop_bit 16 v AND 0xff),
     ucast (drop_bit 24 v AND 0xff)]"

definition EncodeFixed64 :: "64 word \<Rightarrow> byte list" where
  "EncodeFixed64 v = [ucast (v AND 0xff), ucast (drop_bit 8 v AND 0xff), ucast (drop_bit 16 v AND 0xff),
     ucast (drop_bit 24 v AND 0xff), ucast (drop_bit 32 v AND 0xff), ucast (drop_bit 40 v AND 0xff),
     ucast (drop_bit 48 v AND 0xff), ucast (drop_bit 56 v AND 0xff)]"

text \<open>The decoders read at a position without a check; a read past the end is a fault.\<close>

definition DecodeFixed16 :: "byte list \<Rightarrow> nat \<Rightarrow> (16 word) res" where
  "DecodeFixed16 xs p = ebind (mem_read xs p 2) (\<lambda>b. Inr (ucast (b ! 0) OR push_bit 8 (ucast (b ! 1))))"

definition join32 :: "byte \<Rightarrow> byte \<Rightarrow> byte \<Rightarrow> byte \<Rightarrow> 32 word" where
  "join32 a b c d = ucast a OR push_bit 8 (ucast b) OR push_bit 16 (ucast c) OR push_bit 24 (ucast d)"

definition DecodeFixed32 :: "byte list \<Rightarrow> nat \<Rightarrow> (32 word) res" where
  "DecodeFixed32 xs p =
     ebind (mem_read xs p 4) (\<lambda>b. Inr (join32 (b ! 0) (b ! 1) (b ! 2) (b ! 3)))"

definition DecodeFixed64 :: "byte list \<Rightarrow> nat \<Rightarrow> (64 word) res" where
  "DecodeFixed64 xs p =
     ebind (DecodeFixed32 xs p) (\<lambda>lo.
     ebind (DecodeFixed32 xs (p + 4)) (\<lambda>hi.
       Inr (push_bit 32 (ucast hi) OR ucast lo)))"

definition PutFixed16 :: "byte list \<Rightarrow> 16 word \<Rightarrow> byte list" where
  "PutFixed16 dst value = dst @ EncodeFixed16 value"

definition PutFixed32 :: "byte list \<Rightarrow> 32 word \<Rightarrow> byte list" where
  "PutFixed32 dst value = dst @ EncodeFixed32 value"

definition PutFixed64 :: "byte list \<Rightarrow> 64 word \<Rightarrow> byte list" where
  "PutFixed64 dst value = dst @ EncodeFixed64 value"

definition GetFixed16 :: "byte list \<Rightarrow> (16 word \<times> byte list) option res" where
  "GetFixed16 input =
     (if length input < 2 then Inr None
      else ebind (DecodeFixed16 input 0) (\<lambda>value. Inr (Some (value, drop 2 input))))"

definition GetFixed32 :: "byte list \<Rightarrow> (32 word \<times> byte list) option res" where
  "GetFixed32 input =
     (if length input < 4 then Inr None
      else ebind (DecodeFixed32 input 0) (\<lambda>value. Inr (Some (value, drop 4 input))))"

definition GetFixed64 :: "byte list \<Rightarrow> (64 word \<times> byte list) option res" where
  "GetFixed64 input =
     (if length input < 8 then Inr None
      else ebind (DecodeFixed64 input 0) (\<lambda>value. Inr (Some (value, drop 8 input))))"

section \<open>Numbers of variable length\<close>

definition EncodeVarint32 :: "32 word \<Rightarrow> byte list" where
  "EncodeVarint32 v =
     (if v < 2 ^ 7 then [ucast v]
      else if v < 2 ^ 14 then [ucast (v OR 128), ucast (drop_bit 7 v)]
      else if v < 2 ^ 21 then [ucast (v OR 128), ucast (drop_bit 7 v OR 128), ucast (drop_bit 14 v)]
      else if v < 2 ^ 28 then
        [ucast (v OR 128), ucast (drop_bit 7 v OR 128), ucast (drop_bit 14 v OR 128), ucast (drop_bit 21 v)]
      else
        [ucast (v OR 128), ucast (drop_bit 7 v OR 128), ucast (drop_bit 14 v OR 128), ucast (drop_bit 21 v OR 128),
         ucast (drop_bit 28 v)])"

lemma unat_drop_7: "\<not> v < 128 \<Longrightarrow> unat (drop_bit 7 v) < unat (v :: 64 word)"
  by (simp add: unat_drop_bit_eq drop_bit_eq_div word_less_nat_alt unat_div div_less_dividend)

function EncodeVarint64 :: "64 word \<Rightarrow> byte list" where
  "EncodeVarint64 v = (if 128 \<le> v then ucast ((v AND 127) OR 128) # EncodeVarint64 (drop_bit 7 v) else [ucast v])"
  by pat_completeness auto
termination
  by (relation "measure unat") (auto simp: unat_drop_7 not_less)

declare EncodeVarint64.simps [simp del]

function VarintLength :: "64 word \<Rightarrow> nat" where
  "VarintLength v = (if 128 \<le> v then VarintLength (drop_bit 7 v) + 1 else 1)"
  by pat_completeness auto
termination
  by (relation "measure unat") (auto simp: unat_drop_7 not_less)

declare VarintLength.simps [simp del]

text \<open>
  The loop both decoders have, from shift \<open>shift\<close> up to \<open>lim\<close>. Shifts beyond the width of the
  number drop bits, as they do in the code.
\<close>

fun varint_loop :: "nat \<Rightarrow> nat \<Rightarrow> 'a::len word \<Rightarrow> byte list \<Rightarrow> ('a word \<times> byte list) option" where
  "varint_loop lim shift result [] = None"
| "varint_loop lim shift result (b # p) =
     (if lim < shift then None
      else if b AND 128 \<noteq> 0 then varint_loop lim (shift + 7) (result OR push_bit shift (ucast b AND 127)) p
      else Some (result OR push_bit shift (ucast b), p))"

definition GetVarint32PtrFallback :: "byte list \<Rightarrow> (32 word \<times> byte list) option" where
  "GetVarint32PtrFallback p = varint_loop 28 0 0 p"

definition GetVarint64Ptr :: "byte list \<Rightarrow> (64 word \<times> byte list) option" where
  "GetVarint64Ptr p = varint_loop 63 0 0 p"

definition GetVarint32Ptr :: "byte list \<Rightarrow> (32 word \<times> byte list) option" where
  "GetVarint32Ptr p =
     (case p of
        [] \<Rightarrow> GetVarint32PtrFallback p
      | b # q \<Rightarrow> if (ucast b :: 32 word) AND 128 = 0 then Some (ucast b, q) else GetVarint32PtrFallback p)"

definition PutVarint32 :: "byte list \<Rightarrow> 32 word \<Rightarrow> byte list" where
  "PutVarint32 dst v = dst @ EncodeVarint32 v"

definition PutVarint32Varint32 :: "byte list \<Rightarrow> 32 word \<Rightarrow> 32 word \<Rightarrow> byte list" where
  "PutVarint32Varint32 dst v1 v2 = dst @ EncodeVarint32 v1 @ EncodeVarint32 v2"

definition PutVarint32Varint32Varint32 :: "byte list \<Rightarrow> 32 word \<Rightarrow> 32 word \<Rightarrow> 32 word \<Rightarrow> byte list" where
  "PutVarint32Varint32Varint32 dst v1 v2 v3 = dst @ EncodeVarint32 v1 @ EncodeVarint32 v2 @ EncodeVarint32 v3"

definition PutVarint64 :: "byte list \<Rightarrow> 64 word \<Rightarrow> byte list" where
  "PutVarint64 dst v = dst @ EncodeVarint64 v"

definition PutVarint64Varint64 :: "byte list \<Rightarrow> 64 word \<Rightarrow> 64 word \<Rightarrow> byte list" where
  "PutVarint64Varint64 dst v1 v2 = dst @ EncodeVarint64 v1 @ EncodeVarint64 v2"

definition PutVarint32Varint64 :: "byte list \<Rightarrow> 32 word \<Rightarrow> 64 word \<Rightarrow> byte list" where
  "PutVarint32Varint64 dst v1 v2 = dst @ EncodeVarint32 v1 @ EncodeVarint64 v2"

definition PutVarint32Varint32Varint64 :: "byte list \<Rightarrow> 32 word \<Rightarrow> 32 word \<Rightarrow> 64 word \<Rightarrow> byte list" where
  "PutVarint32Varint32Varint64 dst v1 v2 v3 = dst @ EncodeVarint32 v1 @ EncodeVarint32 v2 @ EncodeVarint64 v3"

definition GetVarint32 :: "byte list \<Rightarrow> (32 word \<times> byte list) option" where
  "GetVarint32 input = GetVarint32Ptr input"

definition GetVarint64 :: "byte list \<Rightarrow> (64 word \<times> byte list) option" where
  "GetVarint64 input = GetVarint64Ptr input"

section \<open>Signed numbers\<close>

text \<open>A signed number is its two's complement; \<open>signed_drop_bit\<close> is the shift that keeps the sign.\<close>

definition i64ToZigzag :: "64 word \<Rightarrow> 64 word" where
  "i64ToZigzag l = push_bit 1 l XOR signed_drop_bit 63 l"

definition zigzagToI64 :: "64 word \<Rightarrow> 64 word" where
  "zigzagToI64 n = drop_bit 1 n XOR - (n AND 1)"

definition PutVarsignedint64 :: "byte list \<Rightarrow> 64 word \<Rightarrow> byte list" where
  "PutVarsignedint64 dst v = dst @ EncodeVarint64 (i64ToZigzag v)"

definition GetVarsignedint64Ptr :: "byte list \<Rightarrow> (64 word \<times> byte list) option" where
  "GetVarsignedint64Ptr p = (case GetVarint64Ptr p of None \<Rightarrow> None | Some (u, q) \<Rightarrow> Some (zigzagToI64 u, q))"

definition GetVarsignedint64 :: "byte list \<Rightarrow> (64 word \<times> byte list) option" where
  "GetVarsignedint64 input = GetVarsignedint64Ptr input"

section \<open>Strings with their length\<close>

definition PutLengthPrefixedSlice :: "byte list \<Rightarrow> byte list \<Rightarrow> byte list" where
  "PutLengthPrefixedSlice dst value = PutVarint32 dst (of_nat (length value)) @ value"

definition PutLengthPrefixedSliceParts :: "byte list \<Rightarrow> nat \<Rightarrow> byte list list \<Rightarrow> byte list" where
  "PutLengthPrefixedSliceParts dst total_bytes parts =
     PutVarint32 dst (of_nat (total_bytes + sum_list (map length parts))) @ concat parts"

definition PutLengthPrefixedSlicePartsWithPadding :: "byte list \<Rightarrow> byte list list \<Rightarrow> nat \<Rightarrow> byte list" where
  "PutLengthPrefixedSlicePartsWithPadding dst parts pad_sz =
     PutLengthPrefixedSliceParts dst pad_sz parts @ replicate pad_sz 0"

text \<open>When the string is cut off the length has been taken from the input all the same.\<close>

definition GetLengthPrefixedSlice :: "byte list \<Rightarrow> byte list option \<times> byte list" where
  "GetLengthPrefixedSlice input =
     (case GetVarint32 input of
        None \<Rightarrow> (None, input)
      | Some (len, input) \<Rightarrow>
          if unat len \<le> length input then (Some (take (unat len) input), drop (unat len) input) else (None, input))"

section \<open>Checksums\<close>

definition kMaskDelta :: "32 word" where
  "kMaskDelta = 0xa282ead8"

definition Mask :: "32 word \<Rightarrow> 32 word" where
  "Mask crc = (drop_bit 15 crc OR push_bit 17 crc) + kMaskDelta"

definition Unmask :: "32 word \<Rightarrow> 32 word" where
  "Unmask masked_crc = (let rot = masked_crc - kMaskDelta in drop_bit 17 rot OR push_bit 15 rot)"

section \<open>Round trips of fixed width\<close>

lemma byte_of: "(ucast (x AND 255 :: 'a::len word) :: byte) = ucast x"
proof -
  have m: "(255 :: 'a word) = mask 8" by (simp add: mask_eq_exp_minus_1)
  show ?thesis unfolding m by (intro bit_word_eqI) (auto simp: bit_simps dest: bit_imp_le_length)
qed

lemma byte_bits: "n < 32 \<Longrightarrow> \<exists>m < 8. n = m \<or> n = m + 8 \<or> n = m + 16 \<or> n = m + 24" for n :: nat
  by presburger

lemma bit_join32: "m < 8 \<Longrightarrow> bit (join32 a b c d) m = bit a m"
  "m < 8 \<Longrightarrow> bit (join32 a b c d) (m + 8) = bit b m"
  "m < 8 \<Longrightarrow> bit (join32 a b c d) (m + 16) = bit c m"
  "m < 8 \<Longrightarrow> bit (join32 a b c d) (m + 24) = bit d m"
  by (auto simp: join32_def bit_or_iff bit_push_bit_iff bit_ucast_iff dest: bit_imp_le_length)
lemma join32_parts: "join32 (ucast v) (ucast (drop_bit 8 v)) (ucast (drop_bit 16 v)) (ucast (drop_bit 24 v)) = v"
proof (rule bit_word_eqI)
  fix n assume "n < LENGTH(32)"
  then obtain m where m: "m < 8" "n = m \<or> n = m + 8 \<or> n = m + 16 \<or> n = m + 24" using byte_bits [of n] by auto
  then show "bit (join32 (ucast v) (ucast (drop_bit 8 v)) (ucast (drop_bit 16 v)) (ucast (drop_bit 24 v))) n = bit v n"
    by (elim disjE) (simp_all only: bit_join32 bit_ucast_iff bit_drop_bit_eq o_def add.commute, simp_all add: m)
qed

lemma decode32_at:
  assumes "take 4 (drop p xs) = EncodeFixed32 v"
  shows "DecodeFixed32 xs p = Inr v"
proof -
  have "length (EncodeFixed32 v) = 4" by (simp add: EncodeFixed32_def)
  then have "p + 4 \<le> length xs" using arg_cong [OF assms, of length] by simp
  then have "mem_read xs p 4 = Inr (EncodeFixed32 v)" using assms by (auto simp: mem_read_def)
  then show ?thesis by (simp add: DecodeFixed32_def EncodeFixed32_def byte_of join32_parts)
qed

lemma fixed16_parts: "ucast (ucast v :: byte) OR push_bit 8 (ucast (ucast (drop_bit 8 v) :: byte)) = (v :: 16 word)"
proof (rule bit_word_eqI)
  fix n assume "n < LENGTH(16)"
  then obtain m where "m < 8" "n = m \<or> n = m + 8" using byte_bits [of n] by auto
  then show "bit (ucast (ucast v :: byte) OR push_bit 8 (ucast (ucast (drop_bit 8 v) :: byte)) :: 16 word) n = bit v n"
    by (elim disjE) (simp_all add: bit_or_iff bit_push_bit_iff bit_ucast_iff bit_drop_bit_eq add.commute)
qed

lemma fixed64_parts: "push_bit 32 (ucast (ucast (drop_bit 32 v) :: 32 word)) OR ucast (ucast v :: 32 word) = (v :: 64 word)"
  by (rule bit_word_eqI) (auto simp: bit_or_iff bit_push_bit_iff bit_ucast_iff bit_drop_bit_eq)

lemma EncodeFixed64_split: "EncodeFixed64 v = EncodeFixed32 (ucast v) @ EncodeFixed32 (ucast (drop_bit 32 v))"
  by (simp add: EncodeFixed64_def EncodeFixed32_def byte_of) (auto intro!: bit_word_eqI simp: bit_ucast_iff bit_drop_bit_eq)

lemma get_put_fixed:
  "GetFixed16 (PutFixed16 [] v16 @ ys) = Inr (Some (v16, ys))"
  "GetFixed32 (PutFixed32 [] v32 @ ys) = Inr (Some (v32, ys))"
  "GetFixed64 (PutFixed64 [] v64 @ ys) = Inr (Some (v64, ys))"
proof -
  show "GetFixed16 (PutFixed16 [] v16 @ ys) = Inr (Some (v16, ys))"
    by (simp add: GetFixed16_def PutFixed16_def EncodeFixed16_def DecodeFixed16_def mem_read_def byte_of fixed16_parts)
  show "GetFixed32 (PutFixed32 [] v32 @ ys) = Inr (Some (v32, ys))"
    using decode32_at [of 0 "EncodeFixed32 v32 @ ys" v32]
    by (simp add: GetFixed32_def PutFixed32_def) (simp add: EncodeFixed32_def)
  have "DecodeFixed32 (EncodeFixed64 v64 @ ys) 0 = Inr (ucast v64)" "DecodeFixed32 (EncodeFixed64 v64 @ ys) 4 = Inr (ucast (drop_bit 32 v64))"
    unfolding EncodeFixed64_split by (auto intro!: decode32_at simp: EncodeFixed32_def)
  then show "GetFixed64 (PutFixed64 [] v64 @ ys) = Inr (Some (v64, ys))"
    by (simp add: GetFixed64_def PutFixed64_def DecodeFixed64_def fixed64_parts) (simp add: EncodeFixed64_def)
qed

section \<open>Variable length: a reference encoding on numbers\<close>

text \<open>Seven bits per byte, least significant first; the top bit says that more follow.\<close>

fun enc7 :: "nat \<Rightarrow> byte list" where
  "enc7 n = (if n < 128 then [of_nat n] else of_nat (n mod 128 + 128) # enc7 (n div 128))"

declare enc7.simps [simp del]

lemma byte_more: "(b :: byte) AND 128 = 0 \<longleftrightarrow> unat b < 128"
proof -
  have "(128 :: byte) = 2 ^ 7" by simp
  then have "b AND 128 = 0 \<longleftrightarrow> \<not> bit b 7" by (simp only: and_exp_eq_0_iff_not_bit)
  also have "bit b 7 \<longleftrightarrow> bit (unat b) 7" by (simp add: bit_unsigned_iff)
  also have "\<dots> \<longleftrightarrow> odd (unat b div 128)" by (simp add: bit_iff_odd)
  also have "\<dots> \<longleftrightarrow> 128 \<le> unat b"
  proof -
    have "unat b div 128 < 2" using unsigned_less [of b] by (simp add: div_less_iff_less_mult)
    then show ?thesis by (auto simp: less_2_cases_iff)
  qed
  finally show ?thesis by linarith
qed

lemma unat_low7:
  assumes "8 \<le> LENGTH('a::len)"
  shows "unat (ucast (b :: byte) AND (127 :: 'a word)) = unat b mod 128" "unat (ucast b :: 'a word) = unat b"
proof -
  have "unat b < 2 ^ 8" using unsigned_less [of b] by simp
  also have "(2 :: nat) ^ 8 \<le> 2 ^ LENGTH('a)" using assms by (intro power_increasing) simp_all
  finally show u: "unat (ucast b :: 'a word) = unat b" by (simp add: unsigned_ucast_eq take_bit_nat_eq_self)
  have "(127 :: 'a word) = mask 7" by (simp add: mask_eq_exp_minus_1)
  then have "ucast b AND (127 :: 'a word) = take_bit 7 (ucast b)" by (simp add: take_bit_eq_mask)
  then show "unat (ucast b AND (127 :: 'a word)) = unat b mod 128" 
    using arg_cong [OF u, of "take_bit 7"] by (simp only: flip: unsigned_take_bit_eq) (simp only: take_bit_eq_mod, simp add: unat_mod)
qed

lemma or_push_nat: "a < 2 ^ s \<Longrightarrow> a OR push_bit s b = a + b * 2 ^ s" for a b :: nat
proof -
  assume "a < 2 ^ s"
  then have "take_bit s a = a" by (rule take_bit_nat_eq_self)
  then have "a AND push_bit s b = 0" by (metis (no_types, opaque_lifting) bit_and_iff bit_eqI bit_push_bit_iff_nat bit_take_bit_iff bit_0_eq bot_apply bot_bool_def leD)
  then show ?thesis by (simp add: disjunctive_add_eq_or [symmetric] push_bit_eq_mult)
qed

lemma unat_or_push:
  fixes r c :: "'a::len word"
  assumes r: "unat r < 2 ^ s" and f: "unat r + unat c * 2 ^ s < 2 ^ LENGTH('a)"
  shows "unat (r OR push_bit s c) = unat r + unat c * 2 ^ s"
proof -
  have "unat (push_bit s c) = unat c * 2 ^ s"
    using f trans [OF unsigned_push_bit_eq, of s c "unat c * 2 ^ s"] by (simp add: take_bit_nat_eq_self push_bit_nat_def)
  then have "unat (r OR push_bit s c) = unat r OR push_bit s (unat c)" by (simp add: unsigned_or_eq push_bit_eq_mult)
  also have "\<dots> = unat r + unat c * 2 ^ s" by (rule or_push_nat [OF r])
  finally show ?thesis .
qed

lemma unat_byte: "n < 256 \<Longrightarrow> unat (of_nat n :: byte) = n"
  by (simp add: unat_of_nat take_bit_nat_eq_self)

lemma varint_loop_enc7:
  fixes r :: "'a::len word"
  assumes w: "8 \<le> LENGTH('a)" and "unat r < 2 ^ s" "unat r + n * 2 ^ s < 2 ^ LENGTH('a)" "s + 7 * k = m" "n < 2 ^ (7 * k + 7)"
  shows "varint_loop m s r (enc7 n @ ys) = Some (of_nat (unat r + n * 2 ^ s), ys)"
  using assms(2-)
proof (induction n arbitrary: s r k rule: enc7.induct)
  case (1 n)
  show ?case
  proof (cases "n < 128")
    case True
    let ?b = "of_nat n :: byte"
    have b: "unat ?b = n" using True by (intro unat_byte) simp
    have e: "enc7 n = [?b]" using True by (subst enc7.simps) simp
    have u: "unat (r OR push_bit s (ucast ?b)) = unat r + n * 2 ^ s"
      using 1(2,3) b unat_low7(2) [OF w, of ?b] by (subst unat_or_push) simp_all
    have "r OR push_bit s (ucast ?b) = of_nat (unat r + n * 2 ^ s)" unfolding u [symmetric] by simp
    then show ?thesis using e b True 1(4) byte_more [of ?b] by simp
  next
    case False
    define b where "b = (of_nat (n mod 128 + 128) :: byte)"
    define r' where "r' = r OR push_bit s (ucast b AND 127)"
    have "n mod 128 < 128" by simp
    then have b: "unat b = n mod 128 + 128" unfolding b_def by (intro unat_byte) linarith
    have e: "enc7 n = b # enc7 (n div 128)" using False by (subst enc7.simps) (simp add: b_def)
    have n: "n = n mod 128 + n div 128 * 128" by simp
    have split: "unat r + n * 2 ^ s = unat r + n mod 128 * 2 ^ s + n div 128 * 2 ^ (s + 7)"
      using arg_cong [OF n, of "\<lambda>x. x * 2 ^ s"] by (simp only: algebra_simps power_add) simp
    have lo: "unat (ucast b AND (127 :: 'a word)) = n mod 128" using unat_low7(1) [OF w, of b] b by simp
    have u: "unat r' = unat r + n mod 128 * 2 ^ s"
      using 1(2,3) split lo unfolding r'_def by (subst unat_or_push) simp_all
    obtain j where k: "k = Suc j" using False 1(5) by (cases k) auto
    have "n mod 128 * 2 ^ s \<le> 127 * 2 ^ s" by (intro mult_le_mono1) (simp add: less_Suc_eq_le [symmetric])
    then have "unat r' < 128 * 2 ^ s" unfolding u using 1(2) by linarith
    then have "unat r' < 2 ^ (s + 7)" by (simp only: power_add) simp
    moreover have "unat r' + n div 128 * 2 ^ (s + 7) < 2 ^ LENGTH('a)" using 1(3) split u by simp
    moreover have "s + 7 + 7 * j = m" using 1(4) k by simp
    moreover have "n div 128 < 2 ^ (7 * j + 7)" using 1(5) k by (simp add: div_less_iff_less_mult power_add)
    ultimately have "varint_loop m (s + 7) r' (enc7 (n div 128) @ ys) = Some (of_nat (unat r' + n div 128 * 2 ^ (s + 7)), ys)"
      using 1(1) [OF False] by blast
    moreover have "varint_loop m s r (b # enc7 (n div 128) @ ys) = varint_loop m (s + 7) r' (enc7 (n div 128) @ ys)"
      using b 1(4) byte_more [of b] by (simp add: r'_def)
    ultimately show ?thesis unfolding e split u by simp
  qed
qed

lemma enc7_last: "n < 128 \<Longrightarrow> enc7 n = [of_nat n]"
  by (subst enc7.simps) simp

lemma enc7_more: "\<not> n < 128 \<Longrightarrow> enc7 n = of_nat (n mod 128 + 128) # enc7 (n div 128)"
  by (subst enc7.simps) simp

lemma take_or_128: "take_bit 8 (n OR 128) = n mod 128 + 128" for n :: nat
proof -
  have "take_bit 8 (n OR 128) = take_bit 7 n OR push_bit 7 1"
  proof (rule bit_eqI)
    fix m
    have "bit (128 :: nat) m \<longleftrightarrow> m = 7" using bit_exp_iff [where 'a = nat, of 7 m] by simp
    moreover have "bit (push_bit 7 (1 :: nat)) m \<longleftrightarrow> m = 7" using bit_exp_iff [where 'a = nat, of 7 m] by simp
    ultimately show "bit (take_bit 8 (n OR 128)) m = bit (take_bit 7 n OR push_bit 7 1) m"
      by (auto simp: bit_take_bit_iff bit_or_iff simp del: push_bit_of_1)
  qed
  also have "\<dots> = take_bit 7 n + 1 * 2 ^ 7" by (rule or_push_nat) (simp add: take_bit_eq_mod)
  finally show ?thesis by (simp add: take_bit_eq_mod)
qed

lemma byte_or_128:
  fixes x :: "'a::len word"
  assumes "8 \<le> LENGTH('a)"
  shows "(ucast (x OR 128) :: byte) = of_nat (unat x mod 128 + 128)"
proof -
  have "(2 :: nat) ^ 8 \<le> 2 ^ LENGTH('a)" using assms by (intro power_increasing) simp_all
  then have "unat (of_nat 128 :: 'a word) = 128" by (simp only: unat_of_nat) (simp add: take_bit_nat_eq_self)
  then have "unat (128 :: 'a word) = 128" by simp
  then have "unat (ucast (x OR 128) :: byte) = take_bit 8 (unat x OR 128)" by (simp add: unsigned_ucast_eq unsigned_or_eq)
  also have "\<dots> = unat (of_nat (unat x mod 128 + 128) :: byte)"
    unfolding take_or_128 by (rule unat_byte [symmetric]) (simp add: add.commute less_diff_conv [symmetric])
  finally show ?thesis by (rule unsigned_word_eqI)
qed

lemma unat_exp: "k < LENGTH('a) \<Longrightarrow> unat (2 ^ k :: 'a::len word) = 2 ^ k"
proof -
  assume "k < LENGTH('a)"
  then have "unat (of_nat (2 ^ k) :: 'a word) = 2 ^ k" by (simp only: unat_of_nat) (rule mod_less, simp)
  then show ?thesis by simp
qed

lemma byte_ucast: "(ucast (x :: 'a::len word) :: byte) = of_nat (unat x)"
  by simp

lemma EncodeVarint32_enc7: "EncodeVarint32 v = enc7 (unat v)"
proof -
  have d: "unat (drop_bit k v) = unat v div 2 ^ k" for k by (rule trans [OF unat_drop_bit_eq drop_bit_eq_div])
  have h: "(ucast (drop_bit k v OR 128) :: byte) = of_nat (unat v div 2 ^ k mod 128 + 128)" for k
    by (subst byte_or_128) (simp_all add: d)
  have step: "enc7 (unat v div 2 ^ k) = ucast (drop_bit k v OR 128) # enc7 (unat v div 2 ^ (k + 7))" if "2 ^ (k + 7) \<le> unat v" for k
    using that by (subst enc7_more) (simp_all add: h power_add div_mult2_eq [symmetric] not_less less_eq_div_iff_mult_less_eq)
  have fin: "enc7 (unat v div 2 ^ k) = [ucast (drop_bit k v)]" if "unat v < 2 ^ (k + 7)" for k
    using that by (subst enc7_last) (simp_all add: div_less_iff_less_mult power_add byte_ucast d del: of_nat_unat)
  have "unat v < 2 ^ LENGTH(32)" by (rule unsigned_less)
  then show ?thesis
    using fin [of 0] fin [of 7] fin [of 14] fin [of 21] fin [of 28] step [of 0] step [of 7] step [of 14] step [of 21]
    unfolding EncodeVarint32_def by (simp add: word_less_nat_alt not_less)
qed

lemma EncodeVarint64_enc7: "EncodeVarint64 v = enc7 (unat v)"
proof (induction v rule: EncodeVarint64.induct)
  case (1 v)
  have c: "128 \<le> v \<longleftrightarrow> \<not> unat v < 128" by (simp add: word_le_nat_alt not_less)
  have "(ucast ((v AND 127) OR 128) :: byte) = of_nat (unat (v AND 127) mod 128 + 128)" by (rule byte_or_128) simp
  moreover have "unat (v AND 127) = unat v mod 128"
  proof -
    have m: "(127 :: 64 word) = mask 7" by (simp add: mask_eq_exp_minus_1)
    have "unat (take_bit 7 v) = take_bit 7 (unat v)" by (rule unsigned_take_bit_eq)
    then show ?thesis unfolding m take_bit_eq_mask [symmetric] by (simp only: take_bit_eq_mod) simp
  qed
  moreover have "unat (drop_bit 7 v) = unat v div 128" using trans [OF unat_drop_bit_eq drop_bit_eq_div, of 7 v] by simp
  ultimately show ?case using 1 c by (subst EncodeVarint64.simps) (simp add: enc7_last enc7_more)
qed

lemma VarintLength_enc7: "VarintLength v = length (enc7 (unat v))"
  unfolding EncodeVarint64_enc7 [symmetric]
  by (induction v rule: EncodeVarint64.induct) (subst VarintLength.simps, subst EncodeVarint64.simps, simp)

lemma length_enc7: "n < 2 ^ (7 * k + 7) \<Longrightarrow> length (enc7 n) \<le> Suc k"
proof (induction n arbitrary: k rule: enc7.induct)
  case (1 n)
  show ?case
  proof (cases "n < 128")
    case False
    then obtain j where "k = Suc j" using 1(2) by (cases k) auto
    with 1(2) have "n div 128 < 2 ^ (7 * j + 7)" by (simp add: div_less_iff_less_mult power_add)
    then show ?thesis using 1(1) [OF False] False \<open>k = Suc j\<close> by (simp add: enc7_more)
  qed (simp add: enc7_last)
qed

text \<open>The loop takes at least one byte and at most one per seven bits.\<close>

lemma varint_loop_takes:
  "varint_loop (s + 7 * k) s r p = Some (v, q) \<Longrightarrow> \<exists>n \<le> Suc k. 0 < n \<and> n \<le> length p \<and> q = drop n p"
proof (induction p arbitrary: s k r)
  case (Cons b p)
  show ?case
  proof (cases "b AND 128 = 0")
    case True
    with Cons.prems show ?thesis by (intro exI [of _ 1]) simp
  next
    case False
    show ?thesis
    proof (cases k)
      case 0
      with Cons.prems False have "varint_loop s (s + 7) (r OR push_bit s (ucast b AND 127)) p = Some (v, q)" by simp
      then show ?thesis by (cases p) simp_all
    next
      case (Suc j)
      with Cons.prems False have "varint_loop (s + 7 + 7 * j) (s + 7) (r OR push_bit s (ucast b AND 127)) p = Some (v, q)"
        by (simp add: add.assoc)
      from Cons.IH [OF this] obtain n where "n \<le> Suc j" "0 < n" "n \<le> length p" "q = drop n p" by blast
      then show ?thesis using Suc by (intro exI [of _ "Suc n"]) simp
    qed
  qed
qed simp

lemma GetVarint32Ptr_loop: "GetVarint32Ptr p = varint_loop 28 0 0 p"
proof (cases p)
  case (Cons b q)
  have "(128 :: 32 word) = 2 ^ 7" "(128 :: byte) = 2 ^ 7" by simp_all
  then have "(ucast b :: 32 word) AND 128 = 0 \<longleftrightarrow> b AND 128 = 0"
    by (simp only: and_exp_eq_0_iff_not_bit) (simp add: bit_ucast_iff)
  then show ?thesis using Cons by (simp add: GetVarint32Ptr_def GetVarint32PtrFallback_def)
qed (simp add: GetVarint32Ptr_def GetVarint32PtrFallback_def)

lemma get_varint32: "GetVarint32Ptr (EncodeVarint32 v @ ys) = Some (v, ys)"
proof -
  have "unat v < 2 ^ LENGTH(32)" by (rule unsigned_less)
  then show ?thesis unfolding GetVarint32Ptr_loop EncodeVarint32_enc7
    using varint_loop_enc7 [of "0 :: 32 word" 0 "unat v" 4 28 ys] by simp
qed

lemma get_varint64: "GetVarint64Ptr (EncodeVarint64 v @ ys) = Some (v, ys)"
proof -
  have "unat v < 2 ^ LENGTH(64)" by (rule unsigned_less)
  then show ?thesis unfolding GetVarint64Ptr_def EncodeVarint64_enc7
    using varint_loop_enc7 [of "0 :: 64 word" 0 "unat v" 9 63 ys] by simp
qed

lemma unmask_mask: "Unmask (Mask c) = c"
proof -
  have "drop_bit 17 (drop_bit 15 c OR push_bit 17 c) OR push_bit 15 (drop_bit 15 c OR push_bit 17 c) = c"
  proof (rule bit_word_eqI)
    fix n assume "n < LENGTH(32)"
    then show "bit (drop_bit 17 (drop_bit 15 c OR push_bit 17 c) OR push_bit 15 (drop_bit 15 c OR push_bit 17 c)) n = bit c n"
      by (cases "n < 15") (auto simp: bit_or_iff bit_push_bit_iff bit_drop_bit_eq not_less dest: bit_imp_le_length)
  qed
  then show ?thesis by (simp add: Unmask_def Mask_def)
qed

lemma zigzag_back: "zigzagToI64 (i64ToZigzag v) = v"
proof (rule bit_word_eqI)
  fix n assume n: "n < LENGTH(64)"
  have z: "bit (i64ToZigzag v) m = ((m \<noteq> 0 \<and> bit v (m - 1)) \<noteq> bit v 63)" if "m < 64" for m
    using that unfolding i64ToZigzag_def bit_xor_iff bit_push_bit_iff bit_signed_drop_bit_iff by (cases m) auto
  have "i64ToZigzag v AND 1 = of_bool (bit v 63)" using z [of 0] by (auto simp: and_one_eq bit_0 mod2_eq_if)
  then show "bit (zigzagToI64 (i64ToZigzag v)) n = bit v n"
    using n z [of "Suc n"]
    by (cases "n = 63") (auto simp: zigzagToI64_def bit_xor_iff bit_drop_bit_eq bit_minus_1_iff dest: bit_imp_le_length)
qed

lemma slice_back:
  assumes "length value < 2 ^ 32"
  shows "GetLengthPrefixedSlice (PutLengthPrefixedSlice [] value @ ys) = (Some value, ys)"
proof -
  have "unat (of_nat (length value) :: 32 word) = length value" using assms by (simp add: unat_of_nat take_bit_nat_eq_self)
  then show ?thesis using get_varint32 [of "of_nat (length value)" "value @ ys"]
    by (simp add: GetLengthPrefixedSlice_def PutLengthPrefixedSlice_def PutVarint32_def GetVarint32_def)
qed

text \<open>
  C26: what is written is read back, and the rest of the input is left: numbers of fixed width,
  numbers of variable length of 32 and 64 bits, signed numbers in zigzag form, strings with their
  length in front; and a masked checksum is unmasked.
\<close>

theorem coding_roundtrip:
  assumes "length value < 2 ^ 32"
  shows "GetFixed16 (drop (length dst) (PutFixed16 dst v16) @ ys) = Inr (Some (v16, ys))
     \<and> GetFixed32 (drop (length dst) (PutFixed32 dst v32) @ ys) = Inr (Some (v32, ys))
     \<and> GetFixed64 (drop (length dst) (PutFixed64 dst v64) @ ys) = Inr (Some (v64, ys))
     \<and> GetVarint32 (drop (length dst) (PutVarint32 dst v32) @ ys) = Some (v32, ys)
     \<and> GetVarint64 (drop (length dst) (PutVarint64 dst v64) @ ys) = Some (v64, ys)
     \<and> GetVarsignedint64 (drop (length dst) (PutVarsignedint64 dst v64) @ ys) = Some (v64, ys)
     \<and> GetLengthPrefixedSlice (drop (length dst) (PutLengthPrefixedSlice dst value) @ ys) = (Some value, ys)
     \<and> Unmask (Mask v32) = v32"
  using get_put_fixed(1) [of v16 ys] get_put_fixed(2) [of v32 ys] get_put_fixed(3) [of v64 ys] slice_back [OF assms, of ys]
  by (simp add: PutFixed16_def PutFixed32_def PutFixed64_def GetVarint32_def PutVarint32_def GetVarint64_def PutVarint64_def
      GetVarsignedint64_def GetVarsignedint64Ptr_def PutVarsignedint64_def PutLengthPrefixedSlice_def get_varint32 get_varint64
      zigzag_back unmask_mask)

theorem coding_roundtrip_witness:
  "GetVarint32 (EncodeVarint32 300 @ [7]) = Some (300, [7])
   \<and> GetLengthPrefixedSlice (PutLengthPrefixedSlice [] [104, 105] @ [7]) = (Some [104, 105], [7])
   \<and> EncodeVarint32 300 = [172, 2] \<and> Unmask (Mask 5) = 5"
proof -
  have "EncodeVarint32 300 = [172, 2]" by (simp add: EncodeVarint32_def)
  then show ?thesis using coding_roundtrip [of "[104, 105]" "[]" 0 "[7]" 300 0] coding_roundtrip [of "[104, 105]" "[]" 0 "[7]" 5 0]
    by (simp add: PutVarint32_def)
qed

text \<open>
  C27: the unrolled encoder of 32 bits and the loop of 64 bits write the same bytes, between one and
  five or ten of them, as many as \<^verbatim>\<open>VarintLength\<close> says; whatever the input, the decoder takes no
  more than that and not more than there is.
\<close>

theorem varint_length:
  "EncodeVarint32 v = EncodeVarint64 (ucast v) \<and> length (EncodeVarint32 v) \<in> {1..5}
   \<and> length (EncodeVarint64 w) = VarintLength w \<and> VarintLength w \<in> {1..10}
   \<and> (case GetVarint32Ptr p of None \<Rightarrow> True | Some (_, q) \<Rightarrow> \<exists>n. n \<in> {1..5} \<and> n \<le> length p \<and> q = drop n p)"
proof -
  have v: "unat v < 2 ^ LENGTH(32)" and w: "unat w < 2 ^ LENGTH(64)" by (rule unsigned_less)+
  have pos: "0 < length (enc7 n)" for n by (subst enc7.simps) simp
  have "unat v < 2 ^ 64" using v by simp
  then have "unat (ucast v :: 64 word) = unat v" by (simp add: unsigned_ucast_eq take_bit_nat_eq_self)
  then have "EncodeVarint32 v = EncodeVarint64 (ucast v)" by (simp only: EncodeVarint32_enc7 EncodeVarint64_enc7)
  moreover have "length (enc7 (unat v)) \<le> 5" using v length_enc7 [of "unat v" 4] by simp
  moreover have "length (enc7 (unat w)) \<le> 10" using w length_enc7 [of "unat w" 9] by simp
  moreover have "\<exists>n. n \<in> {1..5} \<and> n \<le> length p \<and> q = drop n p" if g: "GetVarint32Ptr p = Some (x, q)" for x q
  proof -
    obtain n where "n \<le> 5" "0 < n" "n \<le> length p" "q = drop n p"
      using varint_loop_takes [of 0 4 0 p x q] g by (auto simp: GetVarint32Ptr_loop)
    then show ?thesis by (intro exI [of _ n]) simp
  qed
  ultimately show ?thesis using pos by (auto simp: EncodeVarint32_enc7 EncodeVarint64_enc7 VarintLength_enc7 Suc_le_eq split: option.split)
qed

end
