(* ===== verification/Key_Order.thy ===== *)
theory Key_Order
  imports Zoad_Prelude
begin

text \<open>
  The order of keys: \<^verbatim>\<open>Slice::compare\<close> of \<^verbatim>\<open>src/include/rocksdb/slice.h\<close> and the two
  comparators of \<^verbatim>\<open>src/util/comparator.cc\<close>, with the routines that shorten the keys of an
  index. The locale \<open>comparator\<close> has the laws the users of a comparator rely on.
\<close>

section \<open>Slices\<close>

text \<open>\<^verbatim>\<open>memcmp\<close> of two ranges of the same length; the standard fixes only the sign of the result.\<close>

fun memcmp :: "byte list \<Rightarrow> byte list \<Rightarrow> int" where
  "memcmp (x # xs) (y # ys) = (if x < y then -1 else if y < x then 1 else memcmp xs ys)"
| "memcmp _ _ = 0"

definition Slice_compare :: "byte list \<Rightarrow> byte list \<Rightarrow> int" where
  "Slice_compare a b =
     (let min_len = (if length a < length b then length a else length b);
          r = memcmp (take min_len a) (take min_len b)
      in if r = 0 then if length a < length b then -1 else if length b < length a then 1 else r else r)"

text \<open>The length of the common prefix.\<close>

fun difference_offset :: "byte list \<Rightarrow> byte list \<Rightarrow> nat" where
  "difference_offset (x # xs) (y # ys) = (if x = y then difference_offset xs ys + 1 else 0)"
| "difference_offset _ _ = 0"

section \<open>Comparators\<close>

definition BytewiseCompare :: "byte list \<Rightarrow> byte list \<Rightarrow> int" where
  "BytewiseCompare a b = Slice_compare a b"

definition ReverseBytewiseCompare :: "byte list \<Rightarrow> byte list \<Rightarrow> int" where
  "ReverseBytewiseCompare a b = - Slice_compare a b"

text \<open>An assertion that fails ends the run.\<close>

definition eassert :: "bool \<Rightarrow> unit res" where
  "eassert b = (if b then Inr () else Inl (Exit ''assert''))"

text \<open>Counting up the byte at a position and cutting the string behind it.\<close>

definition bump :: "byte list \<Rightarrow> nat \<Rightarrow> byte list" where
  "bump s i = take i s @ [s ! i + 1]"

definition FindShortestSeparator :: "byte list \<Rightarrow> byte list \<Rightarrow> byte list res" where
  "FindShortestSeparator start limit =
     (let min_length = min (length start) (length limit); diff_index = difference_offset start limit in
      if min_length \<le> diff_index then Inr start
      else
        let start_byte = start ! diff_index; limit_byte = limit ! diff_index in
        if limit_byte \<le> start_byte then Inr start
        else
          ebind (eassert (start_byte < limit_byte)) (\<lambda>_.
          let start' =
            (if diff_index < length limit - 1 \<or> unat start_byte + 1 < unat limit_byte then bump start diff_index
             else
               let i = diff_index + 1 + length (takeWhile (\<lambda>b. \<not> b < 0xff) (drop (diff_index + 1) start)) in
               if i < length start then bump start i else start)
          in ebind (eassert (BytewiseCompare start' limit < 0)) (\<lambda>_. Inr start')))"

definition FindShortSuccessor :: "byte list \<Rightarrow> byte list" where
  "FindShortSuccessor key =
     (let i = length (takeWhile (\<lambda>b. \<not> b \<noteq> 0xff) key) in if i < length key then bump key i else key)"

definition ReverseFindShortestSeparator :: "byte list \<Rightarrow> byte list \<Rightarrow> byte list res" where
  "ReverseFindShortestSeparator start limit =
     (let min_length = min (length start) (length limit); diff_index = difference_offset start limit in
      ebind (eassert (diff_index \<le> min_length)) (\<lambda>_.
      if diff_index = min_length then Inr start
      else if limit ! diff_index < start ! diff_index \<and> diff_index < length start - 1 then
        let start' = take (diff_index + 1) start in
        ebind (eassert (0 \<le> Slice_compare start start')) (\<lambda>_.
        ebind (eassert (0 < Slice_compare start' limit)) (\<lambda>_. Inr start'))
      else Inr start))"

definition IsSameLengthImmediateSuccessor :: "byte list \<Rightarrow> byte list \<Rightarrow> bool" where
  "IsSameLengthImmediateSuccessor s t =
     (if length s \<noteq> length t \<or> length s = 0 then False
      else
        let diff_ind = difference_offset s t in
        if length s \<le> diff_ind then False
        else
          s ! diff_ind \<noteq> 0xff \<and> unat (s ! diff_ind) + 1 = unat (t ! diff_ind)
          \<and> list_all (\<lambda>b. b = 0xff) (drop (diff_ind + 1) s) \<and> list_all (\<lambda>b. b = 0) (drop (diff_ind + 1) t))"

section \<open>The laws of a comparator\<close>

locale comparator =
  fixes cmp :: "byte list \<Rightarrow> byte list \<Rightarrow> int"
  assumes cmp_eq: "cmp a b = 0 \<longleftrightarrow> a = b"
    and cmp_swap: "cmp a b < 0 \<longleftrightarrow> 0 < cmp b a"
    and cmp_trans: "cmp a b < 0 \<Longrightarrow> cmp b c < 0 \<Longrightarrow> cmp a c < 0"
begin

lemma cmp_less_le: "cmp a b < 0 \<Longrightarrow> cmp b c \<le> 0 \<Longrightarrow> cmp a c < 0"
  using cmp_trans cmp_eq by (metis order_le_less)

lemma cmp_below: "cmp a b < 0 \<Longrightarrow> \<not> cmp a t < 0 \<Longrightarrow> \<not> cmp b t < 0"
  using cmp_trans by blast

text \<open>In a list with rising keys the keys below a target come first.\<close>

lemma below_first:
  assumes "sorted_wrt (\<lambda>x y. cmp (fst x) (fst y) < 0) kvs" "i < length kvs"
  shows "cmp (fst (kvs ! i)) t < 0 \<longleftrightarrow> i < length (takeWhile (\<lambda>kv. cmp (fst kv) t < 0) kvs)"
proof
  assume l: "cmp (fst (kvs ! i)) t < 0"
  show "i < length (takeWhile (\<lambda>kv. cmp (fst kv) t < 0) kvs)"
  proof (rule ccontr)
    define j where "j = length (takeWhile (\<lambda>kv. cmp (fst kv) t < 0) kvs)"
    assume "\<not> i < length (takeWhile (\<lambda>kv. cmp (fst kv) t < 0) kvs)"
    then have j: "j \<le> i" by (simp add: j_def)
    then have nj: "\<not> cmp (fst (kvs ! j)) t < 0" using nth_length_takeWhile [of "\<lambda>kv. cmp (fst kv) t < 0" kvs] assms(2)
      by (simp add: j_def)
    show False
    proof (cases "j = i")
      case False
      then have "cmp (fst (kvs ! j)) (fst (kvs ! i)) < 0" using assms j by (simp add: sorted_wrt_iff_nth_less)
      then show False using cmp_below nj l by blast
    qed (use nj l in simp)
  qed
next
  assume "i < length (takeWhile (\<lambda>kv. cmp (fst kv) t < 0) kvs)"
  then show "cmp (fst (kvs ! i)) t < 0" by (metis nth_mem set_takeWhileD takeWhile_nth)
qed

end

lemma compare_simps [simp]:
  "Slice_compare [] [] = 0" "Slice_compare [] (y # ys) = -1" "Slice_compare (x # xs) [] = 1"
  "Slice_compare (x # xs) (y # ys) = (if x < y then -1 else if y < x then 1 else Slice_compare xs ys)"
  by (auto simp: Slice_compare_def Let_def)

lemma compare_prefix [simp]: "Slice_compare (p @ xs) (p @ ys) = Slice_compare xs ys"
  by (induction p) auto

lemma compare_eq: "Slice_compare a b = 0 \<longleftrightarrow> a = b"
  by (induction a b rule: list_induct2') auto

lemma compare_swap: "Slice_compare b a = - Slice_compare a b"
  by (induction a b rule: list_induct2') auto

lemma compare_trans: "Slice_compare a b < 0 \<Longrightarrow> Slice_compare b c < 0 \<Longrightarrow> Slice_compare a c < 0"
proof (induction a b arbitrary: c rule: list_induct2')
  case (3 y ys)
  then show ?case by (cases c) auto
next
  case (4 x xs y ys)
  then show ?case by (cases c) (auto split: if_splits)
qed auto

interpretation bytewise: comparator BytewiseCompare
proof unfold_locales
  show "BytewiseCompare a b = 0 \<longleftrightarrow> a = b" for a b by (simp add: BytewiseCompare_def compare_eq)
  show "BytewiseCompare a b < 0 \<longleftrightarrow> 0 < BytewiseCompare b a" for a b
    using compare_swap [of a b] by (simp add: BytewiseCompare_def)
  show "BytewiseCompare a b < 0 \<Longrightarrow> BytewiseCompare b c < 0 \<Longrightarrow> BytewiseCompare a c < 0" for a b c
    unfolding BytewiseCompare_def by (rule compare_trans)
qed

interpretation reverse: comparator ReverseBytewiseCompare
proof unfold_locales
  show "ReverseBytewiseCompare a b = 0 \<longleftrightarrow> a = b" for a b by (simp add: ReverseBytewiseCompare_def compare_eq)
  show "ReverseBytewiseCompare a b < 0 \<longleftrightarrow> 0 < ReverseBytewiseCompare b a" for a b
    using compare_swap [of a b] by (simp add: ReverseBytewiseCompare_def)
  show "ReverseBytewiseCompare a c < 0" if "ReverseBytewiseCompare a b < 0" "ReverseBytewiseCompare b c < 0" for a b c
    using that compare_trans [of c b a] compare_swap [of b a] compare_swap [of c b] compare_swap [of c a]
    by (simp add: ReverseBytewiseCompare_def)
qed

section \<open>Neighbours of the same length\<close>

text \<open>A string as a number, most significant byte first.\<close>

fun big_endian :: "byte list \<Rightarrow> nat" where
  "big_endian [] = 0"
| "big_endian (x # xs) = unat x * 256 ^ length xs + big_endian xs"

lemma big_endian_less: "big_endian xs < 256 ^ length xs"
proof (induction xs)
  case (Cons x xs)
  have "unat x < 2 ^ LENGTH(8)" by (rule unsigned_less)
  then have "unat x * 256 ^ length xs \<le> 255 * 256 ^ length xs" by (intro mult_le_mono1) simp
  moreover have "(256 :: nat) ^ length (x # xs) = 256 * 256 ^ length xs" by simp
  ultimately show ?case using Cons unfolding big_endian.simps by linarith
qed simp

lemma big_endian_0: "big_endian xs = 0 \<longleftrightarrow> list_all (\<lambda>b. b = 0) xs"
  by (induction xs) (auto simp: unsigned_eq_0_iff)

lemma big_endian_max: "Suc (big_endian xs) = 256 ^ length xs \<longleftrightarrow> list_all (\<lambda>b. b = 255) xs"
proof (induction xs)
  case (Cons x xs)
  have x: "unat x < 2 ^ LENGTH(8)" by (rule unsigned_less)
  have "Suc (big_endian (x # xs)) = 256 ^ length (x # xs) \<longleftrightarrow> unat x = 255 \<and> Suc (big_endian xs) = 256 ^ length xs"
  proof (cases "unat x = 255")
    case False
    then have "unat x * 256 ^ length xs \<le> 254 * 256 ^ length xs" using x by (intro mult_le_mono1) simp
    moreover have "(256 :: nat) ^ length (x # xs) = 256 * 256 ^ length xs" by simp
    ultimately show ?thesis using big_endian_less [of xs] False unfolding big_endian.simps by linarith
  qed simp
  then show ?case using Cons by (simp add: word_unat_eq_iff)
qed simp

lemma immediate_successor:
  "length s = length t \<Longrightarrow> IsSameLengthImmediateSuccessor s t \<longleftrightarrow> big_endian t = big_endian s + 1"
proof (induction s t rule: list_induct2)
  case (Cons x xs y ys)
  let ?B = "256 ^ length ys :: nat"
  show ?case
  proof (cases "x = y")
    case True
    then have "IsSameLengthImmediateSuccessor (x # xs) (y # ys) = IsSameLengthImmediateSuccessor xs ys"
      using Cons(1) by (cases "length xs = 0") (auto simp: IsSameLengthImmediateSuccessor_def Let_def)
    then show ?thesis using Cons True by simp
  next
    case False
    have l: "big_endian xs < ?B" "big_endian ys < ?B" using big_endian_less [of xs] big_endian_less [of ys] Cons(1) by simp_all
    have "unat y * ?B + big_endian ys = unat x * ?B + big_endian xs + 1
       \<longleftrightarrow> unat y = unat x + 1 \<and> big_endian ys = 0 \<and> Suc (big_endian xs) = ?B" (is "?l = ?r")
    proof
      assume e: ?l
      have "unat x \<noteq> unat y" using False by (simp add: word_unat_eq_iff)
      moreover have "\<not> unat y < unat x"
      proof
        assume "unat y < unat x"
        then have "(unat y + 1) * ?B \<le> unat x * ?B" by (intro mult_le_mono1) simp
        then show False using e l by simp
      qed
      moreover have "\<not> unat x + 1 < unat y"
      proof
        assume "unat x + 1 < unat y"
        then have "(unat x + 2) * ?B \<le> unat y * ?B" by (intro mult_le_mono1) simp
        then show False using e l by simp
      qed
      ultimately have "unat y = unat x + 1" by linarith
      then show ?r using e l by simp
    qed simp
    moreover have "x \<noteq> 255" if "unat y = unat x + 1"
    proof -
      have "unat y < 2 ^ LENGTH(8)" by (rule unsigned_less)
      then show ?thesis using that by auto
    qed
    ultimately show ?thesis using Cons(1) False big_endian_max [of xs] big_endian_0 [of ys]
      by (auto simp: IsSameLengthImmediateSuccessor_def)
  qed
qed (simp add: IsSameLengthImmediateSuccessor_def)

section \<open>Separators and successors\<close>

text \<open>Two strings up to the first difference.\<close>

lemma difference_split:
  obtains p xs ys where "a = p @ xs" "b = p @ ys" "difference_offset a b = length p"
    "xs = [] \<or> ys = [] \<or> hd xs \<noteq> hd ys"
proof (induction a b arbitrary: thesis rule: list_induct2')
  case (4 x xs y ys)
  show ?case
  proof (cases "x = y")
    case True
    obtain p us vs where "xs = p @ us" "ys = p @ vs" "difference_offset xs ys = length p" "us = [] \<or> vs = [] \<or> hd us \<noteq> hd vs"
      using 4(1) by blast
    then show ?thesis using 4(2) [of "x # p" us vs] True by simp
  next
    case False
    then show ?thesis using 4(2) [of "[]" "x # xs" "y # ys"] by simp
  qed
qed simp_all

lemma below_255: "(b :: byte) < 255 \<longleftrightarrow> b \<noteq> 255"
proof -
  have "unat b < 2 ^ LENGTH(8)" by (rule unsigned_less)
  then show ?thesis by (auto simp: word_less_nat_alt word_unat_eq_iff)
qed

lemma bump_at: "bump (p @ x # xs) (length p) = p @ [x + 1]"
  by (simp add: bump_def nth_append)

lemma byte_inc: "(x :: byte) < y \<Longrightarrow> x < x + 1 \<and> unat (x + 1) = unat x + 1"
proof -
  assume "x < y"
  then have "unat x < unat y" by (simp add: word_less_nat_alt)
  moreover have "unat y < 2 ^ LENGTH(8)" by (rule unsigned_less)
  ultimately show ?thesis by (simp add: word_less_nat_alt unat_word_ariths)
qed

text \<open>Counting up the first byte below 255.\<close>

lemma bump_first:
  defines "n \<equiv> \<lambda>s. length (takeWhile (\<lambda>b. \<not> b < (255 :: byte)) s)"
  assumes "n s < length s"
  shows "Slice_compare s (bump s (n s)) < 0" "length (bump s (n s)) \<le> length s"
proof -
  have b: "s ! n s < 255" using nth_length_takeWhile [of "\<lambda>b. \<not> b < (255 :: byte)" s] assms by (simp add: n_def)
  have "s = take (n s) s @ s ! n s # drop (Suc (n s)) s" using assms(2) by (simp add: id_take_nth_drop)
  moreover have "Slice_compare (take (n s) s @ s ! n s # drop (Suc (n s)) s) (take (n s) s @ [s ! n s + 1]) < 0"
    using byte_inc [OF b] by simp
  ultimately show "Slice_compare s (bump s (n s)) < 0" by (simp add: bump_def)
  show "length (bump s (n s)) \<le> length s" using assms(2) by (simp add: bump_def)
qed

lemma separator:
  assumes "Slice_compare start limit < 0"
  shows "\<exists>s. FindShortestSeparator start limit = Inr s \<and> Slice_compare start s \<le> 0 \<and> Slice_compare s limit < 0 \<and> length s \<le> length start"
proof -
  obtain p xs ys where d: "start = p @ xs" "limit = p @ ys" "difference_offset start limit = length p"
    "xs = [] \<or> ys = [] \<or> hd xs \<noteq> hd ys" by (rule difference_split)
  show ?thesis
  proof (cases "xs = [] \<or> ys = []")
    case True
    then have "FindShortestSeparator start limit = Inr start" using d by (auto simp: FindShortestSeparator_def)
    then show ?thesis using assms compare_eq [of start start] by simp
  next
    case False
    then obtain x us y vs where xy: "xs = x # us" "ys = y # vs" by (meson neq_Nil_conv)
    have lt: "x < y" using assms d xy by (auto split: if_splits)
    note inc = byte_inc [OF lt]
    define i where "i = length (takeWhile (\<lambda>b. \<not> b < (255 :: byte)) us)"
    have at: "start ! length p = x" "limit ! length p = y" using d xy by (simp_all add: nth_append)
    have dr: "drop (length p + 1) start = us" using d xy by simp
    define s where "s = (if length p < length limit - 1 \<or> unat x + 1 < unat y then bump start (length p)
       else if length p + 1 + i < length start then bump start (length p + 1 + i) else start)"
    have F: "FindShortestSeparator start limit = ebind (eassert (BytewiseCompare s limit < 0)) (\<lambda>_. Inr s)"
    proof -
      have "\<not> min (length start) (length limit) \<le> length p" "\<not> y \<le> x" using d xy lt by auto
      then show ?thesis
        by (simp only: FindShortestSeparator_def Let_def d(3) at dr lt if_False if_True eassert_def ebind.simps s_def i_def)
    qed
    have "Slice_compare start s \<le> 0 \<and> Slice_compare s limit < 0 \<and> length s \<le> length start"
    proof (cases "length p < length limit - 1 \<or> unat x + 1 < unat y")
      case True
      then have s: "s = p @ [x + 1]" using d(1) xy by (simp add: s_def bump_at)
      have "x + 1 < y \<or> x + 1 = y \<and> vs \<noteq> []"
        using True inc lt d(2) xy by (auto simp: word_less_nat_alt word_unat_eq_iff)
      then have "Slice_compare [x + 1] (y # vs) < 0" by (auto simp: neq_Nil_conv)
      then show ?thesis using s d xy inc by simp
    next
      case F2: False
      show ?thesis
      proof (cases "i < length us")
        case True
        then have s: "s = p @ x # bump us i" using F2 d(1) xy by (simp add: s_def bump_def nth_append)
        show ?thesis using s d xy lt bump_first [of us] True by (simp add: i_def)
      next
        case False
        then have "s = start" using F2 d(1) xy by (simp add: s_def)
        then show ?thesis using assms compare_eq [of start start] by simp
      qed
    qed
    then show ?thesis using F by (simp add: eassert_def BytewiseCompare_def)
  qed
qed

lemma reverse_separator:
  assumes "0 < Slice_compare start limit"
  shows "\<exists>s. ReverseFindShortestSeparator start limit = Inr s \<and> 0 \<le> Slice_compare start s \<and> 0 < Slice_compare s limit \<and> length s \<le> length start"
proof -
  obtain p xs ys where d: "start = p @ xs" "limit = p @ ys" "difference_offset start limit = length p"
    "xs = [] \<or> ys = [] \<or> hd xs \<noteq> hd ys" by (rule difference_split)
  have le: "length p \<le> min (length start) (length limit)" using d by simp
  have same: "Slice_compare start start = 0" by (simp add: compare_eq)
  show ?thesis
  proof (cases "length p = min (length start) (length limit) \<or> length xs = 1")
    case True
    then have "ReverseFindShortestSeparator start limit = Inr start"
      using d le by (auto simp: ReverseFindShortestSeparator_def eassert_def Let_def)
    then show ?thesis using assms same by simp
  next
    case False
    then obtain x us y vs where xy: "xs = x # us" "ys = y # vs" "us \<noteq> []" using d by (cases xs; cases ys) auto
    then obtain u ws where u: "us = u # ws" by (meson neq_Nil_conv)
    have lt: "y < x" using assms d xy by (auto split: if_splits)
    have t: "take (length p + 1) start = p @ [x]" using d xy by simp
    have "ReverseFindShortestSeparator start limit = Inr (p @ [x])"
      using d lt xy u unfolding ReverseFindShortestSeparator_def t by (auto simp: Let_def eassert_def nth_append)
    then show ?thesis using d xy u lt by auto
  qed
qed

lemma successor: "Slice_compare key (FindShortSuccessor key) \<le> 0 \<and> length (FindShortSuccessor key) \<le> length key"
proof -
  have e: "(\<lambda>b. \<not> b \<noteq> (255 :: byte)) = (\<lambda>b. \<not> b < 255)" by (simp add: below_255)
  have "Slice_compare key key = 0" by (simp add: compare_eq)
  then show ?thesis using bump_first [of key] unfolding FindShortSuccessor_def e by (auto simp: Let_def)
qed

text \<open>
  C28: a separator lies between the two keys it is computed from and is not longer than the first,
  for both comparators; a successor is not below its key and not longer. The assertions hold.
\<close>

theorem separators_between:
  assumes "BytewiseCompare start limit < 0"
  shows "(\<exists>s. FindShortestSeparator start limit = Inr s \<and> BytewiseCompare start s \<le> 0 \<and> BytewiseCompare s limit < 0
         \<and> length s \<le> length start)
     \<and> (\<exists>s. ReverseFindShortestSeparator limit start = Inr s \<and> ReverseBytewiseCompare limit s \<le> 0
         \<and> ReverseBytewiseCompare s start < 0 \<and> length s \<le> length limit)
     \<and> BytewiseCompare start (FindShortSuccessor start) \<le> 0 \<and> length (FindShortSuccessor start) \<le> length start"
  using separator [of start limit] reverse_separator [of limit start] successor [of start] assms compare_swap [of limit start]
  by (simp add: BytewiseCompare_def ReverseBytewiseCompare_def)

theorem separators_between_witness:
  "FindShortestSeparator [1, 2, 3] [1, 9] = Inr [1, 3] \<and> BytewiseCompare [1, 2, 3] [1, 9] < 0
   \<and> (\<exists>s. FindShortestSeparator [1, 2, 3] [1, 9] = Inr s \<and> BytewiseCompare s [1, 9] < 0)"
proof -
  have "BytewiseCompare [1, 2, 3] [1, 9] < 0" by (simp add: BytewiseCompare_def)
  moreover from separators_between [OF this] have "\<exists>s. FindShortestSeparator [1, 2, 3] [1, 9] = Inr s \<and> BytewiseCompare s [1, 9] < 0"
    by blast
  moreover have "FindShortestSeparator [1, 2, 3] [1, 9] = Inr [1, 3]"
    by (simp add: FindShortestSeparator_def eassert_def bump_def BytewiseCompare_def)
  ultimately show ?thesis by blast
qed

end
