(* ===== verification/Sst_Block.thy ===== *)
theory Sst_Block
  imports Coding Key_Order
begin

text \<open>
  The blocks of a table: \<^verbatim>\<open>src/table/block_builder.cc\<close> writes sorted entries with the common
  prefix of neighbouring keys left out and a list of restart points at the end,
  \<^verbatim>\<open>src/table/block.cc\<close> reads them with an iterator. Pointers into a block are offsets; one that
  would leave the block is a fault. A failing assertion ends the run.
\<close>

section \<open>The builder\<close>

record BlockBuilder =
  bb_buffer :: "byte list"
  bb_restarts :: "(32 word) list"
  bb_counter :: int
  bb_finished :: bool
  bb_last_key :: "byte list"

definition new_BlockBuilder :: "int \<Rightarrow> BlockBuilder res" where
  "new_BlockBuilder block_restart_interval =
     ebind (eassert (1 \<le> block_restart_interval)) (\<lambda>_.
       Inr \<lparr>bb_buffer = [], bb_restarts = [0], bb_counter = 0, bb_finished = False, bb_last_key = []\<rparr>)"

definition BlockBuilder_Reset :: "BlockBuilder \<Rightarrow> BlockBuilder" where
  "BlockBuilder_Reset b = b\<lparr>bb_buffer := [], bb_restarts := [0], bb_counter := 0, bb_finished := False, bb_last_key := []\<rparr>"

definition CurrentSizeEstimate :: "BlockBuilder \<Rightarrow> nat" where
  "CurrentSizeEstimate b = length (bb_buffer b) + length (bb_restarts b) * 4 + 4"

definition BlockBuilder_Finish :: "BlockBuilder \<Rightarrow> byte list \<times> BlockBuilder" where
  "BlockBuilder_Finish b =
     (let buffer = PutFixed32 (foldl PutFixed32 (bb_buffer b) (bb_restarts b)) (of_nat (length (bb_restarts b)))
      in (buffer, b\<lparr>bb_buffer := buffer, bb_finished := True\<rparr>))"

definition BlockBuilder_Add ::
  "(byte list \<Rightarrow> byte list \<Rightarrow> int) \<Rightarrow> int \<Rightarrow> byte list \<Rightarrow> byte list \<Rightarrow> BlockBuilder \<Rightarrow> BlockBuilder res" where
  "BlockBuilder_Add cmp block_restart_interval key value b =
     ebind (eassert (\<not> bb_finished b)) (\<lambda>_.
     ebind (eassert (bb_counter b \<le> block_restart_interval)) (\<lambda>_.
     ebind (eassert (bb_buffer b = [] \<or> 0 < cmp key (bb_last_key b))) (\<lambda>_.
     let (shared, restarts, counter) =
           (if bb_counter b < block_restart_interval
            then (difference_offset (bb_last_key b) key, bb_restarts b, bb_counter b)
            else (0, bb_restarts b @ [of_nat (length (bb_buffer b))], 0));
         non_shared = length key - shared;
         buffer = PutVarint32 (PutVarint32 (PutVarint32 (bb_buffer b) (of_nat shared)) (of_nat non_shared)) (of_nat (length value));
         last_key = take shared (bb_last_key b) @ drop shared key
     in ebind (eassert (last_key = key)) (\<lambda>_.
          Inr (b\<lparr>bb_buffer := buffer @ drop shared key @ value, bb_restarts := restarts,
                 bb_counter := s32 (counter + 1), bb_last_key := last_key\<rparr>)))))"

section \<open>The block\<close>

record Block =
  bk_data :: "byte list"
  bk_size :: nat
  bk_restart_offset :: nat

definition NumRestarts :: "byte list \<Rightarrow> nat \<Rightarrow> nat res" where
  "NumRestarts data sz =
     ebind (eassert (4 \<le> sz)) (\<lambda>_. ebind (DecodeFixed32 data (sz - 4)) (\<lambda>n. Inr (unat n)))"

text \<open>The constructor leaves \<^verbatim>\<open>restart_offset_\<close> as memory has it (\<open>raw\<close>) when the contents are bad.\<close>

definition new_Block :: "nat \<Rightarrow> byte list \<Rightarrow> Block res" where
  "new_Block raw data =
     (let sz = length data; bad = \<lparr>bk_data = data, bk_size = 0, bk_restart_offset = raw\<rparr> in
      if sz < 4 then Inr bad
      else
        let max_restarts_allowed = (sz - 4) div 4 in
        ebind (NumRestarts data sz) (\<lambda>n.
          if max_restarts_allowed < n then Inr bad
          else Inr \<lparr>bk_data = data, bk_size = sz, bk_restart_offset = u32 (sz - (1 + n) * 4)\<rparr>))"

text \<open>
  The bytes between \<open>p\<close> and \<open>limit\<close>; the result is the three numbers and the position behind them.
\<close>

definition DecodeEntry :: "byte list \<Rightarrow> nat \<Rightarrow> nat \<Rightarrow> (nat \<times> nat \<times> nat \<times> nat) option res" where
  "DecodeEntry data p limit =
     (if int limit - int p < 3 then Inr None
      else
        ebind (mem_read data p (limit - p)) (\<lambda>bs.
        let x = (if unat (bs ! 0 OR bs ! 1 OR bs ! 2) < 128
                 then Some (ucast (bs ! 0), ucast (bs ! 1), ucast (bs ! 2), drop 3 bs)
                 else
                   (case GetVarint32Ptr bs of None \<Rightarrow> None | Some (shared, bs) \<Rightarrow>
                   (case GetVarint32Ptr bs of None \<Rightarrow> None | Some (non_shared, bs) \<Rightarrow>
                   (case GetVarint32Ptr bs of None \<Rightarrow> None | Some (value_length, bs) \<Rightarrow>
                      Some (shared, non_shared, value_length, bs)))))
        in Inr (case x of None \<Rightarrow> None | Some (shared, non_shared, value_length, bs) \<Rightarrow>
             if u32 (length bs) < unat (non_shared + value_length :: 32 word) then None
             else Some (unat shared, unat non_shared, unat value_length, limit - length bs))))"

section \<open>The iterator\<close>

datatype block_status = BlockOk | Corruption string

text \<open>\<open>it_value\<close> is the position and length of the value; an empty slice made without data is \<open>None\<close>.\<close>

record Iter =
  it_data :: "byte list"
  it_restarts :: nat
  it_num_restarts :: nat
  it_current :: nat
  it_restart_index :: nat
  it_key :: "byte list"
  it_value :: "(nat \<times> nat) option"
  it_status :: block_status

definition offset_in :: "byte list \<Rightarrow> nat \<Rightarrow> nat res" where
  "offset_in data n = (if n \<le> length data then Inr n else Inl (OutOfBounds ''block''))"

definition NextEntryOffset :: "Iter \<Rightarrow> nat res" where
  "NextEntryOffset it =
     (case it_value it of
        None \<Rightarrow> Inl (Undefined ''value_'')
      | Some (p, n) \<Rightarrow> ebind (offset_in (it_data it) (p + n)) (\<lambda>e. Inr (u32 e)))"

definition GetRestartPoint :: "Iter \<Rightarrow> nat \<Rightarrow> nat res" where
  "GetRestartPoint it index =
     ebind (eassert (index < it_num_restarts it)) (\<lambda>_.
     ebind (DecodeFixed32 (it_data it) (it_restarts it + index * 4)) (\<lambda>r. Inr (unat r)))"

definition SeekToRestartPoint :: "nat \<Rightarrow> Iter \<Rightarrow> Iter res" where
  "SeekToRestartPoint index it =
     ebind (GetRestartPoint it index) (\<lambda>offset.
     ebind (offset_in (it_data it) offset) (\<lambda>p.
       Inr (it\<lparr>it_key := [], it_restart_index := index, it_value := Some (p, 0)\<rparr>)))"

definition new_Iter :: "byte list \<Rightarrow> nat \<Rightarrow> nat \<Rightarrow> Iter res" where
  "new_Iter data restarts num_restarts =
     ebind (eassert (0 < num_restarts)) (\<lambda>_.
       Inr \<lparr>it_data = data, it_restarts = restarts, it_num_restarts = num_restarts, it_current = restarts,
            it_restart_index = num_restarts, it_key = [], it_value = None, it_status = BlockOk\<rparr>)"

definition Valid :: "Iter \<Rightarrow> bool" where
  "Valid it \<longleftrightarrow> it_current it < it_restarts it"

definition Iter_key :: "Iter \<Rightarrow> byte list res" where
  "Iter_key it = ebind (eassert (Valid it)) (\<lambda>_. Inr (it_key it))"

text \<open>The bytes a client reads through the slice it is given.\<close>

definition Iter_value :: "Iter \<Rightarrow> byte list res" where
  "Iter_value it =
     ebind (eassert (Valid it)) (\<lambda>_.
       case it_value it of None \<Rightarrow> Inr [] | Some (p, n) \<Rightarrow> mem_read (it_data it) p n)"

definition CorruptionError :: "Iter \<Rightarrow> Iter" where
  "CorruptionError it =
     it\<lparr>it_current := it_restarts it, it_restart_index := it_num_restarts it,
        it_status := Corruption ''bad entry in block'', it_key := [], it_value := None\<rparr>"

fun next_restart :: "nat \<Rightarrow> Iter \<Rightarrow> nat \<Rightarrow> nat res" where
  "next_restart 0 it ri = Inl (Diverges ''ParseNextKey'')"
| "next_restart (Suc n) it ri =
     (if u32 (ri + 1) < it_num_restarts it then
        ebind (GetRestartPoint it (u32 (ri + 1))) (\<lambda>r.
          if r < it_current it then next_restart n it (u32 (ri + 1)) else Inr ri)
      else Inr ri)"

definition ParseNextKey :: "Iter \<Rightarrow> (bool \<times> Iter) res" where
  "ParseNextKey it =
     ebind (NextEntryOffset it) (\<lambda>current.
     let it = it\<lparr>it_current := current\<rparr> in
     if it_restarts it \<le> current then
       Inr (False, it\<lparr>it_current := it_restarts it, it_restart_index := it_num_restarts it\<rparr>)
     else
       ebind (DecodeEntry (it_data it) current (it_restarts it)) (\<lambda>x.
         case x of
           None \<Rightarrow> Inr (False, CorruptionError it)
         | Some (shared, non_shared, value_length, p) \<Rightarrow>
             if length (it_key it) < shared then Inr (False, CorruptionError it)
             else
               ebind (mem_read (it_data it) p non_shared) (\<lambda>delta.
               let it = it\<lparr>it_key := take shared (it_key it) @ delta, it_value := Some (p + non_shared, value_length)\<rparr> in
               ebind (next_restart (it_num_restarts it + 1) it (it_restart_index it)) (\<lambda>ri.
                 Inr (True, it\<lparr>it_restart_index := ri\<rparr>)))))"

text \<open>
  The loops \<^verbatim>\<open>while (ParseNextKey() && cond)\<close>. Every round moves the offset up, so there are at
  most as many rounds as bytes before the restart points.
\<close>

fun parse_while :: "nat \<Rightarrow> (Iter \<Rightarrow> bool res) \<Rightarrow> Iter \<Rightarrow> Iter res" where
  "parse_while 0 cond it = Inl (Diverges ''ParseNextKey loop'')"
| "parse_while (Suc n) cond it =
     ebind (ParseNextKey it) (\<lambda>(ok, it).
       if ok then ebind (cond it) (\<lambda>b. if b then parse_while n cond it else Inr it) else Inr it)"

definition ends_before :: "nat \<Rightarrow> Iter \<Rightarrow> bool res" where
  "ends_before limit it = ebind (NextEntryOffset it) (\<lambda>e. Inr (e < limit))"

definition Iter_Next :: "Iter \<Rightarrow> Iter res" where
  "Iter_Next it = ebind (eassert (Valid it)) (\<lambda>_. ebind (ParseNextKey it) (\<lambda>(_, it). Inr it))"

text \<open>Backwards to a restart point before the current entry; \<open>None\<close> when there is none.\<close>

fun prev_restart :: "Iter \<Rightarrow> nat \<Rightarrow> nat \<Rightarrow> nat option res" where
  "prev_restart it original 0 =
     ebind (GetRestartPoint it 0) (\<lambda>r. Inr (if original \<le> r then None else Some 0))"
| "prev_restart it original (Suc i) =
     ebind (GetRestartPoint it (Suc i)) (\<lambda>r. if original \<le> r then prev_restart it original i else Inr (Some (Suc i)))"

definition Iter_Prev :: "Iter \<Rightarrow> Iter res" where
  "Iter_Prev it =
     ebind (eassert (Valid it)) (\<lambda>_.
     let original = it_current it in
     ebind (prev_restart it original (it_restart_index it)) (\<lambda>x.
       case x of
         None \<Rightarrow> Inr (it\<lparr>it_current := it_restarts it, it_restart_index := it_num_restarts it\<rparr>)
       | Some i \<Rightarrow>
           ebind (SeekToRestartPoint i it) (parse_while (it_restarts it + 1) (ends_before original))))"

text \<open>The binary search; \<open>None\<close> when it meets a bad entry.\<close>

fun seek_search ::
  "nat \<Rightarrow> (byte list \<Rightarrow> byte list \<Rightarrow> int) \<Rightarrow> byte list \<Rightarrow> Iter \<Rightarrow> nat \<Rightarrow> nat \<Rightarrow> nat option res" where
  "seek_search 0 cmp target it left right = (if left < right then Inl (Diverges ''Seek'') else Inr (Some left))"
| "seek_search (Suc n) cmp target it left right =
     (if left < right then
        let mid = u32 (left + right + 1) div 2 in
        ebind (GetRestartPoint it mid) (\<lambda>region_offset.
        ebind (offset_in (it_data it) region_offset) (\<lambda>p.
        ebind (DecodeEntry (it_data it) p (it_restarts it)) (\<lambda>x.
          case x of
            None \<Rightarrow> Inr None
          | Some (shared, non_shared, value_length, key_ptr) \<Rightarrow>
              if shared \<noteq> 0 then Inr None
              else
                ebind (mem_read (it_data it) key_ptr non_shared) (\<lambda>mid_key.
                  if cmp mid_key target < 0 then seek_search n cmp target it mid right
                  else seek_search n cmp target it left (u32_sub mid 1)))))
      else Inr (Some left))"

definition Iter_Seek :: "(byte list \<Rightarrow> byte list \<Rightarrow> int) \<Rightarrow> byte list \<Rightarrow> Iter \<Rightarrow> Iter res" where
  "Iter_Seek cmp target it =
     ebind (seek_search (it_num_restarts it) cmp target it 0 (u32_sub (it_num_restarts it) 1)) (\<lambda>x.
       case x of
         None \<Rightarrow> Inr (CorruptionError it)
       | Some left \<Rightarrow>
           ebind (SeekToRestartPoint left it)
             (parse_while (it_restarts it + 1) (\<lambda>it. Inr (cmp (it_key it) target < 0))))"

definition Iter_SeekToFirst :: "Iter \<Rightarrow> Iter res" where
  "Iter_SeekToFirst it = ebind (SeekToRestartPoint 0 it) (\<lambda>it. ebind (ParseNextKey it) (\<lambda>(_, it). Inr it))"

definition Iter_SeekToLast :: "Iter \<Rightarrow> Iter res" where
  "Iter_SeekToLast it =
     ebind (SeekToRestartPoint (u32_sub (it_num_restarts it) 1) it)
       (parse_while (it_restarts it + 1) (ends_before (it_restarts it)))"

text \<open>The iterators a block gives out; the error and the empty iterator have no entries.\<close>

datatype block_iterator = ErrorIterator block_status | EmptyIterator | BlockIter Iter

definition NewIterator :: "Block \<Rightarrow> block_iterator res" where
  "NewIterator b =
     (if bk_size b < 4 then Inr (ErrorIterator (Corruption ''bad block contents''))
      else
        ebind (NumRestarts (bk_data b) (bk_size b)) (\<lambda>num_restarts.
          if num_restarts = 0 then Inr EmptyIterator
          else ebind (new_Iter (bk_data b) (bk_restart_offset b) num_restarts) (\<lambda>it. Inr (BlockIter it))))"

end
