(* ===== verification/Sst_Block_Iter.thy ===== *)
theory Sst_Block_Iter
  imports Sst_Block
begin

text \<open>
  What the iterator of a block returns on the blocks the builder writes.
\<close>

section \<open>The layout of a block\<close>

text \<open>An entry: the number of bytes shared with the key before, the key, the value.\<close>

type_synonym entry = "nat \<times> byte list \<times> byte list"

definition entry_head :: "entry \<Rightarrow> byte list" where
  "entry_head = (\<lambda>(sh, k, v). EncodeVarint32 (of_nat sh) @ EncodeVarint32 (of_nat (length k - sh)) @ EncodeVarint32 (of_nat (length v)))"

definition entry_bytes :: "entry \<Rightarrow> byte list" where
  "entry_bytes e = entry_head e @ drop (fst e) (fst (snd e)) @ snd (snd e)"

definition body :: "entry list \<Rightarrow> byte list" where
  "body es = concat (map entry_bytes es)"

definition pos :: "entry list \<Rightarrow> nat \<Rightarrow> nat" where
  "pos es i = length (body (take i es))"

abbreviation sh_of :: "entry list \<Rightarrow> nat \<Rightarrow> nat" where
  "sh_of es i \<equiv> fst (es ! i)"

abbreviation key_of :: "entry list \<Rightarrow> nat \<Rightarrow> byte list" where
  "key_of es i \<equiv> fst (snd (es ! i))"

abbreviation val_of :: "entry list \<Rightarrow> nat \<Rightarrow> byte list" where
  "val_of es i \<equiv> snd (snd (es ! i))"

text \<open>Every key is the shared part of the key before and the rest that is stored.\<close>

definition chain :: "entry list \<Rightarrow> bool" where
  "chain es \<longleftrightarrow> (\<forall>i < length es. sh_of es i \<le> length (key_of es i) \<and> (i = 0 \<longrightarrow> sh_of es i = 0)
     \<and> (0 < i \<longrightarrow> sh_of es i \<le> length (key_of es (i - 1)) \<and> take (sh_of es i) (key_of es (i - 1)) = take (sh_of es i) (key_of es i)))"

text \<open>The entries at which the prefix is stored in full.\<close>

definition restart_points :: "entry list \<Rightarrow> nat list \<Rightarrow> bool" where
  "restart_points es ris \<longleftrightarrow> ris \<noteq> [] \<and> ris ! 0 = 0
     \<and> (\<forall>r \<in> set ris. r \<le> length es \<and> (es \<noteq> [] \<longrightarrow> r < length es \<and> sh_of es r = 0))"

definition block_bytes :: "entry list \<Rightarrow> nat list \<Rightarrow> byte list" where
  "block_bytes es ris = body es @ concat (map (\<lambda>r. EncodeFixed32 (of_nat (pos es r))) ris) @ EncodeFixed32 (of_nat (length ris))"

lemma length_fixed32 [simp]: "length (EncodeFixed32 v) = 4"
  by (simp add: EncodeFixed32_def)

lemma varint32_nonempty: "1 \<le> length (EncodeVarint32 v)"
  by (simp add: EncodeVarint32_def)

lemma entry_head_3: "3 \<le> length (entry_head e)"
proof -
  obtain sh k v where e: "e = (sh, k, v)" by (cases e)
  show ?thesis using varint32_nonempty [of "of_nat sh"] varint32_nonempty [of "of_nat (length k - sh)"]
    varint32_nonempty [of "of_nat (length v)"] unfolding e entry_head_def by simp
qed

lemma body_snoc: "body (es @ [e]) = body es @ entry_bytes e"
  by (simp add: body_def)

lemma pos_0 [simp]: "pos es 0 = 0"
  by (simp add: pos_def body_def)

lemma pos_all: "pos es (length es) = length (body es)"
  by (simp add: pos_def)

lemma pos_Suc: "i < length es \<Longrightarrow> pos es (Suc i) = pos es i + length (entry_bytes (es ! i))"
  by (simp add: pos_def take_Suc_conv_app_nth body_snoc)

lemma pos_Suc': "i < length es \<Longrightarrow>
  pos es (Suc i) = pos es i + length (entry_head (es ! i)) + (length (key_of es i) - sh_of es i) + length (val_of es i)"
  by (simp add: pos_Suc entry_bytes_def)

lemma pos_step: "i < length es \<Longrightarrow> pos es i + 3 \<le> pos es (Suc i)"
  using entry_head_3 [of "es ! i"] by (simp add: pos_Suc')

lemma pos_add: "i + d \<le> length es \<Longrightarrow> pos es i + 3 * d \<le> pos es (i + d)"
proof (induction d)
  case (Suc d)
  then show ?case using pos_step [of "i + d" es] by simp
qed simp

lemma pos_mono: "i \<le> j \<Longrightarrow> j \<le> length es \<Longrightarrow> pos es i \<le> pos es j"
  using pos_add [of i "j - i" es] by simp

lemma pos_less: "i \<le> length es \<Longrightarrow> j \<le> length es \<Longrightarrow> pos es i < pos es j \<longleftrightarrow> i < j"
  using pos_add [of i "j - i" es] pos_mono [of j i es] by (cases "i < j") (auto simp: not_less)

lemma pos_le_body: "i \<le> length es \<Longrightarrow> pos es i \<le> length (body es)"
  using pos_mono [of i "length es" es] by (simp add: pos_all)

lemma entries_le_body: "length es \<le> length (body es)"
  using pos_add [of 0 "length es" es] by (simp add: pos_all)

text \<open>The bytes of the body from an entry on.\<close>

lemma body_from: "i < length es \<Longrightarrow> drop (pos es i) (body es) = entry_bytes (es ! i) @ body (drop (Suc i) es)"
proof -
  assume i: "i < length es"
  have "body es = body (take i es) @ entry_bytes (es ! i) @ body (drop (Suc i) es)"
    unfolding body_def using i by (subst id_take_nth_drop [OF i]) simp
  then show ?thesis by (simp add: pos_def)
qed

text \<open>A key is not longer than what has been stored up to its end.\<close>

lemma key_fits: "chain es \<Longrightarrow> i < length es \<Longrightarrow> length (key_of es i) \<le> pos es (Suc i)"
proof (induction i)
  case 0
  then show ?case using pos_Suc' [of 0 es] by (auto simp: chain_def)
next
  case (Suc i)
  then have "length (key_of es i) \<le> pos es (Suc i)" by simp
  moreover have "sh_of es (Suc i) \<le> length (key_of es i)" using Suc.prems by (auto simp: chain_def)
  ultimately show ?case using pos_Suc' [of "Suc i" es] Suc.prems(2) by simp
qed

section \<open>Decoding an entry\<close>

text \<open>The three numbers of an entry, without the fast path for small ones.\<close>

definition three_varints :: "byte list \<Rightarrow> (32 word \<times> 32 word \<times> 32 word \<times> byte list) option" where
  "three_varints bs =
     (case GetVarint32Ptr bs of None \<Rightarrow> None | Some (a, bs) \<Rightarrow>
     (case GetVarint32Ptr bs of None \<Rightarrow> None | Some (b, bs) \<Rightarrow>
     (case GetVarint32Ptr bs of None \<Rightarrow> None | Some (c, bs) \<Rightarrow> Some (a, b, c, bs))))"

lemma one_byte: "unat b < 128 \<Longrightarrow> GetVarint32Ptr (b # bs) = Some (ucast b, bs)"
  using byte_more [of b] by (simp add: GetVarint32Ptr_loop)

lemma or_below_128: "unat (a OR b :: byte) < 128 \<longleftrightarrow> unat a < 128 \<and> unat b < 128"
  unfolding byte_more [symmetric] by (simp add: bit.conj_disj_distrib2 or_eq_0_iff)

lemma fast_path:
  assumes "3 \<le> length bs"
  shows "(if unat (bs ! 0 OR bs ! 1 OR bs ! 2) < 128 then Some (ucast (bs ! 0), ucast (bs ! 1), ucast (bs ! 2), drop 3 bs)
     else three_varints bs) = three_varints bs"
proof -
  obtain x y z r where "bs = x # y # z # r" using assms by (metis Suc_le_length_iff numeral_3_eq_3)
  then show ?thesis by (auto simp: three_varints_def or_below_128 one_byte)
qed

lemma DecodeEntry_varints:
  assumes "p + 3 \<le> limit" "limit \<le> length data"
  shows "DecodeEntry data p limit = Inr (case three_varints (take (limit - p) (drop p data)) of
     None \<Rightarrow> None
   | Some (a, b, c, bs) \<Rightarrow> if u32 (length bs) < unat (b + c) then None else Some (unat a, unat b, unat c, limit - length bs))"
  using assms fast_path [of "take (limit - p) (drop p data)"]
  unfolding DecodeEntry_def three_varints_def [symmetric] by (simp add: Let_def)

lemma unat_small: "n < 2 ^ 32 \<Longrightarrow> unat (of_nat n :: 32 word) = n"
  by (simp add: unat_of_nat take_bit_nat_eq_self)

lemma three_varints_head:
  "three_varints (entry_head (sh, k, v) @ ys) = Some (of_nat sh, of_nat (length k - sh), of_nat (length v), ys)"
  by (simp add: three_varints_def entry_head_def get_varint32)

lemma decode_entry:
  assumes c: "chain es" and i: "i < length es" and d: "data = body es @ tail" and fit: "length data < 2 ^ 32"
  shows "DecodeEntry data (pos es i) (length (body es))
     = Inr (Some (sh_of es i, length (key_of es i) - sh_of es i, length (val_of es i), pos es i + length (entry_head (es ! i))))"
proof -
  obtain sh k v where e: "es ! i = (sh, k, v)" by (cases "es ! i")
  let ?rest = "drop sh k @ v @ body (drop (Suc i) es)"
  have P: "pos es i + 3 \<le> length (body es)" using pos_step [OF i] pos_le_body [of "Suc i" es] i by simp
  have bs: "drop (pos es i) (body es) = entry_head (sh, k, v) @ ?rest" using body_from [OF i] by (simp add: e entry_bytes_def)
  have len: "length (body es) - pos es i = length (entry_head (sh, k, v)) + length ?rest"
    using arg_cong [OF bs, of length] P d by simp
  have k: "length k < 2 ^ 32" "sh \<le> length k"
    using key_fits [OF c i] pos_le_body [of "Suc i" es] i fit d c e by (auto simp: chain_def)
  have r: "length ?rest < 2 ^ 32" using len fit d P by simp
  define nk where "nk = length k - sh"
  have "nk < 2 ^ 32" using k(1) by (simp add: nk_def)
  then have n: "unat (of_nat nk :: 32 word) = nk" "unat (of_nat sh :: 32 word) = sh" "unat (of_nat (length v) :: 32 word) = length v"
    using k r by (simp_all add: unat_small)
  have "unat (of_nat nk + of_nat (length v) :: 32 word) = nk + length v"
    using unat_small [of "nk + length v"] r by (simp add: nk_def)
  moreover have "u32 (length ?rest) = length ?rest" using r by (simp add: u32_def)
  ultimately show ?thesis
    using P d len n by (subst DecodeEntry_varints) (simp_all add: bs three_varints_head e nk_def [symmetric])
qed

section \<open>Moving the iterator\<close>

text \<open>An iterator of the block; before entry \<open>i\<close>; at entry \<open>i\<close>.\<close>

definition iter_ok :: "entry list \<Rightarrow> nat list \<Rightarrow> Iter \<Rightarrow> bool" where
  "iter_ok es ris it \<longleftrightarrow> it_data it = block_bytes es ris \<and> it_restarts it = length (body es) \<and> it_num_restarts it = length ris
     \<and> it_status it = BlockOk"

definition before :: "entry list \<Rightarrow> nat list \<Rightarrow> Iter \<Rightarrow> nat \<Rightarrow> bool" where
  "before es ris it i \<longleftrightarrow> iter_ok es ris it \<and> it_restart_index it < length ris \<and> i \<le> length es \<and> NextEntryOffset it = Inr (pos es i)
     \<and> (i < length es \<longrightarrow> sh_of es i \<le> length (it_key it) \<and> take (sh_of es i) (it_key it) = take (sh_of es i) (key_of es i))"

definition at_entry :: "entry list \<Rightarrow> nat list \<Rightarrow> Iter \<Rightarrow> nat \<Rightarrow> bool" where
  "at_entry es ris it i \<longleftrightarrow> iter_ok es ris it \<and> it_restart_index it < length ris \<and> i < length es \<and> it_current it = pos es i
     \<and> it_key it = key_of es i \<and> it_value it = Some (pos es (Suc i) - length (val_of es i), length (val_of es i))"

definition at_end :: "entry list \<Rightarrow> nat list \<Rightarrow> Iter \<Rightarrow> bool" where
  "at_end es ris it \<longleftrightarrow> iter_ok es ris it \<and> \<not> Valid it"

text \<open>The blocks considered.\<close>

definition block_ok :: "entry list \<Rightarrow> nat list \<Rightarrow> bool" where
  "block_ok es ris \<longleftrightarrow> chain es \<and> restart_points es ris \<and> length (block_bytes es ris) < 2 ^ 32"

lemma block_length: "length (block_bytes es ris) = length (body es) + 4 * length ris + 4"
  by (simp add: block_bytes_def length_concat o_def sum_list_triv)

lemma block_okD:
  assumes "block_ok es ris"
  shows "chain es" "ris \<noteq> []" "ris ! 0 = 0" "length (body es) + 4 * length ris + 4 < 2 ^ 32"
    "\<And>j. j < length ris \<Longrightarrow> ris ! j \<le> length es \<and> (es \<noteq> [] \<longrightarrow> ris ! j < length es \<and> sh_of es (ris ! j) = 0)"
  using assms unfolding block_ok_def restart_points_def block_length by (auto simp: nth_mem)

lemma u32_body: "block_ok es ris \<Longrightarrow> n \<le> length (body es) + 4 * length ris + 4 \<Longrightarrow> u32 n = n"
  using block_okD(4) [of es ris] by (simp add: u32_def)

lemma restart_point:
  assumes B: "block_ok es ris" and it: "iter_ok es ris it" and j: "j < length ris"
  shows "GetRestartPoint it j = Inr (pos es (ris ! j))"
proof -
  let ?f = "\<lambda>r. EncodeFixed32 (of_nat (pos es r))"
  have "concat (map ?f ris) = concat (map ?f (take j ris)) @ ?f (ris ! j) @ concat (map ?f (drop (Suc j) ris))"
    by (subst id_take_nth_drop [OF j]) simp
  moreover have "length (concat (map ?f (take j ris))) = 4 * j" using j by (simp add: length_concat o_def sum_list_triv)
  ultimately have "take 4 (drop (length (body es) + j * 4) (block_bytes es ris)) = ?f (ris ! j)"
    by (simp add: block_bytes_def)
  then have "DecodeFixed32 (block_bytes es ris) (length (body es) + j * 4) = Inr (of_nat (pos es (ris ! j)))" by (rule decode32_at)
  moreover have "unat (of_nat (pos es (ris ! j)) :: 32 word) = pos es (ris ! j)"
    using block_okD(4,5) [OF B] pos_le_body [of "ris ! j" es] j by (intro unat_small) fastforce
  ultimately show ?thesis using it j by (simp add: GetRestartPoint_def iter_ok_def eassert_def)
qed

lemma seek_restart:
  assumes B: "block_ok es ris" and it: "iter_ok es ris it" and j: "j < length ris"
  shows "\<exists>it'. SeekToRestartPoint j it = Inr it' \<and> before es ris it' (ris ! j)"
proof -
  have le: "pos es (ris ! j) \<le> length (body es)" using block_okD(5) [OF B j] by (simp add: pos_le_body)
  have "iter_ok es ris (it\<lparr>it_key := [], it_restart_index := j, it_value := Some (pos es (ris ! j), 0)\<rparr>)" using it by (simp add: iter_ok_def)
  then show ?thesis using restart_point [OF B it j] le j it block_okD(5) [OF B j] u32_body [OF B, of "pos es (ris ! j)"]
    by (auto simp: SeekToRestartPoint_def before_def NextEntryOffset_def offset_in_def iter_ok_def block_length)
qed

lemma at_before: "block_ok es ris \<Longrightarrow> at_entry es ris it i \<Longrightarrow> before es ris it (Suc i)"
proof -
  assume B: "block_ok es ris" and a: "at_entry es ris it i"
  have "pos es (Suc i) \<le> length (body es)" using a by (intro pos_le_body) (simp add: at_entry_def)
  moreover have "length (val_of es i) \<le> pos es (Suc i)" using a by (simp add: at_entry_def pos_Suc')
  ultimately have "NextEntryOffset it = Inr (pos es (Suc i))"
    using a u32_body [OF B, of "pos es (Suc i)"] by (simp add: at_entry_def NextEntryOffset_def offset_in_def iter_ok_def block_length)
  then show ?thesis using a block_okD(1) [OF B] by (auto simp: before_def at_entry_def chain_def)
qed

lemma next_restart_ok:
  assumes B: "block_ok es ris" and it: "iter_ok es ris it"
  shows "ri < length ris \<Longrightarrow> length ris - ri \<le> n \<Longrightarrow> \<exists>r < length ris. next_restart n it ri = Inr r"
proof (induction n arbitrary: ri)
  case (Suc n)
  have u: "u32 (ri + 1) = ri + 1" using Suc.prems by (intro u32_body [OF B]) simp
  have num: "it_num_restarts it = length ris" using it by (simp add: iter_ok_def)
  show ?case
  proof (cases "ri + 1 < length ris")
    case True
    have "\<exists>r < length ris. next_restart n it (ri + 1) = Inr r" using Suc.IH [of "ri + 1"] Suc.prems True by simp
    then show ?thesis using True Suc.prems(1) restart_point [OF B it True] num unfolding next_restart.simps u by auto
  next
    case False
    then show ?thesis using Suc.prems num unfolding next_restart.simps u by auto
  qed
qed simp

declare next_restart.simps [simp del]

lemma parse_entry:
  assumes B: "block_ok es ris" and b: "before es ris it i" and i: "i < length es"
  shows "\<exists>it'. ParseNextKey it = Inr (True, it') \<and> at_entry es ris it' i"
proof -
  obtain sh k v where e: "es ! i = (sh, k, v)" by (cases "es ! i")
  let ?p = "pos es i + length (entry_head (es ! i))"
  have off: "NextEntryOffset it = Inr (pos es i)" and it: "iter_ok es ris it" and ri: "it_restart_index it < length ris"
    and sh: "sh \<le> length (it_key it)" "take sh (it_key it) = take sh k" using b i e by (auto simp: before_def)
  have P: "pos es i < length (body es)" "pos es (Suc i) \<le> length (body es)" using pos_step [OF i] pos_le_body [of "Suc i" es] i by simp_all
  have S: "pos es (Suc i) = ?p + (length k - sh) + length v" using pos_Suc' [OF i] e by simp
  have dec: "DecodeEntry (block_bytes es ris) (pos es i) (length (body es)) = Inr (Some (sh, length k - sh, length v, ?p))"
    using decode_entry [OF block_okD(1) [OF B] i, of "block_bytes es ris"] B e by (simp add: block_bytes_def block_ok_def)
  have "drop ?p (body es) = drop sh k @ v @ body (drop (Suc i) es)"
    using arg_cong [OF body_from [OF i], of "drop (length (entry_head (es ! i)))"] e by (simp add: entry_bytes_def add.commute)
  then have d: "mem_read (block_bytes es ris) ?p (length k - sh) = Inr (drop sh k)"
    using S P by (simp add: block_length) (simp add: block_bytes_def)
  define it1 where "it1 = it\<lparr>it_current := pos es i, it_key := k, it_value := Some (?p + (length k - sh), length v)\<rparr>"
  have it1: "iter_ok es ris it1" using it by (simp add: it1_def iter_ok_def)
  have "length ris - it_restart_index it \<le> length ris + 1" by simp
  from next_restart_ok [OF B it1 ri this] obtain r where
    r: "r < length ris" "next_restart (length ris + 1) it1 (it_restart_index it) = Inr r" by blast
  have "sh \<le> length k" using block_okD(1) [OF B] i e by (auto simp: chain_def)
  then have "ParseNextKey it = Inr (True, it1\<lparr>it_restart_index := r\<rparr>)"
    using off P sh dec d r(2) it unfolding ParseNextKey_def iter_ok_def by (simp add: it1_def Let_def)
  moreover have "at_entry es ris (it1\<lparr>it_restart_index := r\<rparr>) i"
    using r(1) i it e S by (simp add: at_entry_def it1_def iter_ok_def)
  ultimately show ?thesis by blast
qed

lemma parse_end:
  assumes "before es ris it (length es)"
  shows "\<exists>it'. ParseNextKey it = Inr (False, it') \<and> at_end es ris it'"
  using assms by (auto simp: before_def ParseNextKey_def pos_all iter_ok_def at_end_def Valid_def Let_def)

text \<open>The first entry from \<open>i\<close> on at which the loop stops.\<close>

definition stop :: "(nat \<Rightarrow> bool) \<Rightarrow> nat \<Rightarrow> nat \<Rightarrow> nat" where
  "stop Q i n = i + length (takeWhile Q [i..<n])"

lemma stop_step: "i < n \<Longrightarrow> stop Q i n = (if Q i then stop Q (Suc i) n else i)"
  by (simp add: stop_def upt_conv_Cons)

definition cursor :: "entry list \<Rightarrow> nat list \<Rightarrow> Iter \<Rightarrow> nat \<Rightarrow> bool" where
  "cursor es ris it c \<longleftrightarrow> (c < length es \<and> at_entry es ris it c) \<or> (c = length es \<and> at_end es ris it)"

lemma parse_while_stop:
  assumes B: "block_ok es ris" and Q: "\<And>it j. at_entry es ris it j \<Longrightarrow> cond it = Inr (Q j)"
  shows "before es ris it i \<Longrightarrow> length es - i < n \<Longrightarrow> \<exists>it'. parse_while n cond it = Inr it' \<and> cursor es ris it' (stop Q i (length es))"
proof (induction n arbitrary: it i)
  case (Suc n)
  show ?case
  proof (cases "i < length es")
    case True
    obtain it' where p: "ParseNextKey it = Inr (True, it')" "at_entry es ris it' i" using parse_entry [OF B Suc.prems(1) True] by blast
    show ?thesis
    proof (cases "Q i")
      case q: True
      have "\<exists>it''. parse_while n cond it' = Inr it'' \<and> cursor es ris it'' (stop Q (Suc i) (length es))"
        using Suc.IH [OF at_before [OF B p(2)]] Suc.prems(2) True by simp
      then show ?thesis using p Q [OF p(2)] q True by (simp add: stop_step)
    next
      case False
      then show ?thesis using p Q [OF p(2)] True by (simp add: stop_step cursor_def)
    qed
  next
    case False
    then have i: "i = length es" using Suc.prems(1) by (simp add: before_def)
    then show ?thesis using parse_end [of es ris it] Suc.prems(1) by (auto simp: stop_def cursor_def)
  qed
qed simp

declare parse_while.simps [simp del]

section \<open>The operations\<close>

lemma cursor_iter: "cursor es ris it c \<Longrightarrow> iter_ok es ris it"
  by (auto simp: cursor_def at_entry_def at_end_def)

lemma at_entry_valid: "at_entry es ris it i \<Longrightarrow> Valid it"
  using pos_less [of i es "length es"] by (simp add: at_entry_def Valid_def iter_ok_def pos_all)

lemma parse_cursor:
  assumes B: "block_ok es ris" and b: "before es ris it i"
  shows "\<exists>ok it'. ParseNextKey it = Inr (ok, it') \<and> cursor es ris it' i"
proof (cases "i < length es")
  case True
  then show ?thesis using parse_entry [OF B b True] by (auto simp: cursor_def)
next
  case False
  then have "i = length es" using b by (simp add: before_def)
  then show ?thesis using parse_end [of es ris it] b by (auto simp: cursor_def)
qed

lemma seek_first:
  assumes B: "block_ok es ris" and it: "iter_ok es ris it"
  shows "\<exists>it'. Iter_SeekToFirst it = Inr it' \<and> cursor es ris it' 0"
proof -
  obtain it1 where s: "SeekToRestartPoint 0 it = Inr it1" "before es ris it1 0"
    using seek_restart [OF B it, of 0] block_okD(2,3) [OF B] by auto
  then show ?thesis using parse_cursor [OF B s(2)] by (auto simp: Iter_SeekToFirst_def)
qed

lemma enough_rounds: "iter_ok es ris it \<Longrightarrow> length es - i < it_restarts it + 1"
  using entries_le_body [of es] by (simp add: iter_ok_def)

lemma ends_before_entry: "block_ok es ris \<Longrightarrow> at_entry es ris it j \<Longrightarrow> ends_before m it = Inr (pos es (Suc j) < m)"
  using at_before [of es ris it j] by (simp add: before_def ends_before_def)

lemma stop_at:
  assumes "i \<le> m" "m < n" "\<And>j. i \<le> j \<Longrightarrow> j < m \<Longrightarrow> Q j" "\<not> Q m"
  shows "stop Q i n = m"
  using assms
proof (induction "m - i" arbitrary: i)
  case 0
  then show ?case by (simp add: stop_step)
next
  case (Suc d)
  then show ?case by (simp add: stop_step)
qed

lemma last_restart:
  assumes "block_ok es ris" "iter_ok es ris it"
  shows "u32_sub (it_num_restarts it) 1 = length ris - 1"
proof -
  have "1 \<le> length ris" "length ris < 4294967296" using block_okD(2,4) [OF assms(1)] by (simp_all add: Suc_le_eq)
  then show ?thesis using assms(2) by (simp add: iter_ok_def u32_sub_id)
qed

lemma seek_last:
  assumes B: "block_ok es ris" and it: "iter_ok es ris it"
  shows "\<exists>it'. Iter_SeekToLast it = Inr it' \<and> cursor es ris it' (length es - 1)"
proof -
  define l where "l = length ris - 1"
  have l: "l < length ris" "u32_sub (it_num_restarts it) 1 = l"
    using block_okD(2) [OF B] last_restart [OF B it] by (auto simp: l_def)
  obtain it1 where s: "SeekToRestartPoint l it = Inr it1" "before es ris it1 (ris ! l)" using seek_restart [OF B it l(1)] by blast
  let ?Q = "\<lambda>j. pos es (Suc j) < length (body es)"
  have r: "it_restarts it = length (body es)" using it by (simp add: iter_ok_def)
  have "\<exists>it'. parse_while (it_restarts it + 1) (ends_before (it_restarts it)) it1 = Inr it' \<and> cursor es ris it' (stop ?Q (ris ! l) (length es))"
    by (rule parse_while_stop [OF B _ s(2)]) (simp_all only: ends_before_entry [OF B] r enough_rounds [OF it, unfolded r])
  moreover have "stop ?Q (ris ! l) (length es) = length es - 1"
  proof (cases "es = []")
    case True
    then show ?thesis using block_okD(5) [OF B l(1)] by (simp add: stop_def)
  next
    case False
    then have rl: "ris ! l < length es" using block_okD(5) [OF B l(1)] by simp
    show ?thesis
    proof (rule stop_at)
      show "pos es (Suc j) < length (body es)" if "j < length es - 1" for j
        using pos_less [of "Suc j" es "length es"] that by (simp add: pos_all)
      show "\<not> pos es (Suc (length es - 1)) < length (body es)" using False by (simp add: pos_all)
    qed (use rl in auto)
  qed
  ultimately show ?thesis using s(1) l(2) by (simp add: Iter_SeekToLast_def)
qed

lemma next_entry:
  assumes B: "block_ok es ris" and a: "at_entry es ris it i"
  shows "\<exists>it'. Iter_Next it = Inr it' \<and> cursor es ris it' (Suc i)"
  using parse_cursor [OF B at_before [OF B a]] at_entry_valid [OF a] by (auto simp: Iter_Next_def eassert_def)

lemma prev_restart_ok:
  assumes B: "block_ok es ris" and it: "iter_ok es ris it" and i: "i < length es"
  shows "j < length ris \<Longrightarrow> \<exists>x. prev_restart it (pos es i) j = Inr x
     \<and> (case x of None \<Rightarrow> i = 0 | Some r \<Rightarrow> r < length ris \<and> ris ! r < i)"
proof (induction j)
  case 0
  then show ?case using restart_point [OF B it 0] block_okD(3) [OF B] pos_less [of 0 es i] i by auto
next
  case (Suc j)
  have "ris ! Suc j < length es" using block_okD(5) [OF B Suc.prems] i by auto
  then have "pos es (ris ! Suc j) < pos es i \<longleftrightarrow> ris ! Suc j < i" using i by (intro pos_less) auto
  then show ?case using restart_point [OF B it Suc.prems] Suc by (auto simp: not_le)
qed

lemma prev_entry:
  assumes B: "block_ok es ris" and a: "at_entry es ris it i"
  shows "\<exists>it'. Iter_Prev it = Inr it' \<and> cursor es ris it' (if i = 0 then length es else i - 1)"
proof -
  have it: "iter_ok es ris it" and i: "i < length es" and c: "it_current it = pos es i" and ri: "it_restart_index it < length ris"
    using a by (simp_all add: at_entry_def)
  obtain x where x: "prev_restart it (pos es i) (it_restart_index it) = Inr x"
    "case x of None \<Rightarrow> i = 0 | Some r \<Rightarrow> r < length ris \<and> ris ! r < i" using prev_restart_ok [OF B it i ri] by blast
  show ?thesis
  proof (cases x)
    case None
    then show ?thesis using x c it at_entry_valid [OF a]
      by (auto simp: Iter_Prev_def eassert_def cursor_def at_end_def iter_ok_def Valid_def)
  next
    case (Some r)
    then have r: "r < length ris" "ris ! r < i" using x(2) by simp_all
    obtain it1 where s: "SeekToRestartPoint r it = Inr it1" "before es ris it1 (ris ! r)" using seek_restart [OF B it r(1)] by blast
    let ?Q = "\<lambda>j. pos es (Suc j) < pos es i"
    have "\<exists>it'. parse_while (it_restarts it + 1) (ends_before (pos es i)) it1 = Inr it' \<and> cursor es ris it' (stop ?Q (ris ! r) (length es))"
      by (rule parse_while_stop [OF B _ s(2)]) (simp_all only: ends_before_entry [OF B] enough_rounds [OF it])
    moreover have "stop ?Q (ris ! r) (length es) = i - 1" using r i pos_less [of _ es i] by (intro stop_at) auto
    ultimately show ?thesis using x(1) Some s(1) c r(2) at_entry_valid [OF a] by (simp add: Iter_Prev_def eassert_def Let_def)
  qed
qed

lemma decode_restart:
  assumes B: "block_ok es ris" and it: "iter_ok es ris it" and j: "j < length ris" and ne: "es \<noteq> []"
  shows "\<exists>p n. offset_in (it_data it) (pos es (ris ! j)) = Inr (pos es (ris ! j))
     \<and> DecodeEntry (it_data it) (pos es (ris ! j)) (it_restarts it) = Inr (Some (0, length (key_of es (ris ! j)), n, p))
     \<and> mem_read (it_data it) p (length (key_of es (ris ! j))) = Inr (key_of es (ris ! j))"
proof -
  define i where "i = ris ! j"
  have i: "i < length es" and sh: "sh_of es i = 0" using block_okD(5) [OF B j] ne by (simp_all add: i_def)
  obtain k v where e: "es ! i = (0, k, v)" using sh by (cases "es ! i") simp
  let ?p = "pos es i + length (entry_head (es ! i))"
  have P: "pos es i \<le> length (body es)" "pos es (Suc i) \<le> length (body es)" using pos_le_body i by simp_all
  have S: "pos es (Suc i) = ?p + length k + length v" using pos_Suc' [OF i] e by simp
  have "DecodeEntry (block_bytes es ris) (pos es i) (length (body es)) = Inr (Some (0, length k, length v, ?p))"
    using decode_entry [OF block_okD(1) [OF B] i, of "block_bytes es ris"] B e by (simp add: block_bytes_def block_ok_def)
  moreover have "drop ?p (body es) = k @ v @ body (drop (Suc i) es)"
    using arg_cong [OF body_from [OF i], of "drop (length (entry_head (es ! i)))"] e by (simp add: entry_bytes_def add.commute)
  then have "mem_read (block_bytes es ris) ?p (length k) = Inr k"
    using S P by (simp add: block_length) (simp add: block_bytes_def)
  ultimately show ?thesis using it P e unfolding i_def [symmetric] iter_ok_def by (auto simp: offset_in_def block_length)
qed

text \<open>The binary search ends at a restart point whose key is below the target, or at the first.\<close>

lemma seek_search_ok:
  assumes B: "block_ok es ris" and it: "iter_ok es ris it" and ne: "es \<noteq> [] \<or> length ris = 1"
  shows "left \<le> right \<Longrightarrow> right < length ris \<Longrightarrow> right - left \<le> n \<Longrightarrow> left = 0 \<or> cmp (key_of es (ris ! left)) target < 0 \<Longrightarrow>
     \<exists>j < length ris. seek_search n cmp target it left right = Inr (Some j) \<and> (j = 0 \<or> cmp (key_of es (ris ! j)) target < 0)"
proof (induction n arbitrary: left right)
  case (Suc n)
  show ?case
  proof (cases "left < right")
    case True
    define mid where "mid = (left + right + 1) div 2"
    have mid: "left < mid" "mid \<le> right" using True by (auto simp: mid_def)
    have u: "u32 (left + right + 1) = left + right + 1" using Suc.prems(1,2) by (intro u32_body [OF B]) simp
    have s: "u32_sub mid 1 = mid - 1" using mid Suc.prems(2) block_okD(4) [OF B] by (intro u32_sub_id) auto
    have m: "mid < length ris" using mid Suc.prems(2) by simp
    then have "es \<noteq> []" using ne mid by auto
    from decode_restart [OF B it m this] restart_point [OF B it m]
    have "seek_search (Suc n) cmp target it left right = (if cmp (key_of es (ris ! mid)) target < 0
        then seek_search n cmp target it mid right else seek_search n cmp target it left (mid - 1))"
      using True s unfolding seek_search.simps u mid_def [symmetric] by (auto simp: Let_def)
    then show ?thesis using Suc.IH [of mid right] Suc.IH [of left "mid - 1"] Suc.prems mid m by auto
  next
    case False
    then show ?thesis using Suc.prems by auto
  qed
qed auto

lemma stop_takeWhile: "i \<le> length xs \<Longrightarrow> stop (\<lambda>j. P (xs ! j)) i (length xs) = i + length (takeWhile P (drop i xs))"
proof (induction "length xs - i" arbitrary: i)
  case 0
  then show ?case by (simp add: stop_def)
next
  case (Suc d)
  then have i: "i < length xs" by simp
  have "drop i xs = xs ! i # drop (Suc i) xs" using i by (simp add: Cons_nth_drop_Suc)
  moreover have "stop (\<lambda>j. P (xs ! j)) (Suc i) (length xs) = Suc i + length (takeWhile P (drop (Suc i) xs))" using Suc i by simp
  ultimately show ?case using stop_step [OF i, of "\<lambda>j. P (xs ! j)"] by simp
qed

lemma takeWhile_from:
  assumes "\<And>j. j < i \<Longrightarrow> P (xs ! j)" "i \<le> length xs"
  shows "length (takeWhile P xs) = i + length (takeWhile P (drop i xs))"
proof -
  have "\<forall>x \<in> set (take i xs). P x" using assms by (auto simp: in_set_conv_nth)
  then have "takeWhile P (take i xs @ drop i xs) = take i xs @ takeWhile P (drop i xs)" by (intro takeWhile_append2) auto
  then show ?thesis using assms(2) by (metis append_take_drop_id length_append length_take min.absorb2)
qed

context comparator
begin

lemma seek_entry:
  assumes B: "block_ok es ris" and it: "iter_ok es ris it" and S: "sorted_wrt (\<lambda>x y. cmp (fst x) (fst y) < 0) (map snd es)"
    and ne: "es \<noteq> [] \<or> length ris = 1"
  shows "\<exists>it'. Iter_Seek cmp target it = Inr it' \<and> cursor es ris it' (length (takeWhile (\<lambda>kv. cmp (fst kv) target < 0) (map snd es)))"
proof -
  let ?P = "\<lambda>kv. cmp (fst kv) target < 0" and ?kvs = "map snd es"
  have nr: "it_num_restarts it = length ris" "u32_sub (it_num_restarts it) 1 = length ris - 1"
    using it last_restart [OF B it] by (auto simp: iter_ok_def)
  obtain j where j: "j < length ris" "seek_search (it_num_restarts it) cmp target it 0 (length ris - 1) = Inr (Some j)"
    "j = 0 \<or> cmp (key_of es (ris ! j)) target < 0"
    using seek_search_ok [OF B it ne, of 0 "length ris - 1" "length ris" cmp target] block_okD(2) [OF B] nr(1) by auto
  obtain it1 where s: "SeekToRestartPoint j it = Inr it1" "before es ris it1 (ris ! j)" using seek_restart [OF B it j(1)] by blast
  have le: "ris ! j \<le> length es" using block_okD(5) [OF B j(1)] by simp
  have Q: "Inr (cmp (it_key it) target < 0) = Inr (?P (?kvs ! i))" if "at_entry es ris it i" for it i
    using that by (simp add: at_entry_def)
  have "\<exists>it'. parse_while (it_restarts it + 1) (\<lambda>it. Inr (cmp (it_key it) target < 0)) it1 = Inr it'
      \<and> cursor es ris it' (stop (\<lambda>i. ?P (?kvs ! i)) (ris ! j) (length es))"
    by (rule parse_while_stop [OF B Q s(2) enough_rounds [OF it]])
  moreover have "stop (\<lambda>i. ?P (?kvs ! i)) (ris ! j) (length es) = length (takeWhile ?P ?kvs)"
  proof -
    have "?P (?kvs ! i)" if "i < ris ! j" for i
    proof -
      have r: "j \<noteq> 0" "ris ! j < length es" using that block_okD(3) [OF B] block_okD(5) [OF B j(1)] by (auto intro: gr0I)
      then have "?P (?kvs ! (ris ! j))" using j(3) by simp
      then show ?thesis using below_first [OF S, of "ris ! j"] below_first [OF S, of i] that r by simp
    qed
    then show ?thesis using takeWhile_from [of "ris ! j" ?P ?kvs] stop_takeWhile [of "ris ! j" ?kvs ?P] le by simp
  qed
  ultimately show ?thesis using j(2) nr(2) s(1) by (simp add: Iter_Seek_def)
qed

end

end
