(* ===== verification/Sst_Block_Refines.thy ===== *)
theory Sst_Block_Refines
  imports Sst_Block_Iter
begin

text \<open>
  Building a block and using it: the iterator of a block the builder has written refines a cursor
  in the list of the entries added.
\<close>

section \<open>Building\<close>

text \<open>What \<^verbatim>\<open>TableBuilder\<close> does with a block: entries one after the other, then \<^verbatim>\<open>Finish\<close>.\<close>

fun add_all ::
  "(byte list \<Rightarrow> byte list \<Rightarrow> int) \<Rightarrow> int \<Rightarrow> (byte list \<times> byte list) list \<Rightarrow> BlockBuilder \<Rightarrow> BlockBuilder res" where
  "add_all cmp block_restart_interval [] b = Inr b"
| "add_all cmp block_restart_interval (kv # kvs) b =
     ebind (BlockBuilder_Add cmp block_restart_interval (fst kv) (snd kv) b) (add_all cmp block_restart_interval kvs)"

definition build_block ::
  "(byte list \<Rightarrow> byte list \<Rightarrow> int) \<Rightarrow> int \<Rightarrow> (byte list \<times> byte list) list \<Rightarrow> byte list res" where
  "build_block cmp block_restart_interval kvs =
     ebind (new_BlockBuilder block_restart_interval) (\<lambda>b.
     ebind (add_all cmp block_restart_interval kvs b) (\<lambda>b. Inr (fst (BlockBuilder_Finish b))))"

definition builder_rep :: "int \<Rightarrow> entry list \<Rightarrow> nat list \<Rightarrow> BlockBuilder \<Rightarrow> bool" where
  "builder_rep k es ris b \<longleftrightarrow> bb_buffer b = body es \<and> bb_restarts b = map (\<lambda>r. of_nat (pos es r)) ris \<and> \<not> bb_finished b
     \<and> 0 \<le> bb_counter b \<and> bb_counter b \<le> k \<and> (es = [] \<longrightarrow> bb_counter b = 0 \<and> length ris = 1)
     \<and> bb_last_key b = (if es = [] then [] else key_of es (length es - 1)) \<and> chain es \<and> restart_points es ris"

lemma pos_snoc: "i \<le> length es \<Longrightarrow> pos (es @ [e]) i = pos es i"
  by (simp add: pos_def)

lemma difference_take: "take (difference_offset a b) a = take (difference_offset a b) b"
  "difference_offset a b \<le> length a" "difference_offset a b \<le> length b"
  by (induction a b rule: list_induct2') auto

lemma chain_snoc:
  assumes "chain es" "sh \<le> length k" "es = [] \<Longrightarrow> sh = 0"
    "es \<noteq> [] \<Longrightarrow> sh \<le> length (key_of es (length es - 1)) \<and> take sh (key_of es (length es - 1)) = take sh k"
  shows "chain (es @ [(sh, k, v)])"
  using assms unfolding chain_def by (auto simp: nth_append less_Suc_eq)

lemma restart_points_snoc:
  assumes "restart_points es ris" "es = [] \<Longrightarrow> fst e = 0"
  shows "restart_points (es @ [e]) ris"
    and "es \<noteq> [] \<Longrightarrow> fst e = 0 \<Longrightarrow> restart_points (es @ [e]) (ris @ [length es])"
  using assms unfolding restart_points_def by (auto simp: nth_append less_Suc_eq)

lemma body_empty: "body es = [] \<longleftrightarrow> es = []"
proof
  assume "body es = []"
  then show "es = []" using entries_le_body [of es] by simp
qed (simp add: body_def)

lemma add_entry:
  assumes R: "builder_rep k es ris b" and k: "1 \<le> k" "k < 2 ^ 31"
    and lt: "es \<noteq> [] \<Longrightarrow> 0 < cmp key (key_of es (length es - 1))"
  shows "\<exists>sh ris' b'. BlockBuilder_Add cmp k key v b = Inr b' \<and> builder_rep k (es @ [(sh, key, v)]) ris' b'"
proof -
  let ?sh = "if bb_counter b < k then difference_offset (bb_last_key b) key else 0"
  let ?ris = "if bb_counter b < k then ris else ris @ [length es]"
  let ?b = "b\<lparr>bb_buffer := body (es @ [(?sh, key, v)]), bb_restarts := map (\<lambda>r. of_nat (pos (es @ [(?sh, key, v)]) r)) ?ris,
    bb_counter := (if bb_counter b < k then bb_counter b else 0) + 1, bb_last_key := key\<rparr>"
  note r = R [unfolded builder_rep_def]
  have emp: "es = [] \<Longrightarrow> bb_counter b < k" using r k by auto
  have rl: "\<And>i. i \<in> set ris \<Longrightarrow> i \<le> length es" using r by (simp add: restart_points_def)
  have pm: "map (\<lambda>r. of_nat (pos (es @ [e]) r) :: 32 word) ris = map (\<lambda>r. of_nat (pos es r)) ris" for e
    using rl by (auto simp: pos_snoc)
  have sh: "?sh \<le> length key" "?sh \<le> length (bb_last_key b)" "take ?sh (bb_last_key b) = take ?sh key"
    using difference_take [of "bb_last_key b" key] by auto
  have c32: "s32 (i + 1) = i + 1" if "0 \<le> i" "i < k" for i using that k by (simp add: s32_def)
  have key: "take ?sh (bb_last_key b) @ drop ?sh key = key" unfolding sh(3) by simp
  have "BlockBuilder_Add cmp k key v b = Inr ?b"
    using r emp lt key k c32 [of "bb_counter b"] c32 [of 0] pm
    by (auto simp: BlockBuilder_Add_def eassert_def body_empty body_snoc entry_bytes_def entry_head_def PutVarint32_def pos_snoc Let_def
        pos_all split: if_splits)
  moreover have "builder_rep k (es @ [(?sh, key, v)]) ?ris ?b"
  proof -
    have "chain (es @ [(?sh, key, v)])" using r sh emp by (intro chain_snoc) (auto split: if_splits)
    moreover have "restart_points (es @ [(?sh, key, v)]) ?ris"
      using r emp sh(2) restart_points_snoc [of es ris "(?sh, key, v)"] by auto
    ultimately show ?thesis using r k by (auto simp: builder_rep_def)
  qed
  ultimately show ?thesis by blast
qed

lemma add_all_entries:
  assumes k: "1 \<le> k" "k < 2 ^ 31"
  shows "builder_rep k es ris b \<Longrightarrow> sorted_wrt (\<lambda>x y. 0 < cmp (fst y) (fst x)) (map snd es @ kvs) \<Longrightarrow>
    \<exists>es' ris' b'. add_all cmp k kvs b = Inr b' \<and> builder_rep k es' ris' b' \<and> map snd es' = map snd es @ kvs"
proof (induction kvs arbitrary: es ris b)
  case Nil
  then show ?case by auto
next
  case (Cons kv kvs)
  have "0 < cmp (fst kv) (key_of es (length es - 1))" if "es \<noteq> []"
  proof -
    have "(snd (es ! (length es - 1))) \<in> set (map snd es)" using that by simp
    then show ?thesis using Cons.prems(2) by (auto simp: sorted_wrt_append)
  qed
  from add_entry [where cmp = cmp, OF Cons.prems(1) k this] obtain sh ris' b' where
    a: "BlockBuilder_Add cmp k (fst kv) (snd kv) b = Inr b'" "builder_rep k (es @ [(sh, fst kv, snd kv)]) ris' b'" by blast
  from Cons.IH [OF a(2)] Cons.prems(2) show ?case using a(1) by simp
qed

lemma foldl_put: "foldl PutFixed32 buf rs = buf @ concat (map EncodeFixed32 rs)"
  by (induction rs arbitrary: buf) (simp_all add: PutFixed32_def)

lemma build_ok:
  assumes "1 \<le> k" "k < 2 ^ 31" "sorted_wrt (\<lambda>x y. 0 < cmp (fst y) (fst x)) kvs"
  shows "\<exists>es ris. build_block cmp k kvs = Inr (block_bytes es ris) \<and> map snd es = kvs \<and> chain es \<and> restart_points es ris
     \<and> (es = [] \<longrightarrow> length ris = 1)"
proof -
  let ?b = "\<lparr>bb_buffer = [], bb_restarts = [0], bb_counter = 0, bb_finished = False, bb_last_key = []\<rparr>"
  have "builder_rep k [] [0] ?b" using assms(1) by (simp add: builder_rep_def body_def chain_def restart_points_def)
  from add_all_entries [where cmp = cmp, OF assms(1,2) this, of kvs] assms(3) obtain es ris b where
    a: "add_all cmp k kvs ?b = Inr b" "builder_rep k es ris b" "map snd es = kvs" by auto
  have "fst (BlockBuilder_Finish b) = block_bytes es ris"
    using a(2) by (simp add: BlockBuilder_Finish_def builder_rep_def foldl_put PutFixed32_def block_bytes_def o_def Let_def)
  then show ?thesis using a assms(1) by (auto simp: build_block_def new_BlockBuilder_def eassert_def builder_rep_def)
qed

lemma open_block:
  assumes "block_ok es ris"
  shows "\<exists>it. ebind (new_Block raw (block_bytes es ris)) NewIterator = Inr (BlockIter it) \<and> cursor es ris it (length es)"
proof -
  let ?d = "block_bytes es ris"
  note B = block_okD [OF assms]
  have len: "length ?d - 4 = length (body es) + 4 * length ris" by (simp add: block_length)
  have "take 4 (drop (length ?d - 4) ?d) = EncodeFixed32 (of_nat (length ris))" unfolding len
    by (simp add: block_bytes_def length_concat o_def sum_list_triv)
  then have "DecodeFixed32 ?d (length ?d - 4) = Inr (of_nat (length ris))" by (rule decode32_at)
  moreover have "unat (of_nat (length ris) :: 32 word) = length ris" using B(4) by (intro unat_small) simp
  ultimately have n: "NumRestarts ?d (length ?d) = Inr (length ris)" by (simp add: NumRestarts_def eassert_def block_length)
  have "u32 (length (body es)) = length (body es)" by (rule u32_body [OF assms]) simp
  then have "new_Block raw ?d = Inr \<lparr>bk_data = ?d, bk_size = length ?d, bk_restart_offset = length (body es)\<rparr>"
    using n by (simp add: new_Block_def Let_def block_length)
  then show ?thesis using n B(2)
    by (simp add: NewIterator_def new_Iter_def eassert_def cursor_def at_end_def iter_ok_def Valid_def block_length)
qed

section \<open>Refinement\<close>

datatype move = First | Last | Next | Prev | SeekTo "byte list"

fun iter_move :: "(byte list \<Rightarrow> byte list \<Rightarrow> int) \<Rightarrow> move \<Rightarrow> Iter \<Rightarrow> Iter res" where
  "iter_move cmp First it = Iter_SeekToFirst it"
| "iter_move cmp Last it = Iter_SeekToLast it"
| "iter_move cmp Next it = Iter_Next it"
| "iter_move cmp Prev it = Iter_Prev it"
| "iter_move cmp (SeekTo target) it = Iter_Seek cmp target it"

fun iter_moves :: "(byte list \<Rightarrow> byte list \<Rightarrow> int) \<Rightarrow> move list \<Rightarrow> Iter \<Rightarrow> Iter res" where
  "iter_moves cmp [] it = Inr it"
| "iter_moves cmp (m # ms) it = ebind (iter_move cmp m it) (iter_moves cmp ms)"

text \<open>
  The specification: a position in the list of entries, behind the last when there is no current
  entry. To step from there is not allowed.
\<close>

fun list_move :: "(byte list \<Rightarrow> byte list \<Rightarrow> int) \<Rightarrow> (byte list \<times> byte list) list \<Rightarrow> move \<Rightarrow> nat \<Rightarrow> nat option" where
  "list_move cmp kvs First c = Some 0"
| "list_move cmp kvs Last c = Some (length kvs - 1)"
| "list_move cmp kvs Next c = (if c < length kvs then Some (c + 1) else None)"
| "list_move cmp kvs Prev c = (if c < length kvs then Some (if c = 0 then length kvs else c - 1) else None)"
| "list_move cmp kvs (SeekTo t) c = Some (length (takeWhile (\<lambda>kv. cmp (fst kv) t < 0) kvs))"

fun list_moves :: "(byte list \<Rightarrow> byte list \<Rightarrow> int) \<Rightarrow> (byte list \<times> byte list) list \<Rightarrow> move list \<Rightarrow> nat \<Rightarrow> nat option" where
  "list_moves cmp kvs [] c = Some c"
| "list_moves cmp kvs (m # ms) c = (case list_move cmp kvs m c of None \<Rightarrow> None | Some c \<Rightarrow> list_moves cmp kvs ms c)"

text \<open>What a client sees of an iterator.\<close>

definition observe :: "Iter \<Rightarrow> (byte list \<times> byte list) option res" where
  "observe it = (if Valid it then ebind (Iter_key it) (\<lambda>k. ebind (Iter_value it) (\<lambda>v. Inr (Some (k, v)))) else Inr None)"

lemma cursor_observe:
  assumes "block_ok es ris" "cursor es ris it c"
  shows "observe it = Inr (if c < length es then Some (snd (es ! c)) else None)" "it_status it = BlockOk" "c \<le> length es"
proof -
  show "it_status it = BlockOk" using cursor_iter [OF assms(2)] by (simp add: iter_ok_def)
  show "c \<le> length es" using assms(2) by (auto simp: cursor_def)
  show "observe it = Inr (if c < length es then Some (snd (es ! c)) else None)"
  proof (cases "c < length es")
    case True
    then have a: "at_entry es ris it c" using assms(2) by (auto simp: cursor_def)
    have le: "pos es (Suc c) \<le> length (body es)" using True by (intro pos_le_body) simp
    have "length (val_of es c) \<le> pos es (Suc c)" using True by (simp add: pos_Suc')
    moreover have "take (length (val_of es c)) (drop (pos es (Suc c) - length (val_of es c)) (block_bytes es ris)) = val_of es c"
    proof -
      let ?h = "length (entry_head (es ! c)) + (length (key_of es c) - sh_of es c)"
      have "drop (pos es c + ?h) (body es) = val_of es c @ body (drop (Suc c) es)"
        using arg_cong [OF body_from [OF True], of "drop ?h"] by (simp add: entry_bytes_def add.commute add.left_commute)
      moreover have "pos es (Suc c) - length (val_of es c) = pos es c + ?h" using True by (simp add: pos_Suc')
      ultimately show ?thesis using le by (simp add: block_bytes_def)
    qed
    ultimately have "mem_read (block_bytes es ris) (pos es (Suc c) - length (val_of es c)) (length (val_of es c)) = Inr (val_of es c)"
      using le by (simp add: block_length)
    then show ?thesis using a at_entry_valid [OF a] True
      by (simp add: observe_def Iter_key_def Iter_value_def eassert_def at_entry_def iter_ok_def)
  next
    case False
    then show ?thesis using assms(2) by (auto simp: cursor_def at_end_def observe_def)
  qed
qed

context comparator
begin

lemma move_refines:
  assumes B: "block_ok es ris" and S: "sorted_wrt (\<lambda>x y. cmp (fst x) (fst y) < 0) (map snd es)"
    and ne: "es \<noteq> [] \<or> length ris = 1" and c: "cursor es ris it c"
  shows "case list_move cmp (map snd es) m c of None \<Rightarrow> iter_move cmp m it = Inl (Exit ''assert'')
     | Some c' \<Rightarrow> \<exists>it'. iter_move cmp m it = Inr it' \<and> cursor es ris it' c'"
proof -
  note it = cursor_iter [OF c]
  have off: "\<not> Valid it" if "\<not> c < length es" using that c by (auto simp: cursor_def at_end_def)
  have on: "at_entry es ris it c" if "c < length es" using that c by (auto simp: cursor_def)
  show ?thesis
  proof (cases m)
    case Next
    then show ?thesis using next_entry [OF B on] off by (cases "c < length es") (auto simp: Iter_Next_def eassert_def)
  next
    case Prev
    then show ?thesis using prev_entry [OF B on] off by (cases "c < length es") (auto simp: Iter_Prev_def eassert_def)
  qed (use seek_first [OF B it] seek_last [OF B it] seek_entry [OF B it S ne] in simp_all)
qed

lemma moves_refine:
  assumes B: "block_ok es ris" and S: "sorted_wrt (\<lambda>x y. cmp (fst x) (fst y) < 0) (map snd es)"
    and ne: "es \<noteq> [] \<or> length ris = 1"
  shows "cursor es ris it c \<Longrightarrow> case list_moves cmp (map snd es) ms c of None \<Rightarrow> iter_moves cmp ms it = Inl (Exit ''assert'')
     | Some c' \<Rightarrow> \<exists>it'. iter_moves cmp ms it = Inr it' \<and> cursor es ris it' c'"
proof (induction ms arbitrary: it c)
  case (Cons m ms)
  show ?case
  proof (cases "list_move cmp (map snd es) m c")
    case None
    then show ?thesis using move_refines [OF B S ne Cons.prems, of m] by simp
  next
    case (Some c')
    then obtain it' where m: "iter_move cmp m it = Inr it'" "cursor es ris it' c'"
      using move_refines [OF B S ne Cons.prems, of m] by auto
    then show ?thesis using Some Cons.IH [OF m(2)] by (simp split: option.splits)
  qed
qed simp

lemma block_refines:
  assumes k: "1 \<le> k" "k < 2 ^ 31" and S: "sorted_wrt (\<lambda>x y. cmp (fst x) (fst y) < 0) kvs"
  shows "\<exists>data. build_block cmp k kvs = Inr data \<and> (length data < 2 ^ 32 \<longrightarrow>
     (\<exists>it. ebind (new_Block raw data) NewIterator = Inr (BlockIter it) \<and>
        (\<forall>ms. case list_moves cmp kvs ms (length kvs) of
           None \<Rightarrow> iter_moves cmp ms it = Inl (Exit ''assert'')
         | Some c \<Rightarrow> \<exists>it'. iter_moves cmp ms it = Inr it' \<and> it_status it' = BlockOk
             \<and> observe it' = Inr (if c < length kvs then Some (kvs ! c) else None))))"
proof -
  have "sorted_wrt (\<lambda>x y. 0 < cmp (fst y) (fst x)) kvs" using S by (simp add: cmp_swap)
  from build_ok [OF k this] obtain es ris where b: "build_block cmp k kvs = Inr (block_bytes es ris)" "map snd es = kvs" "chain es"
    "restart_points es ris" "es \<noteq> [] \<or> length ris = 1" by blast
  show ?thesis
  proof (rule exI [of _ "block_bytes es ris"], rule conjI [OF b(1)], rule impI)
    assume "length (block_bytes es ris) < 2 ^ 32"
    then have B: "block_ok es ris" using b by (simp add: block_ok_def)
    obtain it where it: "ebind (new_Block raw (block_bytes es ris)) NewIterator = Inr (BlockIter it)" "cursor es ris it (length es)"
      using open_block [OF B] by blast
    have "case list_moves cmp kvs ms (length kvs) of
        None \<Rightarrow> iter_moves cmp ms it = Inl (Exit ''assert'')
      | Some c \<Rightarrow> \<exists>it'. iter_moves cmp ms it = Inr it' \<and> it_status it' = BlockOk
          \<and> observe it' = Inr (if c < length kvs then Some (kvs ! c) else None)" for ms
      using moves_refine [OF B, unfolded b(2), OF S b(5) it(2), of ms] cursor_observe [OF B] b(2)
      by (auto split: option.splits)
    then show "\<exists>it. ebind (new_Block raw (block_bytes es ris)) NewIterator = Inr (BlockIter it) \<and>
        (\<forall>ms. case list_moves cmp kvs ms (length kvs) of
           None \<Rightarrow> iter_moves cmp ms it = Inl (Exit ''assert'')
         | Some c \<Rightarrow> \<exists>it'. iter_moves cmp ms it = Inr it' \<and> it_status it' = BlockOk
             \<and> observe it' = Inr (if c < length kvs then Some (kvs ! c) else None))" using it(1) by blast
  qed
qed

end

text \<open>
  C24: a block written by the builder from entries with rising keys is read as it was written: every
  sequence of operations of its iterator moves it through the list of entries as the specification
  says, and shows the key and value there; stepping from an invalid position fails an assertion.
  Binary search, prefix compression and restart points do not show.
\<close>

theorem block_iterator_refines:
  assumes "1 \<le> k" and "k < 2 ^ 31" and "sorted_wrt (\<lambda>x y. BytewiseCompare (fst x) (fst y) < 0) kvs"
  shows "\<exists>data. build_block BytewiseCompare k kvs = Inr data \<and> (length data < 2 ^ 32 \<longrightarrow>
     (\<exists>it. ebind (new_Block raw data) NewIterator = Inr (BlockIter it) \<and>
        (\<forall>ms. case list_moves BytewiseCompare kvs ms (length kvs) of
           None \<Rightarrow> iter_moves BytewiseCompare ms it = Inl (Exit ''assert'')
         | Some c \<Rightarrow> \<exists>it'. iter_moves BytewiseCompare ms it = Inr it' \<and> it_status it' = BlockOk
             \<and> observe it' = Inr (if c < length kvs then Some (kvs ! c) else None))))"
  using assms by (rule bytewise.block_refines)

definition sample_block :: "byte list" where
  "sample_block = [0, 2, 1, 1, 2, 5, 1, 1, 1, 3, 6, 0, 1, 1, 4, 7, 0, 0, 0, 0, 11, 0, 0, 0, 2, 0, 0, 0]"

lemma sample_built: "build_block BytewiseCompare 2 [([1, 2], [5]), ([1, 3], [6]), ([4], [7])] = Inr sample_block"
  by (simp add: build_block_def new_BlockBuilder_def BlockBuilder_Add_def BlockBuilder_Finish_def eassert_def BytewiseCompare_def
      PutVarint32_def EncodeVarint32_def PutFixed32_def EncodeFixed32_def s32_def sample_block_def Let_def)

theorem block_iterator_refines_witness:
  "\<exists>it it'. ebind (new_Block 0 sample_block) NewIterator = Inr (BlockIter it)
     \<and> iter_moves BytewiseCompare [SeekTo [1, 2, 9], Next, Prev] it = Inr it' \<and> observe it' = Inr (Some ([1, 3], [6]))"
proof -
  let ?kvs = "[([1, 2], [5]), ([1, 3], [6]), ([4], [7])] :: (byte list \<times> byte list) list"
  have "sorted_wrt (\<lambda>x y. BytewiseCompare (fst x) (fst y) < 0) ?kvs" by (simp add: BytewiseCompare_def)
  from block_iterator_refines [OF _ _ this, of 2 0] have T: "\<exists>data. build_block BytewiseCompare 2 ?kvs = Inr data \<and> (length data < 2 ^ 32 \<longrightarrow>
     (\<exists>it. ebind (new_Block 0 data) NewIterator = Inr (BlockIter it) \<and>
        (\<forall>ms. case list_moves BytewiseCompare ?kvs ms (length ?kvs) of
           None \<Rightarrow> iter_moves BytewiseCompare ms it = Inl (Exit ''assert'')
         | Some c \<Rightarrow> \<exists>it'. iter_moves BytewiseCompare ms it = Inr it' \<and> it_status it' = BlockOk
             \<and> observe it' = Inr (if c < length ?kvs then Some (?kvs ! c) else None))))" by simp
  have "length sample_block < 2 ^ 32" by (simp add: sample_block_def)
  with T [unfolded sample_built] obtain it where it: "ebind (new_Block 0 sample_block) NewIterator = Inr (BlockIter it)"
    and ms: "\<forall>ms. case list_moves BytewiseCompare ?kvs ms (length ?kvs) of
           None \<Rightarrow> iter_moves BytewiseCompare ms it = Inl (Exit ''assert'')
         | Some c \<Rightarrow> \<exists>it'. iter_moves BytewiseCompare ms it = Inr it' \<and> it_status it' = BlockOk
             \<and> observe it' = Inr (if c < length ?kvs then Some (?kvs ! c) else None)" by blast
  have "list_moves BytewiseCompare ?kvs [SeekTo [1, 2, 9], Next, Prev] (length ?kvs) = Some 1" by (simp add: BytewiseCompare_def)
  with spec [OF ms, of "[SeekTo [1, 2, 9], Next, Prev]"] it show ?thesis by (auto simp del: iter_moves.simps)
qed

end
