(* ===== verification/Sst_Block_Damage.thy ===== *)
theory Sst_Block_Damage
  imports Sst_Block_Refines
begin

text \<open>
  Blocks that no builder has written: on any block below 4 GiB every operation of the iterator
  ends; lengths that wrap around make it read behind the block.
\<close>

section \<open>Every loop ends\<close>

text \<open>A result that is not a loop that goes on for ever.\<close>

definition ends :: "'a res \<Rightarrow> bool" where
  "ends r \<longleftrightarrow> (\<forall>w. r \<noteq> Inl (Diverges w))"

lemma ends_simps [simp]:
  "ends (Inr x)" "ends (Inl e) \<longleftrightarrow> (\<forall>w. e \<noteq> Diverges w)" "ends (eassert b)" "ends (mem_read xs p n)" "ends (offset_in xs p)"
  by (simp_all add: ends_def eassert_def mem_read_def offset_in_def)

lemma ends_ebind: "ends m \<Longrightarrow> (\<And>x. m = Inr x \<Longrightarrow> ends (f x)) \<Longrightarrow> ends (ebind m f)"
  by (cases m) (auto simp: ends_def)

lemma ends_reads [simp]: "ends (GetRestartPoint it i)" "ends (NextEntryOffset it)" "ends (SeekToRestartPoint i it)" "ends (DecodeEntry xs p l)"
  by (auto simp: GetRestartPoint_def NextEntryOffset_def SeekToRestartPoint_def DecodeEntry_def DecodeFixed32_def Let_def
      split: option.split intro!: ends_ebind)

text \<open>An iterator of a block within the range of its 32-bit offsets.\<close>

definition iter_fits :: "Iter \<Rightarrow> bool" where
  "iter_fits it \<longleftrightarrow> length (it_data it) < 2 ^ 32 \<and> it_restarts it \<le> length (it_data it) \<and> 4 * it_num_restarts it \<le> length (it_data it)
     \<and> 0 < it_num_restarts it \<and> it_restart_index it \<le> it_num_restarts it"

lemma next_restart_ends:
  "iter_fits it \<Longrightarrow> ri \<le> it_num_restarts it \<Longrightarrow> it_num_restarts it - ri < n \<Longrightarrow>
   ends (next_restart n it ri) \<and> (\<forall>r. next_restart n it ri = Inr r \<longrightarrow> r \<le> it_num_restarts it)"
proof (induction n arbitrary: ri)
  case (Suc n)
  have u: "u32 (ri + 1) = ri + 1" using Suc.prems(1,2) by (simp add: iter_fits_def u32_def)
  show ?case
  proof (cases "ri + 1 < it_num_restarts it")
    case True
    then have "ends (next_restart n it (ri + 1)) \<and> (\<forall>r. next_restart n it (ri + 1) = Inr r \<longrightarrow> r \<le> it_num_restarts it)"
      using Suc.IH [of "ri + 1"] Suc.prems by simp
    then show ?thesis using Suc.prems(2) unfolding next_restart.simps u
      by (auto simp: fault_simps split: if_splits intro!: ends_ebind)
  next
    case False
    then show ?thesis using Suc.prems(2) unfolding next_restart.simps u by simp
  qed
qed simp

lemma three_varints_takes: "three_varints bs = Some (a, b, c, r) \<Longrightarrow> length r + 3 \<le> length bs"
proof -
  have g: "length q + 1 \<le> length p" if "GetVarint32Ptr p = Some (x, q)" for p q x
    using varint_loop_takes [of 0 4 0 p x q] that by (auto simp: GetVarint32Ptr_loop)
  assume "three_varints bs = Some (a, b, c, r)"
  then show ?thesis unfolding three_varints_def by (auto split: option.splits prod.splits dest!: g)
qed

lemma decode_advances:
  assumes "DecodeEntry data p limit = Inr (Some (sh, ns, vl, q))" "limit \<le> length data"
  shows "p + 3 \<le> q"
proof -
  have "p + 3 \<le> limit" using assms(1) by (auto simp: DecodeEntry_def split: if_splits)
  with assms DecodeEntry_varints [OF this assms(2)] show ?thesis
    by (auto split: option.splits if_splits dest!: three_varints_takes)
qed

lemma parse_cases:
  assumes "ParseNextKey it = Inr (ok, it')"
  obtains (stopped) c where "NextEntryOffset it = Inr c" "\<not> ok" "it' = it\<lparr>it_current := it_restarts it, it_restart_index := it_num_restarts it\<rparr>"
  | (bad) c where "NextEntryOffset it = Inr c" "\<not> ok" "it' = CorruptionError (it\<lparr>it_current := c\<rparr>)"
  | (entry) c sh ns vl q k r where "NextEntryOffset it = Inr c" "ok" "c < it_restarts it"
      "DecodeEntry (it_data it) c (it_restarts it) = Inr (Some (sh, ns, vl, q))"
      "next_restart (it_num_restarts it + 1) (it\<lparr>it_current := c, it_key := k, it_value := Some (q + ns, vl)\<rparr>) (it_restart_index it) = Inr r"
      "it' = it\<lparr>it_current := c, it_key := k, it_value := Some (q + ns, vl), it_restart_index := r\<rparr>"
proof -
  obtain c where c: "NextEntryOffset it = Inr c" using assms by (auto simp: ParseNextKey_def fault_simps)
  show thesis
  proof (cases "it_restarts it \<le> c")
    case True
    then show thesis using assms c stopped by (auto simp: ParseNextKey_def Let_def)
  next
    case False
    then obtain x where x: "DecodeEntry (it_data it) c (it_restarts it) = Inr x" using assms c by (auto simp: ParseNextKey_def Let_def fault_simps)
    show thesis
    proof (cases x)
      case None
      then show thesis using assms c x False bad by (auto simp: ParseNextKey_def Let_def)
    next
      case (Some y)
      obtain sh ns vl q where "y = (sh, ns, vl, q)" by (cases y)
      then show thesis using assms c x False Some bad entry
        by (cases "length (it_key it) < sh") (auto simp: ParseNextKey_def Let_def fault_simps not_le)
    qed
  qed
qed

lemma parse_ends:
  assumes F: "iter_fits it"
  shows "ends (ParseNextKey it)"
    and "ParseNextKey it = Inr (ok, it') \<Longrightarrow> iter_fits it' \<and> it_data it' = it_data it \<and> it_restarts it' = it_restarts it"
    and "ParseNextKey it = Inr (True, it') \<Longrightarrow> \<exists>c. NextEntryOffset it = Inr c \<and> c < it_restarts it \<and> (\<forall>e. NextEntryOffset it' = Inr e \<longrightarrow> c < e)"
proof -
  have n: "ends (next_restart (it_num_restarts t + 1) t (it_restart_index t))"
    "next_restart (it_num_restarts t + 1) t (it_restart_index t) = Inr r \<Longrightarrow> r \<le> it_num_restarts t" if "iter_fits t" for t r
    using next_restart_ends [OF that, of "it_restart_index t" "it_num_restarts t + 1"] that by (auto simp: iter_fits_def)
  have F': "iter_fits (it\<lparr>it_current := c, it_key := k, it_value := v\<rparr>)" for c k v using F by (simp add: iter_fits_def)
  show "ends (ParseNextKey it)" unfolding ParseNextKey_def
    using n(1) [OF F'] by (auto simp: Let_def split: option.split prod.split intro!: ends_ebind)
  show "iter_fits it' \<and> it_data it' = it_data it \<and> it_restarts it' = it_restarts it" if "ParseNextKey it = Inr (ok, it')"
    using that
  proof (cases rule: parse_cases)
    case (entry c sh ns vl q k r)
    then show ?thesis using n(2) [OF F'] F by (simp add: iter_fits_def)
  qed (use F in \<open>simp_all add: CorruptionError_def iter_fits_def\<close>)
  show "\<exists>c. NextEntryOffset it = Inr c \<and> c < it_restarts it \<and> (\<forall>e. NextEntryOffset it' = Inr e \<longrightarrow> c < e)"
    if "ParseNextKey it = Inr (True, it')"
    using that
  proof (cases rule: parse_cases)
    case (entry c sh ns vl q k r)
    then have "c + 3 \<le> q" using decode_advances F by (simp add: iter_fits_def)
    then have "c < e" if "NextEntryOffset it' = Inr e" for e
      using that entry(6) F by (auto simp: NextEntryOffset_def fault_simps offset_in_def iter_fits_def u32_def split: if_splits)
    then show ?thesis using entry by blast
  qed simp_all
qed

lemma parse_while_ends:
  assumes cond: "\<And>it. ends (cond it)"
  shows "iter_fits it \<Longrightarrow> 0 < n \<Longrightarrow> (\<And>c. NextEntryOffset it = Inr c \<Longrightarrow> it_restarts it - c < n) \<Longrightarrow>
     ends (parse_while n cond it) \<and> (\<forall>it'. parse_while n cond it = Inr it' \<longrightarrow> iter_fits it')"
proof (induction n arbitrary: it)
  case (Suc n)
  show ?case
  proof (cases "ParseNextKey it")
    case (Inl e)
    then show ?thesis using parse_ends(1) [OF Suc.prems(1)] by (simp add: parse_while.simps)
  next
    case (Inr x)
    obtain ok it' where x: "x = (ok, it')" by (cases x)
    note p = parse_ends(2) [OF Suc.prems(1), of ok it', OF Inr [unfolded x]]
    show ?thesis
    proof (cases ok)
      case True
      obtain c where c: "NextEntryOffset it = Inr c" "c < it_restarts it" "\<And>e. NextEntryOffset it' = Inr e \<Longrightarrow> c < e"
        using parse_ends(3) [OF Suc.prems(1), of it'] Inr x True by auto
      have "0 < n" using Suc.prems(3) [OF c(1)] c(2) by simp
      moreover have "it_restarts it' - e < n" if "NextEntryOffset it' = Inr e" for e
        using c(3) [OF that] Suc.prems(3) [OF c(1)] c(2) p by simp
      ultimately have "ends (parse_while n cond it') \<and> (\<forall>it''. parse_while n cond it' = Inr it'' \<longrightarrow> iter_fits it'')"
        using Suc.IH [of it'] p by simp
      then show ?thesis using Inr x True cond [of it'] p
        by (cases "cond it'") (auto simp: parse_while.simps)
    next
      case False
      then show ?thesis using Inr x p by (auto simp: parse_while.simps)
    qed
  qed
qed simp

lemma seek_restart_fits: "iter_fits it \<Longrightarrow> SeekToRestartPoint j it = Inr it' \<Longrightarrow> iter_fits it' \<and> it_restarts it' = it_restarts it"
  by (auto simp: SeekToRestartPoint_def GetRestartPoint_def fault_simps iter_fits_def eassert_def split: if_splits)

lemma restart_loop_ends:
  assumes F: "iter_fits it" and cond: "\<And>it. ends (cond it)"
  shows "ends (ebind (SeekToRestartPoint j it) (parse_while (it_restarts it + 1) cond))
     \<and> (\<forall>it'. ebind (SeekToRestartPoint j it) (parse_while (it_restarts it + 1) cond) = Inr it' \<longrightarrow> iter_fits it')"
proof (cases "SeekToRestartPoint j it")
  case (Inl e)
  then show ?thesis using ends_reads(3) [of j it] by simp
next
  case (Inr it1)
  note f = seek_restart_fits [OF F Inr]
  show ?thesis using parse_while_ends [of cond it1 "it_restarts it + 1", OF cond] f Inr by simp
qed

lemma seek_search_ends:
  "iter_fits it \<Longrightarrow> right < it_num_restarts it \<Longrightarrow> right - left \<le> n \<Longrightarrow> ends (seek_search n cmp target it left right)"
proof (induction n arbitrary: left right)
  case (Suc n)
  show ?case
  proof (cases "left < right")
    case True
    define mid where "mid = (left + right + 1) div 2"
    have mid: "left < mid" "mid \<le> right" using True by (auto simp: mid_def)
    have u: "u32 (left + right + 1) = left + right + 1" using Suc.prems(1,2) True by (simp add: iter_fits_def u32_def)
    have s: "u32_sub mid 1 = mid - 1" using mid Suc.prems(1,2) by (intro u32_sub_id) (auto simp: iter_fits_def)
    have "ends (seek_search n cmp target it mid right)" "ends (seek_search n cmp target it left (mid - 1))"
      using Suc.IH [of right mid] Suc.IH [of "mid - 1" left] Suc.prems mid by auto
    then show ?thesis using True s unfolding seek_search.simps u mid_def [symmetric]
      by (auto simp: Let_def split: option.split intro!: ends_ebind)
  qed simp
qed simp

lemma prev_restart_ends: "ends (prev_restart it original i)"
  by (induction i) (auto intro!: ends_ebind)

lemma move_ends:
  assumes F: "iter_fits it"
  shows "ends (iter_move cmp m it) \<and> (\<forall>it'. iter_move cmp m it = Inr it' \<longrightarrow> iter_fits it')"
proof (cases m)
  case First
  show ?thesis
  proof (cases "SeekToRestartPoint 0 it")
    case (Inl e)
    then show ?thesis using ends_reads(3) [of 0 it] First by (simp add: Iter_SeekToFirst_def)
  next
    case (Inr it1)
    then have "iter_fits it1" using seek_restart_fits [OF F] by blast
    from parse_ends(1,2) [OF this] show ?thesis using First Inr
      by (auto simp: Iter_SeekToFirst_def fault_simps intro!: ends_ebind)
  qed
next
  case Last
  then show ?thesis using restart_loop_ends [OF F, of "ends_before (it_restarts it)"]
    by (simp add: Iter_SeekToLast_def ends_before_def ends_ebind)
next
  case Next
  then show ?thesis using parse_ends(1,2) [OF F] by (auto simp: Iter_Next_def fault_simps intro!: ends_ebind)
next
  case Prev
  have l: "ends (ebind (SeekToRestartPoint j it) (parse_while (it_restarts it + 1) (ends_before c)))
     \<and> (\<forall>it'. ebind (SeekToRestartPoint j it) (parse_while (it_restarts it + 1) (ends_before c)) = Inr it' \<longrightarrow> iter_fits it')" for j c
    by (rule restart_loop_ends [OF F]) (simp add: ends_before_def ends_ebind)
  have "iter_fits (it\<lparr>it_current := it_restarts it, it_restart_index := it_num_restarts it\<rparr>)" using F by (simp add: iter_fits_def)
  then show ?thesis using Prev l prev_restart_ends [of it "it_current it" "it_restart_index it"]
    by (cases "prev_restart it (it_current it) (it_restart_index it)") (auto simp: Iter_Prev_def Let_def eassert_def split: option.splits)
next
  case (SeekTo target)
  have "u32_sub (it_num_restarts it) 1 = it_num_restarts it - 1" using F by (intro u32_sub_id) (auto simp: iter_fits_def)
  then have s: "ends (seek_search (it_num_restarts it) cmp target it 0 (u32_sub (it_num_restarts it) 1))"
    using F by (intro seek_search_ends) (auto simp: iter_fits_def)
  have l: "ends (ebind (SeekToRestartPoint j it) (parse_while (it_restarts it + 1) (\<lambda>it. Inr (cmp (it_key it) target < 0))))
     \<and> (\<forall>it'. ebind (SeekToRestartPoint j it) (parse_while (it_restarts it + 1) (\<lambda>it. Inr (cmp (it_key it) target < 0))) = Inr it' \<longrightarrow> iter_fits it')" for j
    by (rule restart_loop_ends [OF F]) simp
  have "iter_fits (CorruptionError it)" using F by (simp add: iter_fits_def CorruptionError_def)
  then show ?thesis using SeekTo l s
    by (cases "seek_search (it_num_restarts it) cmp target it 0 (u32_sub (it_num_restarts it) 1)") (auto simp: Iter_Seek_def split: option.splits)
qed

lemma moves_end: "iter_fits it \<Longrightarrow> ends (iter_moves cmp ms it)"
proof (induction ms arbitrary: it)
  case (Cons m ms)
  show ?case using move_ends [OF Cons.prems, of cmp m] Cons.IH by (cases "iter_move cmp m it") auto
qed simp

lemma open_fits:
  assumes "length data < 2 ^ 32" "ebind (new_Block raw data) NewIterator = Inr (BlockIter it)"
  shows "iter_fits it"
proof -
  obtain b where b: "new_Block raw data = Inr b" "NewIterator b = Inr (BlockIter it)" using assms(2) by (auto simp: fault_simps)
  have "\<not> bk_size b < 4" using b(2) by (auto simp: NewIterator_def split: if_splits)
  then obtain n where n: "NumRestarts data (length data) = Inr n" "n \<le> (length data - 4) div 4" "4 \<le> length data"
    "b = \<lparr>bk_data = data, bk_size = length data, bk_restart_offset = u32 (length data - (1 + n) * 4)\<rparr>"
    using b(1) by (auto simp: new_Block_def Let_def fault_simps split: if_splits)
  have le: "4 * n + 4 \<le> length data" using n(2,3) by (simp add: less_eq_div_iff_mult_less_eq)
  have "u32 (length data - (1 + n) * 4) \<le> length data" using assms(1) by (simp add: u32_def)
  then show ?thesis using b(2) n le assms(1)
    by (auto simp: NewIterator_def new_Iter_def eassert_def fault_simps iter_fits_def split: if_splits)
qed

text \<open>
  C25: every operation of an iterator ends, on any block below 4 GiB, also a damaged one, with any
  comparison of keys: no sequence of operations runs into a loop that does not come to an end.
\<close>

theorem block_moves_end:
  assumes "length data < 2 ^ 32" and "ebind (new_Block raw data) NewIterator = Inr (BlockIter it)"
  shows "iter_moves cmp ms it \<noteq> Inl (Diverges w)"
  using moves_end [OF open_fits [OF assms]] by (simp add: ends_def)

theorem block_moves_end_witness:
  "\<exists>it. ebind (new_Block 0 [9, 9, 9, 0, 0, 0, 0, 1, 0, 0, 0]) NewIterator = Inr (BlockIter it)
     \<and> iter_moves BytewiseCompare [First, SeekTo [4]] it \<noteq> Inl (Diverges ''Seek'')"
proof -
  have "\<exists>it. ebind (new_Block 0 [9, 9, 9, 0, 0, 0, 0, 1, 0, 0, 0]) NewIterator = Inr (BlockIter it)"
    by (simp add: new_Block_def NumRestarts_def DecodeFixed32_def join32_def NewIterator_def new_Iter_def eassert_def)
  then show ?thesis using block_moves_end [of "[9, 9, 9, 0, 0, 0, 0, 1, 0, 0, 0]" 0] by fastforce
qed

section \<open>Lengths that wrap around\<close>

text \<open>A block with one restart point and one entry whose header has the given lengths.\<close>

definition forged_block :: "32 word \<Rightarrow> 32 word \<Rightarrow> byte list \<Rightarrow> byte list" where
  "forged_block ns vl rest = EncodeVarint32 0 @ EncodeVarint32 ns @ EncodeVarint32 vl @ rest @ EncodeFixed32 0 @ EncodeFixed32 1"

lemma open_forged:
  assumes "length (forged_block ns vl rest) < 2 ^ 32"
  defines "R \<equiv> length (forged_block ns vl rest) - 8"
  shows "ebind (new_Block raw (forged_block ns vl rest)) NewIterator
     = Inr (BlockIter \<lparr>it_data = forged_block ns vl rest, it_restarts = R, it_num_restarts = 1, it_current = R,
         it_restart_index = 1, it_key = [], it_value = None, it_status = BlockOk\<rparr>)"
proof -
  let ?d = "forged_block ns vl rest"
  have len: "8 \<le> length ?d" by (simp add: forged_block_def)
  have "take 4 (drop (length ?d - 4) ?d) = EncodeFixed32 1" by (simp add: forged_block_def)
  then have "DecodeFixed32 ?d (length ?d - 4) = Inr 1" by (rule decode32_at)
  then have n: "NumRestarts ?d (length ?d) = Inr 1" using len by (simp add: NumRestarts_def eassert_def)
  have "u32 R = R" using assms(1) by (simp add: R_def u32_def)
  then have "new_Block raw ?d = Inr \<lparr>bk_data = ?d, bk_size = length ?d, bk_restart_offset = R\<rparr>"
  proof -
    have "1 \<le> (length ?d - 4) div 4" using len by (simp add: less_eq_div_iff_mult_less_eq)
    then show ?thesis using n len \<open>u32 R = R\<close> by (auto simp: new_Block_def Let_def R_def)
  qed
  then show ?thesis using n len by (simp add: NewIterator_def new_Iter_def eassert_def)
qed

text \<open>
  C40: the check of an entry against the end of the block adds the two lengths in 32 bits. When the
  sum wraps around the entry is accepted and the first move of the iterator copies a key that
  reaches behind the block, although the decoder is documented not to go past its limit.
\<close>

theorem block_entry_wraps:
  assumes "length (forged_block ns vl rest) < unat ns" and "2 ^ 32 \<le> unat ns + unat vl"
    and "unat ns + unat vl \<le> 2 ^ 32 + length rest"
  shows "\<exists>it. ebind (new_Block raw (forged_block ns vl rest)) NewIterator = Inr (BlockIter it)
     \<and> Iter_SeekToFirst it = Inl (OutOfBounds ''buffer read'')"
proof -
  let ?d = "forged_block ns vl rest"
  define R where "R = length ?d - 8"
  define it where "it = \<lparr>it_data = ?d, it_restarts = R, it_num_restarts = 1, it_current = R,
         it_restart_index = 1, it_key = [], it_value = None, it_status = BlockOk\<rparr>"
  let ?h = "EncodeVarint32 0 @ EncodeVarint32 ns @ EncodeVarint32 vl"
  have nsl: "unat ns < 2 ^ LENGTH(32)" and vll: "unat vl < 2 ^ LENGTH(32)" by (rule unsigned_less)+
  then have l32: "length ?d < 2 ^ 32" using assms(1) by simp
  have R: "R = length ?h + length rest" by (simp add: R_def forged_block_def)
  have h: "3 \<le> length ?h" using varint32_nonempty [of 0] varint32_nonempty [of ns] varint32_nonempty [of vl] by simp
  have "take 4 (drop R ?d) = EncodeFixed32 0" by (simp add: R forged_block_def)
  then have g: "GetRestartPoint it 0 = Inr 0" by (simp add: GetRestartPoint_def it_def eassert_def decode32_at)
  define it1 where "it1 = it\<lparr>it_key := [], it_restart_index := 0, it_value := Some (0, 0)\<rparr>"
  have s: "SeekToRestartPoint 0 it = Inr it1" using g by (simp add: SeekToRestartPoint_def offset_in_def it1_def)
  have "three_varints (take R ?d) = Some (0, ns, vl, rest)"
    by (simp add: R forged_block_def three_varints_def get_varint32)
  moreover have "unat (ns + vl) = unat ns + unat vl - 2 ^ 32"
    using assms(2) nsl vll by (simp add: unat_word_ariths mod_if)
  moreover have "u32 (length rest) = length rest" using l32 by (simp add: u32_def forged_block_def)
  ultimately have "DecodeEntry ?d 0 R = Inr (Some (0, unat ns, unat vl, length ?h))"
    using h R assms(3) by (subst DecodeEntry_varints) (auto simp: R_def)
  moreover have "mem_read ?d (length ?h) (unat ns) = Inl (OutOfBounds ''buffer read'')" using assms(1) by (simp add: mem_read_def)
  moreover have "0 < R" unfolding R using h by linarith
  ultimately have "ParseNextKey it1 = Inl (OutOfBounds ''buffer read'')"
    by (simp add: ParseNextKey_def it1_def it_def NextEntryOffset_def offset_in_def u32_def)
  then have "Iter_SeekToFirst it = Inl (OutOfBounds ''buffer read'')" using s by (simp add: Iter_SeekToFirst_def)
  then show ?thesis using open_forged [OF l32, of raw] by (simp add: it_def R_def)
qed

theorem block_entry_wraps_witness:
  "forged_block 0xffffffff 1 [] = [0, 255, 255, 255, 255, 15, 1, 0, 0, 0, 0, 1, 0, 0, 0]
   \<and> (\<exists>it. ebind (new_Block 0 [0, 255, 255, 255, 255, 15, 1, 0, 0, 0, 0, 1, 0, 0, 0]) NewIterator = Inr (BlockIter it)
        \<and> Iter_SeekToFirst it = Inl (OutOfBounds ''buffer read''))"
proof -
  have f: "forged_block 0xffffffff 1 [] = [0, 255, 255, 255, 255, 15, 1, 0, 0, 0, 0, 1, 0, 0, 0]"
    by (simp add: forged_block_def EncodeVarint32_def EncodeFixed32_def)
  then show ?thesis using block_entry_wraps [of "0xffffffff" 1 "[]" 0, unfolded f] by simp
qed

end
