(* ===== verification/Spec2Isabelle.thy ===== *)
theory Spec2Isabelle
  imports Zoad_Env_Safety Zoad_Store Sst_Block_Damage
begin

text \<open>
  \<^bold>\<open>ZoAD: a verification of the zoned storage library and of the table blocks above it\<close>

  ZoAD is the storage layer of this repository for NVMe devices with zoned namespaces (ZNS). A
  database sees it as an environment of files; below the files it is a library of named objects
  in logical partitions, striped over groups of zones that work independently (independent zone
  groups, IZGs). The sources are \<^verbatim>\<open>src/util/zoad/*\<close> and \<^verbatim>\<open>src/util/env_zoad.cc\<close>. Above the
  environment the database writes tables; the encodings, the order of keys and the blocks of a
  table are verified as well.

  \<^bold>\<open>The parts and how they interact\<close>

  A write goes from \<^verbatim>\<open>ZoadFile::Append\<close> (write buffer of one stripe) to \<^verbatim>\<open>z_flush\<close>, which copies
  the stripe into a request and queues it at the partition; the worker thread of the partition
  takes it from the queue and calls \<^verbatim>\<open>Userdata::Append\<close>, which takes zones from the IZG pool when
  the partition has none with room, and \<^verbatim>\<open>izg_write\<close>, which deals the stripe over the zones with
  a thread for every eight of them; \<^verbatim>\<open>zns_write\<close> sends the command to the device and advances the
  write pointer the library keeps. A read goes from \<^verbatim>\<open>ZoadFile::Read\<close> (write buffer, read buffer)
  through \<^verbatim>\<open>z_load\<close> and \<^verbatim>\<open>Userdata::Read\<close> to \<^verbatim>\<open>izg_read\<close> and \<^verbatim>\<open>zns_read\<close>, past the queue.

  \<^bold>\<open>Theories and sources\<close>

  \<^item> \<open>Zoad_Prelude\<close>: the faults a run can end in (\<open>fault\<close>: exit, access outside a buffer, a loop that
    does not end, locks, use after free, division by zero, other undefined behaviour), sequencing
    \<open>ebind\<close>, the loops \<open>efor\<close> and \<open>ewhile\<close>, 32-bit arithmetic (\<open>u32\<close>, \<open>u32_sub\<close>, \<open>s32\<close>), buffers and
    vectors with bounds, cutting a buffer into units.
  \<^item> \<open>Controller\<close>: \<^verbatim>\<open>controller.c\<close>, \<^verbatim>\<open>controller.h\<close>. The globals are the record \<open>ctrl\<close>. The device
    behind \<^verbatim>\<open>ioctl\<close> is not in the repository: it is the parameter \<open>nvme_ops\<close>, with the contract
    \<open>nvme_ok\<close> (a write at the write pointer appends, a read returns the media), \<open>nvme_id_ok\<close> and
    \<open>nvme_report_ok\<close> (identification and reports are right). \<open>Zns_Emulator\<close> is a device that meets
    them, used by the witnesses.
  \<^item> \<open>Zone_Write\<close>, \<open>Zone_Read\<close>, \<open>Zone_Threads\<close>: \<^verbatim>\<open>Zone.cpp\<close>, \<^verbatim>\<open>Zone.h\<close>. Zones, intervals, the
    threads and the two directions of striping; in \<open>Zone_Threads\<close> the threads of a group run
    interleaved, as a step relation.
  \<^item> \<open>Std_Queue\<close>, \<open>Std_Map\<close>: \<^verbatim>\<open>std::queue\<close> and \<^verbatim>\<open>std::map\<close>, as locales \<open>fifo\<close> and \<open>dictionary\<close> with
    their interpretations.
  \<^item> \<open>IZG_Pool\<close>: \<^verbatim>\<open>IZG.cpp\<close>, \<^verbatim>\<open>IZG.h\<close>. The queues of free zones, the budget of IZGs, identification;
    locale \<open>zone_source\<close> is what the writer relies on.
  \<^item> \<open>Partition\<close>: \<^verbatim>\<open>Partition.cpp\<close>, \<^verbatim>\<open>Partition.h\<close>, \<^verbatim>\<open>IO_request.h\<close>.
  \<^item> \<open>Userdata\<close>, \<open>Userdata_Read\<close>, \<open>Userdata_Write\<close>: \<^verbatim>\<open>Userdata.cpp\<close>, \<^verbatim>\<open>Userdata.h\<close>. Segments,
    \<^verbatim>\<open>Append\<close>, the reads, \<^verbatim>\<open>Delete\<close>, \<^verbatim>\<open>Sync\<close>.
  \<^item> \<open>Zoad_Worker\<close>: \<^verbatim>\<open>IO_request.cpp\<close>, the worker; the state \<open>zoad\<close> of the library as a whole.
  \<^item> \<open>Zoad_API\<close>, \<open>Zoad_Registry\<close>, \<open>Zoad_Store\<close>: \<^verbatim>\<open>zoad.cpp\<close>. The calls; the states the calls and
    the workers can reach (\<open>lib_step\<close>, \<open>reachable\<close>); the library as a store of named objects.
  \<^item> \<open>Zoad_File\<close>, \<open>Zoad_File_Store\<close>: the class \<^verbatim>\<open>ZoadFile\<close> of \<^verbatim>\<open>env_zoad.cc\<close>.
  \<^item> \<open>Zoad_Env\<close>, \<open>Zoad_Env_Safety\<close>: the environment of \<^verbatim>\<open>env_zoad.cc\<close> with its table of files,
    locks and background work (\<open>zenv\<close>), and the states it can reach (\<open>env_step\<close>,
    \<open>reachable_env\<close>). The background thread is started by \<open>Schedule\<close>, blocks in \<^verbatim>\<open>Wait\<close> and is woken by
    \<^verbatim>\<open>Signal\<close> (\<open>bg_thread\<close>, \<open>background_turn\<close>).
  \<^item> \<open>Coding\<close>: \<^verbatim>\<open>src/util/coding.h\<close>, \<^verbatim>\<open>coding_lean.h\<close>, \<^verbatim>\<open>coding.cc\<close>, the mask of \<^verbatim>\<open>crc32c.h\<close>.
  \<^item> \<open>Key_Order\<close>: \<^verbatim>\<open>Slice::compare\<close> and \<^verbatim>\<open>src/util/comparator.cc\<close>; locale \<open>comparator\<close> has the laws,
    interpreted for both comparators.
  \<^item> \<open>Sst_Block\<close>, \<open>Sst_Block_Iter\<close>, \<open>Sst_Block_Refines\<close>, \<open>Sst_Block_Damage\<close>:
    \<^verbatim>\<open>src/table/block_builder.cc\<close> and \<^verbatim>\<open>src/table/block.cc\<close>.
  \<^item> this theory: what spans the components, from the application to the device and back.

  \<^bold>\<open>How code becomes definitions\<close>

  Classes are records, a pointer to an object is its index in the list of objects (\<open>zs_parts\<close>,
  \<open>zs_users\<close>, \<open>en_files\<close>), a freed object is \<open>None\<close> there. A C++ buffer is a position in a byte
  list; the memory of the application is \<open>zs_mem\<close>. \<^verbatim>\<open>unsigned int\<close> is a natural number with \<open>u32\<close>
  where the code computes, \<^verbatim>\<open>size_t\<close> and \<^verbatim>\<open>uint64_t\<close> likewise with \<open>u64\<close> in files; the encodings
  use words. Every exit, every read or write out of range and every misuse of a lock is a value
  of the result, so that a theorem that a call gives \<open>Inr\<close> says that none of them happens. What
  the code reads before it is initialised is a parameter (\<open>params\<close>): fresh memory \<open>pm_raw\<close>, the
  first segment id \<open>pm_seg0\<close>, the memory behind a vector \<open>pm_past\<close>.

  \<^bold>\<open>What is shown\<close>

  \<^item> Zones: writing a stripe and reading it back gives the bytes; the layout is round robin in I/O
    units; every interleaving of the threads ends, in a bounded number of steps, in the media and
    write pointers of the sequential run.
  \<^item> User data: an append followed by a read anywhere gives the old and the new bytes; deleting
    invalidates every segment.
  \<^item> Library: the worker serves the queue in order and refines a store of objects; registry,
    locks, ids and names stay well formed in all reachable states; the budget of IZGs adds up; names
    and queued requests are for live objects; what is flushed stripe by stripe under any names is
    what a load of a name returns.
  \<^item> Files: a file refines an append-only sequence of bytes; a read of up to a stripe returns it, or
    fails in one of the ways \<open>read_fault\<close> lists; from the start of the environment to a read of
    written data the composition holds on any device within the limits below.
  \<^item> Environment: from every reachable state calls on files return, files do not share objects,
    creation, deletion, renaming and listing act on the table as specified, a lock is held once,
    background work is run completely and in order, and no wake-up of its thread is lost.
  \<^item> Tables: encodings are inverse to their decoders; separators lie between their keys; the
    iterator of a block refines a cursor in the list of the entries, for every sequence of
    operations; its loops end on every block.
  \<^item> Faults of the code are theorems too: inputs on which a routine leaves its buffer, writes behind
    the buffer of its caller, unlocks a lock it does not hold, ignores its offset, copies too little,
    accepts a damaged entry, or runs over its table of zones.

  \<^bold>\<open>Bounds\<close>

  A loop is bounded by a number the code computes, and a run that needs more rounds is the fault
  \<open>Diverges\<close>, never a result. The threads of \<^verbatim>\<open>Zone.cpp\<close> have as many rounds as units to write;
  \<^verbatim>\<open>_write\<close> as many as zones or blocks; \<^verbatim>\<open>WriteUnbuffered\<close> one more than bytes, since every round takes
  at least one byte; the zone report as many as zones; the drain of a worker the length of the
  queue; the loops of a block one more than its bytes before the restart points, its search the
  number of restart points. The lemmas of each component show the bounds are enough. The worker's
  endless loop is taken for any number of rounds (\<open>worker_main\<close>). Sizes in the theorems stay below
  \<open>2 ^ 32\<close> because the library counts in 32 bits.

  \<^bold>\<open>Limits of the model\<close>

  \<^item> Devices. The theorems that start the library (\<open>start_ok\<close>) are about devices with 32 to 1024 zones
    whose block addresses fit in 32 bits. With more zones identification runs over its table or
    repeats descriptors, which is a theorem; the README's device of 29,172 zones is such a case. The
    contract \<open>nvme_ok\<close> takes the capacity of a zone to be its size and
    has no limit on open zones.
  \<^item> Undefined behaviour. \<^verbatim>\<open>skip_min\<close> runs past the end of the sorted sizes in every write of equal
    sizes. What it reads there is \<open>pm_past\<close>; the theorems about writes assume that a value other than
    the size comes up there, and one theorem shows that it is read.
  \<^item> Memory of the application. It is one array (\<open>zs_mem\<close>), so a write behind the end of a caller's
    buffer is a change of that array and not a fault. \<^verbatim>\<open>ZoadFile::Read\<close> does write there, which
    is a theorem; the theorems about reads ask for room for the units it loads.
  \<^item> Interleaving. A call of the library and an iteration of a worker are single steps. In the code
    \<^verbatim>\<open>_z_load\<close> and \<^verbatim>\<open>_z_sync\<close> use the object after releasing the lock of the partition; a lemma of
    \<open>Zoad_Registry\<close> shows the use after free that a delete in between causes.
  \<^item> \<^verbatim>\<open>Env::ZoadDefault\<close> is modelled for its first call; the code starts the library and makes the
    partitions again on every further call.
  \<^item> A block whose entries point behind its end is a fault as soon as the end of a value lies there,
    also where the code would not read the value.

  \<^bold>\<open>Not modelled\<close>

  \<^item> Output (\<^verbatim>\<open>print_zns_info\<close>, \<^verbatim>\<open>print_zone_desc\<close>, messages), clocks and measured times
    (\<^verbatim>\<open>get_zone_write_time\<close>, \<^verbatim>\<open>test_zone_write_contention\<close>, the time in \<^verbatim>\<open>get_perf\<close>), sleeping,
    loggers, and \<^verbatim>\<open>StartThread\<close>: they have no effect on the state described here.
  \<^item> \<^verbatim>\<open>zns_write_request2\<close> and the empty stubs of \<^verbatim>\<open>controller.c\<close>: never called.
  \<^item> The mutexes of the environment: its calls are atomic steps; those of the library are in the
    state.
  \<^item> The device: a parameter with a contract.
  \<^item> \<^verbatim>\<open>src/env/*\<close>, \<^verbatim>\<open>Userdata_old.cpp\<close>, \<^verbatim>\<open>Zone_*MultiTable.cpp\<close> and the other \<^verbatim>\<open>env_zoad_*\<close> files:
    earlier copies and variants of the files modelled. \<^verbatim>\<open>env_zone.cc\<close>: an environment over libzbc,
    which is not in the repository.
  \<^item> Of \<^verbatim>\<open>coding.h\<close>: \<^verbatim>\<open>GetLengthPrefixedSlice\<close> of a bare pointer, \<^verbatim>\<open>GetSliceUntil\<close>, unaligned access;
    of \<^verbatim>\<open>comparator.cc\<close>: registration and time stamps; the checksum behind \<^verbatim>\<open>Mask\<close>.
  \<^item> The rest of RocksDB and LevelDB, their bindings, tools and tests: released upstream, clients of
    what is verified here.
\<close>

section \<open>From the application to the device and back\<close>

text \<open>The first file of a new environment, and its state as a file on the store.\<close>

lemma first_file:
  assumes "flag < 2"
  shows "\<exists>e f. NewWritableFile pm refs0 fname lv flag (env_of z) = Inr (OK, 0, e)
     \<and> en_z e = z \<and> en_cfg e = env_cfg \<and> en_files e = [f] \<and> en_file_map e = [(fname, 0)]
     \<and> file_fits f \<and> fl_flag f = flag \<and> fl_buf_pos f = 0 \<and> fl_file_size f = 0 \<and> file_tail f = [] \<and> cache_ok [] f
     \<and> \<not> fl_use_read_buf f"
proof -
  obtain f where f: "new_ZoadFile env_cfg (pm_raw pm) refs0 flag lv fname 0 = Inr f" "fl_flag f = flag" "fl_buf_pos f = 0"
    "fl_file_size f = 0" "\<not> fl_use_read_buf f" "length (fl_read_buf f) = IO_SIZE"
    using assms by (simp add: new_ZoadFile_def vec_at_def env_cfg_sel)
  have "file_fits (Ref f)" using new_file_fits(1) [OF f(1)] by (simp add: Ref_def file_wf_def)
  then show ?thesis
    using f by (intro exI [of _ "(env_of z)\<lparr>en_files := [Ref f], en_global_key := 1, en_file_map := [(fname, 0)]\<rparr>"] exI [of _ "Ref f"])
      (auto simp: NewWritableFile_def make_file_def new_FileImpl_def upd_file_def env_of_def Ref_def u32_def file_tail_def cache_ok_def
        split: option.split)
qed

lemma file_at_Ref [simp]: "file_at pm media hwp zsz nz k g i bs cs (Ref f) z = file_at pm media hwp zsz nz k g i bs cs f z"
  by (simp add: file_at_def file_wf_def Ref_def)

lemma Ref_sel [simp]:
  "cache_holds cs (Ref f) = cache_holds cs f" "file_tail (Ref f) = file_tail f" "fl_file_size (Ref f) = fl_file_size f"
  "fl_buf_pos (Ref f) = fl_buf_pos f" "fl_use_read_buf (Ref f) = fl_use_read_buf f"
  by (simp_all add: cache_holds_def file_tail_def Ref_def split: option.split)

lemma replicate_ends:
  assumes "2 \<le> n"
  shows "replicate n x = replicate (n - 2) x @ [x, x]" "replicate n x = [x, x] @ replicate (n - 2) x"
proof -
  obtain m where n: "n = Suc (Suc m)" using assms by (metis add_2_eq_Suc le_Suc_ex)
  have "x # x # replicate m x = replicate m x @ [x, x]" by (induction m) simp_all
  then show "replicate n x = replicate (n - 2) x @ [x, x]" "replicate n x = [x, x] @ replicate (n - 2) x" by (simp_all add: n)
qed

text \<open>How much of a written file is on the device.\<close>

lemma written_split:
  assumes F: "file_at pm media hwp zsz nz k g i bs cs f z" and d: "cs @ file_tail f = data"
  shows "fl_file_size f = length data" "fl_file_size f - fl_buf_pos f = length cs"
    "length cs \<le> length data" "length data \<le> length cs + bs" "bs dvd length cs"
proof -
  have len: "length cs + fl_buf_pos f = length data" using arg_cong [OF d, of length] file_tail_length [OF F] by simp
  have "fl_buf_pos f \<le> bs" using file_atD(2) [OF F] by (simp add: file_wf_def)
  then show "fl_file_size f = length data" "fl_file_size f - fl_buf_pos f = length cs" "length cs \<le> length data"
    "length data \<le> length cs + bs" using len file_atD(4) [OF F] by simp_all
  show "bs dvd length cs" by (rule flushed_stripes [OF F])
qed

text \<open>What the first read of a file does.\<close>

lemma first_read:
  assumes F: "file_at pm media hwp zsz nz k g i bs cs f z" and C: "cache_holds cs f" and first: "\<not> fl_use_read_buf f"
    and n: "0 < n" "n \<le> bs" "off + n \<le> fl_file_size f" and fit: "scratch + bs + IO_SIZE \<le> length (zs_mem z)"
  shows "if off + n \<le> length cs \<and> length cs < off + round_up n
     then ZoadFile_Read pm g off n scratch (f, z) = Inl (Exit ''Read size error'')
     else \<exists>f' z'. ZoadFile_Read pm g off n scratch (f, z) = Inr (OK, (scratch, n), f', z')
        \<and> take n (drop scratch (zs_mem z')) = take n (drop off (cs @ file_tail f))"
  using file_read_spec [OF F C n fit] first by (auto simp: read_fault_def Let_def split: if_splits)

text \<open>
  C1: what a database writes through the environment it reads back. The environment starts
  on a device of 32 to 1024 zones that meets the contract, a file is made and written, the worker of
  its partition serves the requests, and the file is opened for reading. All but at most one stripe
  of the data is then on the device, \<open>F\<close> bytes, the rest in the write buffer. The first read of up to
  one stripe, at any offset inside the file, returns the bytes written, whether they are on the
  device, in the write buffer or on both sides of the border; except that the process ends when the
  range is on the device but the next multiple of 192 KiB of its length reaches beyond \<open>F\<close>.
\<close>

theorem write_then_read:
  assumes "start_ok pm media hwp zsz nz d" and "12 * zsz < 2 ^ 31" and "flag < 2" and "izg = [4, 12] ! flag"
    and "length data < 2 ^ 32" and "length data div (izg * IO_SIZE) * izg \<le> nz" and "length data div (izg * IO_SIZE) \<le> rounds"
    and "0 < n" and "n \<le> izg * IO_SIZE" and "off + n \<le> length data" and "scratch + izg * IO_SIZE + IO_SIZE \<le> length mem"
  shows "\<exists>e0 h e1 e2 z r e3 F. ZoadDefault pm mem d = Inr e0
     \<and> NewWritableFile pm refs0 fname lv flag e0 = Inr (OK, h, e1) \<and> WritableFile_Append pm h data e1 = Inr (OK, e2)
     \<and> worker_main pm flag rounds (en_z e2) = Inr (False, z)
     \<and> NewRandomAccessFile fname (e2\<lparr>en_z := z\<rparr>) = Inr (OK, Some r, e3)
     \<and> F = fl_file_size (en_files e3 ! r) - fl_buf_pos (en_files e3 ! r)
     \<and> F \<le> length data \<and> length data \<le> F + izg * IO_SIZE \<and> izg * IO_SIZE dvd F
     \<and> (if off + n \<le> F \<and> F < off + round_up n
        then RandomAccessFile_Read pm r off n scratch e3 = Inl (Exit ''Read size error'')
        else \<exists>e4. RandomAccessFile_Read pm r off n scratch e3 = Inr ((OK, scratch, n), e4)
           \<and> take n (drop scratch (zs_mem (en_z e4))) = take n (drop off data))"
proof -
  let ?bs = "izg * IO_SIZE"
  obtain z0 where z0: "zoad_init pm mem d = Inr z0" "sys_ok pm media hwp zsz nz 0 (default_zoad pm z0) []"
    using default_sys [OF assms(1)] assms(2) by auto
  define zd where "zd = default_zoad pm z0"
  have e0: "ZoadDefault pm mem d = Inr (env_of zd)" using ZoadDefault_run [OF z0(1)] by (simp add: zd_def)
  have parts: "pt_io_queue (zs_parts zd ! flag) = []" "pt_status (zs_parts zd ! flag) = OPEN" "pt_izg_cnt (zs_parts zd ! flag) = izg"
    "pt_userdata_map (zs_parts zd ! flag) = Map.empty" "zs_mem zd = mem"
    using assms(3,4) zoad_init_fields(8) [OF z0(1)] by (auto simp: zd_def default_zoad_def less_2_cases_iff)
  obtain e1 f where e1: "NewWritableFile pm refs0 fname lv flag (env_of zd) = Inr (OK, 0, e1)" "en_z e1 = zd" "en_cfg e1 = env_cfg"
    "en_files e1 = [f]" "en_file_map e1 = [(fname, 0)]" "file_fits f" "fl_flag f = flag" "fl_buf_pos f = 0" "fl_file_size f = 0"
    "file_tail f = []" "cache_ok [] f" "\<not> fl_use_read_buf f" using first_file [OF assms(3)] by blast
  have bs: "cf_buf_size env_cfg ! flag = ?bs" using assms(3,4) by (auto simp: env_cfg_sel less_2_cases_iff)
  have "part_usable env_cfg flag zd"
    using fits_usable(1) [OF env_start_ok [OF e0] e1(6)] e1(7) by (simp add: env_of_def)
  then have F: "file_at pm media hwp zsz nz 0 env_cfg flag ?bs [] f zd"
    unfolding file_at_def using e1(6-9) bs parts z0(2) [folded zd_def] by auto
  from file_append_served [OF F refl parts(1,2), of data rounds] assms(5-7) e1(8-12) parts(3,5) obtain f1 z1 z2 k cs where
    a: "ZoadFile_Append pm env_cfg data (f, zd) = Inr (OK, f1, z1)" "worker_main pm flag rounds z1 = Inr (False, z2)"
      "file_at pm media hwp zsz nz k env_cfg flag ?bs cs f1 z2" "cs @ file_tail f1 = data" "zs_mem z2 = mem" "cache_ok cs f1"
      "\<not> fl_use_read_buf f1" by auto
  note split = written_split [OF a(3,4)]
  define e2 where "e2 = e1\<lparr>en_files := [f1], en_z := z1\<rparr>"
  define e3 where "e3 = e1\<lparr>en_files := [Ref f1], en_z := z2\<rparr>"
  have "WritableFile_Append pm 0 data e1 = Inr (OK, e2)" using e1 a(1) by (simp add: WritableFile_Append_def on_file_def e2_def)
  moreover have "NewRandomAccessFile fname (e2\<lparr>en_z := z2\<rparr>) = Inr (OK, Some 0, e3)"
    using e1 by (cases e1) (simp add: NewRandomAccessFile_def new_FileImpl_def upd_file_def e2_def e3_def)
  moreover have rd: "RandomAccessFile_Read pm 0 off n scratch e3 = ebind (ZoadFile_Read pm env_cfg off n scratch (Ref f1, z2))
      (\<lambda>(st, result, f, z). Inr ((st, result), e3\<lparr>en_files := [f], en_z := z\<rparr>))"
    using e1(3) by (cases "ZoadFile_Read pm env_cfg off n scratch (Ref f1, z2)") (auto simp: RandomAccessFile_Read_def on_file_def e3_def)
  have "if off + n \<le> length cs \<and> length cs < off + round_up n
     then RandomAccessFile_Read pm 0 off n scratch e3 = Inl (Exit ''Read size error'')
     else \<exists>e4. RandomAccessFile_Read pm 0 off n scratch e3 = Inr ((OK, scratch, n), e4)
        \<and> take n (drop scratch (zs_mem (en_z e4))) = take n (drop off data)"
    using first_read [of pm media hwp zsz nz k env_cfg flag ?bs cs "Ref f1" z2 n off scratch] a(3-5,7) cache_ok_holds [OF a(6)]
      assms(8-11) split(1) unfolding rd by (auto split: if_splits)
  ultimately show ?thesis using e0 e1(1) a(2) split
    by (intro exI [of _ "env_of zd"] exI [of _ 0] exI [of _ e1] exI [of _ e2] exI [of _ z2] exI [of _ e3] exI [of _ "length cs"])
      (simp add: e2_def e3_def)
qed

text \<open>Nine units in stripes of four; the read takes two bytes from the device and two from the write buffer.\<close>

theorem write_then_read_witness:
  "\<exists>e0 h e1 e2 z r e3 e4. ZoadDefault emu_pm (replicate (6 * IO_SIZE) 0) (emu_init (2 * IO_BLOCKS)) = Inr e0
     \<and> NewWritableFile emu_pm 0 ''db/000004.log'' 0 0 e0 = Inr (OK, h, e1)
     \<and> WritableFile_Append emu_pm h (replicate (8 * IO_SIZE) 7 @ replicate IO_SIZE 9) e1 = Inr (OK, e2)
     \<and> worker_main emu_pm 0 2 (en_z e2) = Inr (False, z)
     \<and> NewRandomAccessFile ''db/000004.log'' (e2\<lparr>en_z := z\<rparr>) = Inr (OK, Some r, e3)
     \<and> RandomAccessFile_Read emu_pm r (8 * IO_SIZE - 2) 4 0 e3 = Inr ((OK, 0, 4), e4) \<and> take 4 (zs_mem (en_z e4)) = [7, 7, 9, 9]"
proof -
  let ?d = "replicate (8 * IO_SIZE) 7 @ replicate IO_SIZE 9 :: byte list" and ?off = "8 * IO_SIZE - 2"
  have "\<exists>e0 h e1 e2 z r e3 F. ZoadDefault emu_pm (replicate (6 * IO_SIZE) 0) (emu_init (2 * IO_BLOCKS)) = Inr e0
     \<and> NewWritableFile emu_pm 0 ''db/000004.log'' 0 0 e0 = Inr (OK, h, e1) \<and> WritableFile_Append emu_pm h ?d e1 = Inr (OK, e2)
     \<and> worker_main emu_pm 0 2 (en_z e2) = Inr (False, z)
     \<and> NewRandomAccessFile ''db/000004.log'' (e2\<lparr>en_z := z\<rparr>) = Inr (OK, Some r, e3)
     \<and> F = fl_file_size (en_files e3 ! r) - fl_buf_pos (en_files e3 ! r)
     \<and> F \<le> length ?d \<and> length ?d \<le> F + 4 * IO_SIZE \<and> 4 * IO_SIZE dvd F
     \<and> (if ?off + 4 \<le> F \<and> F < ?off + round_up 4 then RandomAccessFile_Read emu_pm r ?off 4 0 e3 = Inl (Exit ''Read size error'')
        else \<exists>e4. RandomAccessFile_Read emu_pm r ?off 4 0 e3 = Inr ((OK, 0, 4), e4)
           \<and> take 4 (drop 0 (zs_mem (en_z e4))) = take 4 (drop ?off ?d))"
    by (rule write_then_read [OF emu_start, of _ 4]) (simp_all add: IO_SIZE_def IO_BLOCKS_def)
  then obtain e0 h e1 e2 z r e3 F where x: "ZoadDefault emu_pm (replicate (6 * IO_SIZE) 0) (emu_init (2 * IO_BLOCKS)) = Inr e0"
    "NewWritableFile emu_pm 0 ''db/000004.log'' 0 0 e0 = Inr (OK, h, e1)" "WritableFile_Append emu_pm h ?d e1 = Inr (OK, e2)"
    "worker_main emu_pm 0 2 (en_z e2) = Inr (False, z)" "NewRandomAccessFile ''db/000004.log'' (e2\<lparr>en_z := z\<rparr>) = Inr (OK, Some r, e3)"
    and F: "F \<le> length ?d" "length ?d \<le> F + 4 * IO_SIZE" "4 * IO_SIZE dvd F"
    and rd: "if ?off + 4 \<le> F \<and> F < ?off + round_up 4 then RandomAccessFile_Read emu_pm r ?off 4 0 e3 = Inl (Exit ''Read size error'')
        else \<exists>e4. RandomAccessFile_Read emu_pm r ?off 4 0 e3 = Inr ((OK, 0, 4), e4)
           \<and> take 4 (drop 0 (zs_mem (en_z e4))) = take 4 (drop ?off ?d)" by blast
  obtain q where q: "F = 4 * IO_SIZE * q" using F(3) by (elim dvdE)
  then have "q = 2" using F(1,2) by (simp add: IO_SIZE_def)
  then have "\<not> ?off + 4 \<le> F" using q by (simp add: IO_SIZE_def)
  moreover have "take 4 (drop ?off ?d) = [7, 7, 9, 9]"
  proof -
    have "replicate (8 * IO_SIZE) 7 = replicate ?off 7 @ [7, 7 :: byte]" "replicate IO_SIZE 9 = [9, 9] @ replicate (IO_SIZE - 2) (9 :: byte)"
      by (rule replicate_ends; simp add: IO_SIZE_def)+
    then show ?thesis by (simp add: numeral_eq_Suc)
  qed
  ultimately show ?thesis using x rd by auto
qed

end
